(* ===== verification/Prelude.thy ===== *)
theory Prelude
  imports Main "HOL-Library.Word" "HOL-Library.Monad_Syntax"
begin

text \<open>
  Shared vocabulary of the development: the integer types of \<open>include/int_types.h\<close>,
  little-endian byte access to words, address spans without wrap-around, the byte views that
  read-only pointer arguments denote, and the collections of lemmas that the component theories
  feed into the simplifier.
\<close>

unbundle bit_operations_syntax

section \<open>Integer types\<close>

type_synonym u8 = "8 word"
type_synonym u16 = "16 word"
type_synonym u32 = "32 word"
type_synonym u64 = "64 word"

lemma unat_lt_64: "unat (a :: u64) < 2 ^ 64"
  using unsigned_less [of a] by simp

lemma ucast_ucast_up [simp]:
  fixes v :: "'a::len word"
  assumes "LENGTH('a) \<le> LENGTH('b::len)"
  shows "ucast (ucast v :: 'b word) = v"
  using assms by (intro bit_word_eqI) (simp add: bit_ucast_iff)

lemma unat_ucast_up:
  fixes v :: "'a::len word"
  assumes "LENGTH('a) \<le> LENGTH('b::len)"
  shows "unat (ucast v :: 'b word) = unat v"
proof -
  have "unat v < 2 ^ LENGTH('a)" by (rule unsigned_less)
  also have "(2::nat) ^ LENGTH('a) \<le> 2 ^ LENGTH('b)" using assms by simp
  finally show ?thesis by (simp add: unsigned_ucast_eq take_bit_nat_eq_self)
qed

text \<open>
  Lemma collections: \<open>frame_simps\<close> gathers what an operation leaves alone,
  \<open>load_simps\<close> what a read returns after a write.
\<close>

named_theorems frame_simps
named_theorems load_simps

section \<open>Words as little-endian byte lists\<close>

text \<open>The bytes of a word, least significant first, and back.\<close>

definition bytes_of :: "nat \<Rightarrow> 'a::len word \<Rightarrow> u8 list" where
  "bytes_of n w = map (\<lambda>i. ucast (drop_bit (8 * i) w)) [0..<n]"

primrec word_of_bytes :: "u8 list \<Rightarrow> 'a::len word" where
  "word_of_bytes [] = 0"
| "word_of_bytes (b # bs) = ucast b OR push_bit 8 (word_of_bytes bs)"

lemma length_bytes_of [simp]: "length (bytes_of n w) = n"
  by (simp add: bytes_of_def)

lemma nth_bytes_of [simp]: "i < n \<Longrightarrow> bytes_of n w ! i = ucast (drop_bit (8 * i) w)"
  by (simp add: bytes_of_def)

lemma bit_word_of_bytes:
  "bit (word_of_bytes bs :: 'a::len word) n \<longleftrightarrow>
     n < LENGTH('a) \<and> n < 8 * length bs \<and> bit (bs ! (n div 8)) (n mod 8)"
proof (induction bs arbitrary: n)
  case Nil
  then show ?case by simp
next
  case (Cons b bs)
  show ?case
  proof (cases "n < 8")
    case True
    then show ?thesis
      by (auto simp: bit_or_iff bit_push_bit_iff bit_ucast_iff)
  next
    case False
    then obtain m where m: "n = m + 8"
      by (metis add.commute le_Suc_ex linorder_not_less)
    have "\<not> bit b n"
      using False bit_imp_le_length [of b n] by fastforce
    moreover have "(m + 8) div 8 = Suc (m div 8)" by simp
    ultimately show ?thesis
      using Cons.IH [of m] by (auto simp: m bit_or_iff bit_push_bit_iff bit_ucast_iff)
  qed
qed

lemma word_of_bytes_of [simp]:
  fixes w :: "'a::len word"
  assumes "LENGTH('a) = 8 * n"
  shows "word_of_bytes (bytes_of n w) = w"
proof (rule bit_word_eqI)
  fix k
  assume k: "k < LENGTH('a)"
  then have "k div 8 < n" using assms by auto
  then show "bit (word_of_bytes (bytes_of n w) :: 'a word) k = bit w k"
    using k assms by (auto simp: bit_word_of_bytes bit_ucast_iff bit_drop_bit_eq)
qed

lemma bytes_of_word_of_bytes:
  assumes "length bs = n" and "8 * n \<le> LENGTH('a::len)"
  shows "bytes_of n (word_of_bytes bs :: 'a word) = bs"
proof (rule nth_equalityI)
  show "length (bytes_of n (word_of_bytes bs :: 'a word)) = length bs"
    using assms by simp
  fix i
  assume "i < length (bytes_of n (word_of_bytes bs :: 'a word))"
  then have i: "i < n" by simp
  show "bytes_of n (word_of_bytes bs :: 'a word) ! i = bs ! i"
  proof (rule bit_word_eqI)
    fix k
    assume "k < LENGTH(8)"
    then have k: "k < 8" by simp
    then have "(8 * i + k) div 8 = i" "(8 * i + k) mod 8 = k" by auto
    moreover have "8 * i + k < 8 * n" using i k by linarith
    moreover have "8 * i + k < LENGTH('a)" using \<open>8 * i + k < 8 * n\<close> assms(2) by linarith
    ultimately show "bit (bytes_of n (word_of_bytes bs :: 'a word) ! i) k = bit (bs ! i) k"
      using i k assms by (simp add: bit_ucast_iff bit_drop_bit_eq bit_word_of_bytes add.commute)
  qed
qed

section \<open>Addresses and spans\<close>

text \<open>
  \<open>span a n\<close> is the set of the \<open>n\<close> addresses from \<open>a\<close> on, modulo \<open>2 ^ 64\<close>;
  where it does not wrap it is an interval of \<open>unat\<close> values (\<open>span_iff\<close>).
\<close>

definition span :: "u64 \<Rightarrow> nat \<Rightarrow> u64 set" where
  "span a n = {x. unat (x - a) < n}"

lemma in_span: "x \<in> span a n \<longleftrightarrow> unat (x - a) < n"
  by (simp add: span_def)

lemma unat_diff_le:
  fixes a x :: "'a::len word"
  assumes "unat a \<le> unat x"
  shows "unat (x - a) = unat x - unat a"
  using assms by (simp add: unat_sub word_le_nat_alt)

lemma unat_add_of_nat:
  fixes a :: "'a::len word"
  assumes "unat a + k < 2 ^ LENGTH('a)"
  shows "unat (a + of_nat k) = unat a + k"
proof -
  have "k < 2 ^ LENGTH('a)" using assms by simp
  then have "unat (of_nat k :: 'a word) = k"
    by (simp add: unat_of_nat)
  then show ?thesis
    using assms by (metis unat_add_lem)
qed

lemma of_nat_unat_diff:
  fixes a x :: "'a::len word"
  assumes "unat a \<le> unat x"
  shows "a + of_nat (unat x - unat a) = x"
  using assms by (simp add: of_nat_diff)

lemma span_iff:
  assumes "unat a + n \<le> 2 ^ 64"
  shows "x \<in> span a n \<longleftrightarrow> unat a \<le> unat x \<and> unat x < unat a + n"
  using assms unsigned_less [of x] by (auto simp: in_span unat_sub_if')

lemma span_0 [simp]: "span a 0 = {}"
  by (simp add: span_def)

lemma span_mono: "n \<le> n' \<Longrightarrow> span a n \<subseteq> span a n'"
  by (auto simp: in_span)

lemma span_base [simp]: "a \<in> span a n \<longleftrightarrow> 0 < n"
  by (simp add: in_span)

lemma span_add [simp]: "i < n \<Longrightarrow> n \<le> 2 ^ 64 \<Longrightarrow> a + of_nat i \<in> span a n"
  by (simp add: in_span unat_of_nat)

lemma span_disjoint:
  assumes "unat a + n \<le> unat b" and "unat b + k \<le> 2 ^ 64"
  shows "span a n \<inter> span b k = {}"
proof -
  have "unat a + n \<le> 2 ^ 64" using assms by linarith
  then show ?thesis using assms by (auto simp: span_iff)
qed

lemma unat_offset:
  fixes x d :: u64
  assumes "k < 2 ^ 64"
  shows "unat (x - (d + of_nat k)) = (if k \<le> unat (x - d) then unat (x - d) - k else unat (x - d) + 2 ^ 64 - k)"
proof -
  have "unat (of_nat k :: u64) = k" using assms by (simp add: unat_of_nat)
  moreover have "x - (d + of_nat k) = (x - d) - of_nat k" by simp
  ultimately show ?thesis
    unfolding \<open>x - (d + of_nat k) = (x - d) - of_nat k\<close>
    using unat_sub_if' [of "x - d" "of_nat k"] by simp
qed

lemma in_span_offset:
  "k < 2 ^ 64 \<Longrightarrow> k + n \<le> 2 ^ 64 \<Longrightarrow> x \<in> span (d + of_nat k) n \<longleftrightarrow> k \<le> unat (x - d) \<and> unat (x - d) < k + n"
  using unat_lt_64 [of "x - d"] by (auto simp: in_span unat_offset)

text \<open>
  \<open>paint m a b f\<close> is the memory \<open>m\<close> with the addresses from \<open>a\<close> up to but not
  including \<open>b\<close> overwritten by \<open>f\<close>: the shape of what a filling or copying loop has
  done so far.
\<close>

definition paint :: "(u64 \<Rightarrow> u8) \<Rightarrow> u64 \<Rightarrow> u64 \<Rightarrow> (u64 \<Rightarrow> u8) \<Rightarrow> (u64 \<Rightarrow> u8)" where
  "paint m a b f = (\<lambda>x. if unat a \<le> unat x \<and> unat x < unat b then f x else m x)"

lemma paint_empty [simp]: "paint m a a f = m"
  by (rule ext) (auto simp: paint_def)

lemma paint_paint:
  "unat a \<le> unat b \<Longrightarrow> unat b \<le> unat c \<Longrightarrow> paint (paint m a b f) b c f = paint m a c f"
  by (auto simp: paint_def fun_eq_iff)

lemma paint_cong:
  "(\<And>x. unat a \<le> unat x \<Longrightarrow> unat x < unat b \<Longrightarrow> f x = g x) \<Longrightarrow> paint m a b f = paint m a b g"
  by (auto simp: paint_def fun_eq_iff)

lemma paint_in [simp]:
  "unat a \<le> unat x \<Longrightarrow> unat x < unat b \<Longrightarrow> paint m a b f x = f x"
  by (simp add: paint_def)

lemma paint_out: "unat x < unat a \<or> unat b \<le> unat x \<Longrightarrow> paint m a b f x = m x"
  by (auto simp: paint_def)

section \<open>Byte views\<close>

text \<open>
  A read-only pointer argument (\<open>const void*\<close>, \<open>const char*\<close>) is the bytes at and
  after it, by offset. \<open>at m a\<close> is a pointer into the memory \<open>m\<close>; \<open>lit s\<close> is a
  string literal or a local array, NUL after its end (only the first NUL is ever read).
\<close>

type_synonym view = "nat \<Rightarrow> u8"

definition at :: "(u64 \<Rightarrow> u8) \<Rightarrow> u64 \<Rightarrow> view" where
  "at m a i = m (a + of_nat i)"

definition lit :: "u8 list \<Rightarrow> view" where
  "lit s i = (if i < length s then s ! i else 0)"

text \<open>The bytes of an ASCII literal of the source.\<close>

definition bytes :: "string \<Rightarrow> u8 list" where
  "bytes s = map of_char s"

lemma length_bytes [simp]: "length (bytes s) = length s"
  by (simp add: bytes_def)

lemma lit_simps [simp]:
  "lit [] i = 0"
  "lit (c # cs) 0 = c"
  "lit (c # cs) (Suc i) = lit cs i"
  by (simp_all add: lit_def)

text \<open>
  The C string a view holds within its first \<open>n\<close> bytes: the bytes before the first NUL.
\<close>

primrec cstr :: "nat \<Rightarrow> view \<Rightarrow> u8 list" where
  "cstr 0 r = []"
| "cstr (Suc n) r = (if r 0 = 0 then [] else r 0 # cstr n (\<lambda>i. r (Suc i)))"

lemma cstr_takeWhile: "cstr n r = takeWhile (\<lambda>c. c \<noteq> 0) (map r [0..<n])"
proof (induction n arbitrary: r)
  case 0
  then show ?case by simp
next
  case (Suc n)
  have "map r [0..<Suc n] = r 0 # map (\<lambda>i. r (Suc i)) [0..<n]"
    by (simp add: upt_conv_Cons map_Suc_upt [symmetric] del: upt_Suc)
  then show ?case using Suc.IH [of "\<lambda>i. r (Suc i)"] by simp
qed

lemma cstr_nonzero: "0 \<notin> set (cstr n r)"
  by (auto simp: cstr_takeWhile dest: set_takeWhileD)

lemma length_cstr: "length (cstr n r) \<le> n"
  by (induction n arbitrary: r) auto

lemma cstr_cong: "(\<And>i. i < n \<Longrightarrow> r i = r' i) \<Longrightarrow> cstr n r = cstr n r'"
proof (induction n arbitrary: r r')
  case 0
  then show ?case by simp
next
  case (Suc n)
  have "r 0 = r' 0" using Suc.prems by simp
  moreover have "cstr n (\<lambda>i. r (Suc i)) = cstr n (\<lambda>i. r' (Suc i))"
    using Suc.prems by (intro Suc.IH) simp
  ultimately show ?case by simp
qed

lemma cstr_lit: "0 \<notin> set s \<Longrightarrow> cstr n (lit s) = take n s"
proof (induction n arbitrary: s)
  case 0
  then show ?case by simp
next
  case (Suc n)
  show ?case
  proof (cases s)
    case Nil
    then show ?thesis by simp
  next
    case (Cons c cs)
    have "(\<lambda>i. lit s (Suc i)) = lit cs" by (simp add: Cons fun_eq_iff)
    then show ?thesis using Suc Cons by auto
  qed
qed

end
