(* ===== verification/Mem.thy ===== *)
theory Mem
  imports Prelude
begin

text \<open>
  The memory the C code sees and the routines of \<open>src/mem.c\<close>. A memory is a total map from
  addresses to bytes; words are stored little-endian. The loops of \<open>memset\<close> and
  \<open>memcpy\<close> compare addresses that can wrap around, so they are partial functions: the
  value \<open>None\<close> means that the loop never ends.
\<close>

type_synonym mem = "u64 \<Rightarrow> u8"

section \<open>Loads and stores\<close>

primrec store_bytes :: "mem \<Rightarrow> u64 \<Rightarrow> u8 list \<Rightarrow> mem" where
  "store_bytes m a [] = m"
| "store_bytes m a (b # bs) = store_bytes (m(a := b)) (a + 1) bs"

definition load_bytes :: "mem \<Rightarrow> u64 \<Rightarrow> nat \<Rightarrow> u8 list" where
  "load_bytes m a n = map (at m a) [0..<n]"

definition load16 :: "mem \<Rightarrow> u64 \<Rightarrow> u16" where
  "load16 m a = word_of_bytes (load_bytes m a 2)"

definition load32 :: "mem \<Rightarrow> u64 \<Rightarrow> u32" where
  "load32 m a = word_of_bytes (load_bytes m a 4)"

definition load64 :: "mem \<Rightarrow> u64 \<Rightarrow> u64" where
  "load64 m a = word_of_bytes (load_bytes m a 8)"

definition store16 :: "mem \<Rightarrow> u64 \<Rightarrow> u16 \<Rightarrow> mem" where
  "store16 m a v = store_bytes m a (bytes_of 2 v)"

definition store32 :: "mem \<Rightarrow> u64 \<Rightarrow> u32 \<Rightarrow> mem" where
  "store32 m a v = store_bytes m a (bytes_of 4 v)"

definition store64 :: "mem \<Rightarrow> u64 \<Rightarrow> u64 \<Rightarrow> mem" where
  "store64 m a v = store_bytes m a (bytes_of 8 v)"

lemma length_load_bytes [simp]: "length (load_bytes m a n) = n"
  by (simp add: load_bytes_def)

lemma nth_load_bytes [simp]: "i < n \<Longrightarrow> load_bytes m a n ! i = m (a + of_nat i)"
  by (simp add: load_bytes_def at_def)

lemma store_bytes_apply:
  assumes "length bs < 2 ^ 64"
  shows "store_bytes m a bs x = (if x \<in> span a (length bs) then bs ! unat (x - a) else m x)"
  using assms
proof (induction bs arbitrary: m a)
  case Nil
  then show ?case by simp
next
  case (Cons b bs)
  have IH: "store_bytes (m(a := b)) (a + 1) bs x
      = (if x \<in> span (a + 1) (length bs) then bs ! unat (x - (a + 1)) else (m(a := b)) x)"
    using Cons by simp
  show ?case
  proof (cases "x = a")
    case True
    then have "unat (x - (a + 1)) = 2 ^ 64 - 1"
      by (simp add: unsigned_minus_1_eq_mask mask_eq_exp_minus_1)
    then have "x \<notin> span (a + 1) (length bs)" using Cons.prems by (simp add: in_span)
    then show ?thesis using IH True by simp
  next
    case False
    then have "unat (x - a) \<noteq> 0" by (simp add: unat_eq_0)
    moreover have "x - (a + 1) = (x - a) - 1" by simp
    ultimately have "unat (x - a) = Suc (unat (x - (a + 1)))"
      by (metis Suc_pred' gr0I unat_0 unat_minus_one)
    then show ?thesis using IH False by (auto simp: in_span)
  qed
qed

lemma store_bytes_out:
  "length bs < 2 ^ 64 \<Longrightarrow> x \<notin> span a (length bs) \<Longrightarrow> store_bytes m a bs x = m x"
  by (simp add: store_bytes_apply)

lemma load_store_bytes:
  assumes "length bs < 2 ^ 64"
  shows "load_bytes (store_bytes m a bs) a (length bs) = bs"
  using assms
  by (intro nth_equalityI) (simp_all add: store_bytes_apply unat_of_nat)

lemma load_bytes_cong:
  assumes "\<And>x. x \<in> span a n \<Longrightarrow> m x = m' x" and "n \<le> 2 ^ 64"
  shows "load_bytes m a n = load_bytes m' a n"
  using assms by (auto simp: load_bytes_def at_def)

lemma load64_cong: "(\<And>x. x \<in> span a 8 \<Longrightarrow> m x = m' x) \<Longrightarrow> load64 m a = load64 m' a"
  unfolding load64_def by (subst load_bytes_cong [of a 8 m m']) auto

lemma load16_cong: "(\<And>x. x \<in> span a 2 \<Longrightarrow> m x = m' x) \<Longrightarrow> load16 m a = load16 m' a"
  unfolding load16_def by (subst load_bytes_cong [of a 2 m m']) auto

lemma load32_cong: "(\<And>x. x \<in> span a 4 \<Longrightarrow> m x = m' x) \<Longrightarrow> load32 m a = load32 m' a"
  unfolding load32_def by (subst load_bytes_cong [of a 4 m m']) auto

lemma store64_out [load_simps]: "x \<notin> span a 8 \<Longrightarrow> store64 m a v x = m x"
  by (simp add: store64_def store_bytes_out)

lemma store16_out [load_simps]: "x \<notin> span a 2 \<Longrightarrow> store16 m a v x = m x"
  by (simp add: store16_def store_bytes_out)

lemma load64_store64 [load_simps, simp]: "load64 (store64 m a v) a = v"
  using load_store_bytes [of "bytes_of 8 v" m a] by (simp add: load64_def store64_def)

lemma load64_store64_apart [load_simps]:
  "span a 8 \<inter> span b 8 = {} \<Longrightarrow> load64 (store64 m a v) b = load64 m b"
  by (rule load64_cong) (auto intro: store64_out)

lemma store_bytes_offset:
  assumes "k < 2 ^ 64" and "k + length bs < 2 ^ 64"
  shows "store_bytes m (d + of_nat k) bs x
    = (if k \<le> unat (x - d) \<and> unat (x - d) < k + length bs then bs ! (unat (x - d) - k) else m x)"
  using assms by (simp add: store_bytes_apply in_span_offset unat_offset)

lemma store_bytes_field:
  assumes "unat c + length bs < 2 ^ 64"
  shows "store_bytes m (d + c) bs x
    = (if unat c \<le> unat (x - d) \<and> unat (x - d) < unat c + length bs then bs ! (unat (x - d) - unat c) else m x)"
  using store_bytes_offset [of "unat c" bs m d x] assms unat_lt_64 [of c] by simp

lemma load_bytes_offset:
  assumes "k + n \<le> N"
  shows "load_bytes m (d + of_nat k) n = take n (drop k (load_bytes m d N))"
  using assms by (intro nth_equalityI) (simp_all add: add.assoc)

lemma store16_apply:
  "store16 m a v x = (if x = a then ucast v else if x = a + 1 then ucast (drop_bit 8 v) else m x)"
proof -
  have "a \<noteq> a + 1" by simp
  then show ?thesis by (simp add: store16_def bytes_of_def upt_rec numeral_2_eq_2)
qed

section \<open>Stores of cells at addresses\<close>

lemma store32_out: "x \<notin> span a 4 \<Longrightarrow> store32 m a v x = m x"
  by (simp add: store32_def store_bytes_out)

lemma load32_store32: "load32 (store32 m a v) a = v"
  using load_store_bytes [of "bytes_of 4 v" m a] by (simp add: load32_def store32_def)

text \<open>
  What the clients of an addressable store rely on: reading a cell just written gives the value
  written, and writing leaves every cell apart from it alone. The page-table entries, the text
  cells of the screen and the interrupt descriptors are such stores, and the loops that fill
  them are reasoned about here once.
\<close>

locale cell_store =
  fixes get :: "'s \<Rightarrow> 'a \<Rightarrow> 'v"
    and put :: "'s \<Rightarrow> 'a \<Rightarrow> 'v \<Rightarrow> 's"
    and apart :: "'a \<Rightarrow> 'a \<Rightarrow> bool"
  assumes get_put: "get (put s a v) a = v"
    and get_put_apart: "apart a b \<Longrightarrow> get (put s a v) b = get s b"
begin

lemma fill_apart:
  assumes "\<And>i. i \<in> set is \<Longrightarrow> apart (adr i) b"
  shows "get (fold (\<lambda>i s. put s (adr i) (val i)) is s) b = get s b"
  using assms by (induction "is" arbitrary: s) (simp_all add: get_put_apart)

lemma fill_get:
  assumes "distinct is" and "j \<in> set is"
    and "\<And>i. i \<in> set is \<Longrightarrow> i \<noteq> j \<Longrightarrow> apart (adr i) (adr j)"
  shows "get (fold (\<lambda>i s. put s (adr i) (val i)) is s) (adr j) = val j"
  using assms
proof (induction "is" arbitrary: s)
  case Nil
  then show ?case by simp
next
  case (Cons k ks)
  show ?case
  proof (cases "j = k")
    case True
    then have "\<And>i. i \<in> set ks \<Longrightarrow> apart (adr i) (adr j)" using Cons.prems by auto
    then show ?thesis using True by (simp add: fill_apart get_put)
  next
    case False
    then show ?thesis using Cons by simp
  qed
qed

end

definition apart64 :: "u64 \<Rightarrow> u64 \<Rightarrow> bool" where
  "apart64 a b \<longleftrightarrow> span a 8 \<inter> span b 8 = {}"

interpretation qwords: cell_store load64 store64 apart64
  by unfold_locales (simp_all add: apart64_def load64_store64_apart)

interpretation byte_cells: cell_store "\<lambda>m a. m a" "\<lambda>m a v. m(a := v)" "\<lambda>a b. a \<noteq> b"
  by unfold_locales simp_all

section \<open>memset\<close>

text \<open>
  The three loops of \<open>memset\<close>: single bytes up to an 8-byte boundary, eight bytes at a time
  (the byte \<open>val\<close> is converted to a 64-bit integer, not replicated), and the last bytes.
\<close>

partial_function (option) memset_head :: "u64 \<Rightarrow> u8 \<Rightarrow> u64 \<Rightarrow> mem \<Rightarrow> (u64 \<times> mem) option" where
  "memset_head e val d m =
     (if d mod 8 \<noteq> 0 \<and> d < e then memset_head e val (d + 1) (m(d := val)) else Some (d, m))"

partial_function (option) memset_words :: "u64 \<Rightarrow> u8 \<Rightarrow> u64 \<Rightarrow> mem \<Rightarrow> (u64 \<times> mem) option" where
  "memset_words e val d m =
     (if d + 8 < e then memset_words e val (d + 8) (store64 m d (ucast val)) else Some (d, m))"

partial_function (option) memset_tail :: "u64 \<Rightarrow> u8 \<Rightarrow> u64 \<Rightarrow> mem \<Rightarrow> mem option" where
  "memset_tail e val d m =
     (if d < e then memset_tail e val (d + 1) (m(d := val)) else Some m)"

definition memset :: "mem \<Rightarrow> u64 \<Rightarrow> u8 \<Rightarrow> u64 \<Rightarrow> mem option" where
  "memset m dst val n = do {
     (d, m) \<leftarrow> memset_head (dst + n) val dst m;
     (d, m) \<leftarrow> memset_words (dst + n) val d m;
     memset_tail (dst + n) val d m }"

section \<open>memcpy\<close>

partial_function (option) memcpy_head ::
    "u64 \<Rightarrow> u64 \<Rightarrow> u64 \<Rightarrow> mem \<Rightarrow> (u64 \<times> u64 \<times> mem) option" where
  "memcpy_head e d s m =
     (if d mod 8 \<noteq> 0 \<and> d < e then memcpy_head e (d + 1) (s + 1) (m(d := m s))
      else Some (d, s, m))"

partial_function (option) memcpy_words ::
    "u64 \<Rightarrow> u64 \<Rightarrow> u64 \<Rightarrow> mem \<Rightarrow> (u64 \<times> u64 \<times> mem) option" where
  "memcpy_words e d s m =
     (if d + 8 < e then memcpy_words e (d + 8) (s + 8) (store64 m d (load64 m s))
      else Some (d, s, m))"

partial_function (option) memcpy_tail :: "u64 \<Rightarrow> u64 \<Rightarrow> u64 \<Rightarrow> mem \<Rightarrow> mem option" where
  "memcpy_tail e d s m =
     (if d < e then memcpy_tail e (d + 1) (s + 1) (m(d := m s)) else Some m)"

definition memcpy :: "mem \<Rightarrow> u64 \<Rightarrow> u64 \<Rightarrow> u64 \<Rightarrow> mem option" where
  "memcpy m dst src n = do {
     (d, s, m) \<leftarrow> memcpy_head (dst + n) dst src m;
     (d, s, m) \<leftarrow> memcpy_words (dst + n) d s m;
     memcpy_tail (dst + n) d s m }"

section \<open>memcmp, strncmp and strncpy\<close>

text \<open>\<open>for(i = 0; i < size; i++)\<close>, with the iterations that remain as first argument.\<close>

primrec memcmp_loop :: "nat \<Rightarrow> view \<Rightarrow> view \<Rightarrow> nat \<Rightarrow> int" where
  "memcmp_loop 0 b1 b2 i = 0"
| "memcmp_loop (Suc k) b1 b2 i = (if b1 i \<noteq> b2 i then 1 else memcmp_loop k b1 b2 (Suc i))"

definition memcmp :: "view \<Rightarrow> view \<Rightarrow> u64 \<Rightarrow> int" where
  "memcmp s1 s2 sz = memcmp_loop (unat sz) s1 s2 0"

text \<open>
  The loop of \<open>strncmp\<close> ends at \<open>size == 0\<close>, at the first NUL of \<open>s1\<close> or at the first
  difference; the result is the difference of the two bytes there, as unsigned values.
\<close>

primrec strncmp_loop :: "nat \<Rightarrow> view \<Rightarrow> view \<Rightarrow> int" where
  "strncmp_loop 0 s1 s2 = 0"
| "strncmp_loop (Suc n) s1 s2 =
     (if s1 0 \<noteq> 0 \<and> s1 0 = s2 0 then strncmp_loop n (\<lambda>i. s1 (Suc i)) (\<lambda>i. s2 (Suc i))
      else uint (s1 0) - uint (s2 0))"

definition strncmp :: "view \<Rightarrow> view \<Rightarrow> u64 \<Rightarrow> int" where
  "strncmp s1 s2 sz = strncmp_loop (unat sz) s1 s2"

text \<open>
  \<open>strncpy\<close> copies up to \<open>sz\<close> bytes, stops at a NUL without writing it, and returns the
  number of bytes copied. The first argument is \<open>sz - counter\<close>.
\<close>

primrec strncpy_loop :: "nat \<Rightarrow> mem \<Rightarrow> u64 \<Rightarrow> u64 \<Rightarrow> u64 \<Rightarrow> u64 \<times> mem" where
  "strncpy_loop 0 m dst src counter = (counter, m)"
| "strncpy_loop (Suc k) m dst src counter =
     (if m src \<noteq> 0 then strncpy_loop k (m(dst := m src)) (dst + 1) (src + 1) (counter + 1)
      else (counter, m))"

definition strncpy :: "mem \<Rightarrow> u64 \<Rightarrow> u64 \<Rightarrow> u64 \<Rightarrow> u64 \<times> mem" where
  "strncpy m dst src sz = strncpy_loop (unat sz) m dst src 0"

section \<open>What the routines do\<close>

lemma unat_succ_less: "d < e \<Longrightarrow> unat (d + 1) = unat d + 1" for d e :: u64
  using unat_add_of_nat [of d 1] unat_lt_64 [of e] by (simp add: word_less_nat_alt)

lemma unat_add_8: "unat d + 8 < 2 ^ 64 \<Longrightarrow> unat (d + 8) = unat d + 8" for d :: u64
  using unat_add_of_nat [of d 8] by simp

lemma paint_upd:
  assumes "unat (d + 1) = unat d + 1" and "unat (d + 1) \<le> unat h"
  shows "paint (m(d := v)) (d + 1) h f = paint m d h (f(d := v))"
  unfolding paint_def fun_eq_iff using assms by (auto simp: word_unat_eq_iff)

lemma store_bytes_paint:
  assumes "unat d + length bs < 2 ^ 64"
  shows "store_bytes m d bs = paint m d (d + of_nat (length bs)) (\<lambda>x. bs ! unat (x - d))"
proof (rule ext)
  fix x
  have "unat (d + of_nat (length bs)) = unat d + length bs"
    using assms by (intro unat_add_of_nat) simp
  then show "store_bytes m d bs x
      = paint m d (d + of_nat (length bs)) (\<lambda>x. bs ! unat (x - d)) x"
    using assms by (auto simp: store_bytes_apply span_iff paint_def)
qed

lemma store64_paint:
  assumes "unat d + 8 < 2 ^ 64"
  shows "store64 m d v = paint m d (d + 8) (\<lambda>x. ucast (drop_bit (8 * unat (x - d)) v))"
proof -
  have "store64 m d v = paint m d (d + 8) (\<lambda>x. bytes_of 8 v ! unat (x - d))"
    using store_bytes_paint [of d "bytes_of 8 v" m] assms by (simp add: store64_def)
  also have "\<dots> = paint m d (d + 8) (\<lambda>x. ucast (drop_bit (8 * unat (x - d)) v))"
    using unat_add_8 [OF assms] by (intro paint_cong) (simp add: unat_diff_le)
  finally show ?thesis .
qed

lemma store64_ucast_paint:
  assumes "unat d + 8 < 2 ^ 64"
  shows "store64 m d (ucast v)
     = paint m d (d + 8) (\<lambda>x. if (unat x - unat d) mod 8 = 0 then v else 0)"
proof -
  have "ucast (drop_bit (8 * unat (x - d)) (ucast v :: u64)) =
      (if (unat x - unat d) mod 8 = 0 then v else 0)"
    if "unat d \<le> unat x" "unat x < unat (d + 8)" for x
  proof (cases "x = d")
    case True
    then show ?thesis by simp
  next
    case False
    then have pos: "0 < unat x - unat d" "unat x - unat d < 8"
      using that unat_add_8 [OF assms] by (auto simp: word_unat_eq_iff)
    then have "drop_bit (8 * unat (x - d)) (ucast v :: u64) = 0"
      using that by (intro bit_word_eqI)
        (auto simp: unat_diff_le bit_drop_bit_eq bit_ucast_iff dest: bit_imp_le_length)
    then show ?thesis using pos by simp
  qed
  then show ?thesis
    unfolding store64_paint [OF assms] by (intro paint_cong) simp
qed

subsection \<open>memset\<close>

lemma memset_head_run:
  assumes "unat d \<le> unat e"
  shows "\<exists>h. memset_head e val d m = Some (h, paint m d h (\<lambda>_. val)) \<and>
    unat d \<le> unat h \<and> unat h \<le> unat e \<and> (h = e \<or> h mod 8 = 0)"
  using assms
proof (induction "unat e - unat d" arbitrary: d m)
  case 0
  then have "d = e" by (simp add: word_unat_eq_iff)
  then show ?case by (simp add: memset_head.simps)
next
  case (Suc k)
  show ?case
  proof (cases "d mod 8 \<noteq> 0 \<and> d < e")
    case True
    then have d1: "unat (d + 1) = unat d + 1" by (blast intro: unat_succ_less)
    with Suc.hyps(2) have "k = unat e - unat (d + 1)" "unat (d + 1) \<le> unat e" by linarith+
    from Suc.hyps(1) [OF this, of "m(d := val)"] obtain h where
      "memset_head e val (d + 1) (m(d := val))
         = Some (h, paint (m(d := val)) (d + 1) h (\<lambda>_. val))"
      "unat (d + 1) \<le> unat h" "unat h \<le> unat e" "h = e \<or> h mod 8 = 0"
      by (elim exE conjE)
    moreover have "paint (m(d := val)) (d + 1) h (\<lambda>_. val) = paint m d h (\<lambda>_. val)"
      using d1 \<open>unat (d + 1) \<le> unat h\<close> by (subst paint_upd) (simp_all add: fun_upd_idem)
    ultimately show ?thesis using True d1 memset_head.simps [of e val d m] by auto
  next
    case False
    have "d = e \<or> d mod 8 = 0"
    proof (cases "d < e")
      case True
      with False show ?thesis by blast
    next
      case F: False
      with Suc.prems show ?thesis by (simp add: word_less_nat_alt word_unat_eq_iff)
    qed
    moreover have "memset_head e val d m = Some (d, m)"
      by (subst memset_head.simps) (rule if_not_P [OF False])
    ultimately show ?thesis using Suc.prems by (intro exI [of _ d]) (simp only: paint_empty simp_thms order_refl)
  qed
qed

lemma memset_words_run:
  assumes "unat d \<le> unat e" and "unat e + 8 < 2 ^ 64"
  shows "\<exists>w. memset_words e val d m
      = Some (w, paint m d w (\<lambda>x. if (unat x - unat d) mod 8 = 0 then val else 0)) \<and>
    unat w = unat d + 8 * ((unat e - unat d - 1) div 8) \<and> unat w \<le> unat e"
  using assms
proof (induction "unat e - unat d" arbitrary: d m rule: less_induct)
  case less
  have d8: "unat (d + 8) = unat d + 8" if "unat d < unat e"
    using that less.prems by (intro unat_add_8) linarith
  show ?case
  proof (cases "d + 8 < e")
    case True
    have lt: "unat d < unat e"
    proof (rule ccontr)
      assume "\<not> unat d < unat e"
      then have "d = e" using less.prems by (simp add: word_unat_eq_iff)
      then show False using True less.prems unat_add_8 [of e]
        by (simp add: word_less_nat_alt)
    qed
    note d8 = d8 [OF lt]
    have "unat e - unat (d + 8) < unat e - unat d" "unat (d + 8) \<le> unat e"
      using True d8 lt by (auto simp: word_less_nat_alt)
    from less.hyps [OF this less.prems(2), of "store64 m d (ucast val)"]
    obtain w where w: "memset_words e val (d + 8) (store64 m d (ucast val))
        = Some (w, paint (store64 m d (ucast val)) (d + 8) w
            (\<lambda>x. if (unat x - unat (d + 8)) mod 8 = 0 then val else 0))"
      "unat w = unat (d + 8) + 8 * ((unat e - unat (d + 8) - 1) div 8)" "unat w \<le> unat e"
      by (elim exE conjE)
    let ?f = "\<lambda>x. if (unat x - unat d) mod 8 = 0 then val else 0"
    have "paint (store64 m d (ucast val)) (d + 8) w
            (\<lambda>x. if (unat x - unat (d + 8)) mod 8 = 0 then val else 0)
        = paint (store64 m d (ucast val)) (d + 8) w ?f"
    proof (rule paint_cong)
      fix x
      assume "unat (d + 8) \<le> unat x"
      then have "unat x - unat d = (unat x - unat (d + 8)) + 8" using d8 by linarith
      then show "(if (unat x - unat (d + 8)) mod 8 = 0 then val else 0)
          = (if (unat x - unat d) mod 8 = 0 then val else 0)" by simp
    qed
    also have "\<dots> = paint (paint m d (d + 8) ?f) (d + 8) w ?f"
      using d8 unat_lt_64 [of "d + 8"] by (subst store64_ucast_paint) simp_all
    also have "\<dots> = paint m d w ?f"
      using d8 w(2) by (intro paint_paint) simp_all
    finally have p: "memset_words e val (d + 8) (store64 m d (ucast val)) = Some (w, paint m d w ?f)"
      using w(1) by (simp only:)
    have "memset_words e val d m = Some (w, paint m d w ?f)"
      unfolding p [symmetric] by (subst memset_words.simps) (rule if_P [OF True])
    moreover have "unat w = unat d + 8 * ((unat e - unat d - 1) div 8)"
    proof -
      have "unat e - unat d - 1 = (unat e - unat (d + 8) - 1) + 8"
        using True d8 by (simp add: word_less_nat_alt)
      then have "8 * ((unat e - unat d - 1) div 8) = 8 * ((unat e - unat (d + 8) - 1) div 8) + 8"
        by (simp only: div_add_self2) simp
      then show ?thesis using w(2) d8 by linarith
    qed
    ultimately show ?thesis using w(3) by (intro exI [of _ w] conjI)
  next
    case False
    have "(unat e - unat d - 1) div 8 = 0"
    proof (cases "unat d < unat e")
      case True
      then show ?thesis using False d8 by (auto simp: word_less_nat_alt)
    qed simp
    then show ?thesis using False less.prems
      by (intro exI [of _ d]) (simp add: memset_words.simps [of e val d m])
  qed
qed

lemma memset_tail_run:
  assumes "unat d \<le> unat e"
  shows "memset_tail e val d m = Some (paint m d e (\<lambda>_. val))"
  using assms
proof (induction "unat e - unat d" arbitrary: d m)
  case 0
  then have "d = e" by (simp add: word_unat_eq_iff)
  then show ?case by (simp add: memset_tail.simps)
next
  case (Suc k)
  then have "d < e" by (simp add: word_less_nat_alt)
  then have d1: "unat (d + 1) = unat d + 1" by (simp add: unat_succ_less)
  with Suc.hyps(2) have "k = unat e - unat (d + 1)" "unat (d + 1) \<le> unat e" by linarith+
  note Suc.hyps(1) [OF this, of "m(d := val)"]
  moreover have "paint (m(d := val)) (d + 1) e (\<lambda>_. val) = paint m d e (\<lambda>_. val)"
    using d1 \<open>unat (d + 1) \<le> unat e\<close> by (subst paint_upd) (simp_all add: fun_upd_idem)
  ultimately show ?case using \<open>d < e\<close> memset_tail.simps [of e val d m] by simp
qed

text \<open>
  The byte at \<open>x\<close> after \<open>memset\<close>: the 64-bit stores between \<open>h\<close> and \<open>w\<close> leave
  \<open>val\<close> only in the first of each eight bytes.
\<close>

definition stripe :: "u64 \<Rightarrow> u64 \<Rightarrow> u8 \<Rightarrow> u64 \<Rightarrow> u8" where
  "stripe h w val x =
     (if unat h \<le> unat x \<and> unat x < unat w \<and> (unat x - unat h) mod 8 \<noteq> 0 then 0 else val)"

lemma stripe_0 [simp]: "stripe h w 0 = (\<lambda>_. 0)"
  by (simp add: stripe_def fun_eq_iff)

lemma memset_run:
  assumes "unat dst + unat n + 8 < 2 ^ 64"
  obtains h w where "memset m dst val n = Some (paint m dst (dst + n) (stripe h w val))"
    and "unat dst \<le> unat h" and "dst mod 8 = 0 \<Longrightarrow> h = dst"
    and "unat w = unat h + 8 * ((unat dst + unat n - unat h - 1) div 8)"
proof -
  have e: "unat (dst + n) = unat dst + unat n"
    using assms by (subst unat_add_lem [symmetric]) simp
  obtain h where h: "memset_head (dst + n) val dst m = Some (h, paint m dst h (\<lambda>_. val))"
    "unat dst \<le> unat h" "unat h \<le> unat (dst + n)"
    using memset_head_run [of dst "dst + n" val m] e by auto
  have h0: "h = dst" if "dst mod 8 = 0"
    using h(1) that memset_head.simps [of "dst + n" val dst m] by simp
  obtain w where w: "memset_words (dst + n) val h (paint m dst h (\<lambda>_. val))
      = Some (w, paint (paint m dst h (\<lambda>_. val)) h w
          (\<lambda>x. if (unat x - unat h) mod 8 = 0 then val else 0))"
    "unat w = unat h + 8 * ((unat (dst + n) - unat h - 1) div 8)" "unat w \<le> unat (dst + n)"
    using memset_words_run [of h "dst + n" val "paint m dst h (\<lambda>_. val)"] h(3) e assms by auto
  have "paint (paint (paint m dst h (\<lambda>_. val)) h w
          (\<lambda>x. if (unat x - unat h) mod 8 = 0 then val else 0)) w (dst + n) (\<lambda>_. val)
      = paint m dst (dst + n) (stripe h w val)"
    using h w by (auto simp: paint_def fun_eq_iff stripe_def)
  then have "memset m dst val n = Some (paint m dst (dst + n) (stripe h w val))"
    using memset_tail_run [OF w(3)] by (simp add: memset_def h(1) w(1))
  from that [OF this h(2) h0 w(2) [unfolded e]] show ?thesis .
qed

lemma memset_zero:
  assumes "unat dst + unat n + 8 < 2 ^ 64"
  shows "memset m dst 0 n = Some (paint m dst (dst + n) (\<lambda>_. 0))"
proof -
  obtain h w where "memset m dst 0 n = Some (paint m dst (dst + n) (stripe h w 0))"
    by (rule memset_run [OF assms, of m 0])
  then show ?thesis by simp
qed

subsection \<open>memcpy\<close>

text \<open>
  Where a copy is safe: no wrap-around, and the regions are disjoint or the destination does not
  start after the source.
\<close>

definition copy_ok :: "u64 \<Rightarrow> u64 \<Rightarrow> nat \<Rightarrow> bool" where
  "copy_ok dst src n \<longleftrightarrow> unat dst + n + 8 < 2 ^ 64 \<and> unat src + n \<le> 2 ^ 64 \<and>
     (unat dst \<le> unat src \<or> unat src + n \<le> unat dst)"

abbreviation copied :: "mem \<Rightarrow> u64 \<Rightarrow> u64 \<Rightarrow> u64 \<Rightarrow> mem" where
  "copied m dst src d \<equiv> paint m dst d (\<lambda>x. m (src + (x - dst)))"

lemma copied_src:
  assumes "copy_ok dst src n" and "unat dst \<le> unat y" and "unat d \<le> unat y"
    and "unat y < unat dst + n"
  shows "copied m dst src d (src + (y - dst)) = m (src + (y - dst))"
proof -
  have "unat (src + (y - dst)) = unat src + (unat y - unat dst)"
    using assms unat_diff_le [of dst y]
    by (subst unat_add_lem [THEN iffD1]) (auto simp: copy_ok_def)
  then show ?thesis using assms by (intro paint_out) (auto simp: copy_ok_def)
qed

lemma copied_step:
  assumes "copy_ok dst src n" and "unat dst \<le> unat d" and "unat d < unat dst + n"
  shows "(copied m dst src d)(d := copied m dst src d (src + (d - dst))) = copied m dst src (d + 1)"
proof -
  have d1: "unat (d + 1) = unat d + 1"
    using assms unat_add_of_nat [of d 1] by (simp add: copy_ok_def)
  show ?thesis
    unfolding copied_src [OF assms(1,2) order_refl assms(3)]
  proof (rule ext)
    fix x
    show "((copied m dst src d)(d := m (src + (d - dst)))) x = copied m dst src (d + 1) x"
    proof (cases "x = d")
      case True
      then show ?thesis using assms(2) d1 by simp
    next
      case False
      then have "unat x \<noteq> unat d" by (simp add: word_unat_eq_iff)
      then show ?thesis using d1 False by (auto simp: paint_def)
    qed
  qed
qed

lemma store64_load64_paint:
  fixes d s :: u64
  assumes "unat d + 8 < 2 ^ 64"
  shows "store64 m d (load64 m s) = paint m d (d + 8) (\<lambda>x. m (s + (x - d)))"
proof -
  have b: "bytes_of 8 (load64 m s) = load_bytes m s 8"
    by (simp add: load64_def bytes_of_word_of_bytes)
  have "store64 m d (load64 m s) = paint m d (d + 8) (\<lambda>x. load_bytes m s 8 ! unat (x - d))"
    using store_bytes_paint [of d "load_bytes m s 8" m] assms by (simp add: store64_def b)
  also have "\<dots> = paint m d (d + 8) (\<lambda>x. m (s + (x - d)))"
    using unat_add_8 [OF assms] by (intro paint_cong) (simp add: unat_diff_le)
  finally show ?thesis .
qed

lemma copied_step8:
  assumes ok: "copy_ok dst src n" and "unat dst \<le> unat d" and "unat d + 8 \<le> unat dst + n"
  shows "store64 (copied m dst src d) d (load64 (copied m dst src d) (src + (d - dst)))
      = copied m dst src (d + 8)"
proof -
  have d8: "unat d + 8 < 2 ^ 64" using assms by (simp add: copy_ok_def)
  note u8 = unat_add_8 [OF d8]
  have "store64 (copied m dst src d) d (load64 (copied m dst src d) (src + (d - dst)))
      = paint (copied m dst src d) d (d + 8)
          (\<lambda>x. copied m dst src d (src + (d - dst) + (x - d)))"
    by (rule store64_load64_paint [OF d8])
  also have "\<dots> = paint (copied m dst src d) d (d + 8) (\<lambda>x. m (src + (x - dst)))"
  proof (rule paint_cong)
    fix x :: u64
    assume "unat d \<le> unat x" "unat x < unat (d + 8)"
    then have "copied m dst src d (src + (x - dst)) = m (src + (x - dst))"
      using assms u8 by (intro copied_src [OF ok]) auto
    then show "copied m dst src d (src + (d - dst) + (x - d)) = m (src + (x - dst))" by simp
  qed
  also have "\<dots> = copied m dst src (d + 8)"
    using assms(2) u8 by (intro paint_paint) simp_all
  finally show ?thesis .
qed

lemma memcpy_head_run:
  assumes "copy_ok dst src n" and "unat dst \<le> unat d" and "unat d \<le> unat e"
    and "unat e = unat dst + n"
  shows "\<exists>h. memcpy_head e d (src + (d - dst)) (copied m dst src d)
      = Some (h, src + (h - dst), copied m dst src h) \<and> unat d \<le> unat h \<and> unat h \<le> unat e"
  using assms
proof (induction "unat e - unat d" arbitrary: d)
  case 0
  then have "d = e" by (simp add: word_unat_eq_iff)
  then show ?case by (simp add: memcpy_head.simps)
next
  case (Suc k)
  let ?m = "copied m dst src d"
  show ?case
  proof (cases "d mod 8 \<noteq> 0 \<and> d < e")
    case True
    then have d1: "unat (d + 1) = unat d + 1" by (blast intro: unat_succ_less)
    have step: "?m(d := ?m (src + (d - dst))) = copied m dst src (d + 1)"
      using Suc.prems Suc.hyps(2) by (intro copied_step) auto
    have src1: "src + (d - dst) + 1 = src + (d + 1 - dst)" by simp
    have "k = unat e - unat (d + 1)" "unat dst \<le> unat (d + 1)" "unat (d + 1) \<le> unat e"
      using Suc.hyps(2) Suc.prems d1 by linarith+
    from Suc.hyps(1) [OF this(1) Suc.prems(1) this(2,3) Suc.prems(4)] obtain h where h:
      "memcpy_head e (d + 1) (src + (d + 1 - dst)) (copied m dst src (d + 1))
         = Some (h, src + (h - dst), copied m dst src h)"
      "unat (d + 1) \<le> unat h" "unat h \<le> unat e" by (elim exE conjE)
    have "memcpy_head e d (src + (d - dst)) ?m = Some (h, src + (h - dst), copied m dst src h)"
      unfolding h(1) [symmetric] step [symmetric] src1 [symmetric]
      by (subst memcpy_head.simps) (rule if_P [OF True])
    then show ?thesis using h d1 by (intro exI [of _ h]) simp
  next
    case False
    have "memcpy_head e d (src + (d - dst)) ?m = Some (d, src + (d - dst), ?m)"
      by (subst memcpy_head.simps) (rule if_not_P [OF False])
    then show ?thesis using Suc.prems by (intro exI [of _ d] conjI) simp_all
  qed
qed

lemma memcpy_words_run:
  assumes "copy_ok dst src n" and "unat dst \<le> unat d" and "unat d \<le> unat e"
    and "unat e = unat dst + n"
  shows "\<exists>w. memcpy_words e d (src + (d - dst)) (copied m dst src d)
      = Some (w, src + (w - dst), copied m dst src w) \<and> unat d \<le> unat w \<and> unat w \<le> unat e"
  using assms
proof (induction "unat e - unat d" arbitrary: d rule: less_induct)
  case less
  let ?m = "copied m dst src d"
  show ?case
  proof (cases "d + 8 < e")
    case True
    have "unat d + 8 < 2 ^ 64" using less.prems by (simp add: copy_ok_def)
    note d8 = unat_add_8 [OF this]
    have step: "store64 ?m d (load64 ?m (src + (d - dst))) = copied m dst src (d + 8)"
      using less.prems True d8 by (intro copied_step8) (auto simp: word_less_nat_alt)
    have src8: "src + (d - dst) + 8 = src + (d + 8 - dst)" by simp
    have "unat e - unat (d + 8) < unat e - unat d" "unat dst \<le> unat (d + 8)"
      "unat (d + 8) \<le> unat e"
      using True d8 less.prems by (auto simp: word_less_nat_alt)
    from less.hyps [OF this(1) less.prems(1) this(2,3) less.prems(4)] obtain w where w:
      "memcpy_words e (d + 8) (src + (d + 8 - dst)) (copied m dst src (d + 8))
         = Some (w, src + (w - dst), copied m dst src w)"
      "unat (d + 8) \<le> unat w" "unat w \<le> unat e" by (elim exE conjE)
    have "memcpy_words e d (src + (d - dst)) ?m = Some (w, src + (w - dst), copied m dst src w)"
      unfolding w(1) [symmetric] step [symmetric] src8 [symmetric]
      by (subst memcpy_words.simps) (rule if_P [OF True])
    then show ?thesis using w d8 by (intro exI [of _ w]) simp
  next
    case False
    have "memcpy_words e d (src + (d - dst)) ?m = Some (d, src + (d - dst), ?m)"
      by (subst memcpy_words.simps) (rule if_not_P [OF False])
    then show ?thesis using less.prems by (intro exI [of _ d] conjI) simp_all
  qed
qed

lemma memcpy_tail_run:
  assumes "copy_ok dst src n" and "unat dst \<le> unat d" and "unat d \<le> unat e"
    and "unat e = unat dst + n"
  shows "memcpy_tail e d (src + (d - dst)) (copied m dst src d) = Some (copied m dst src e)"
  using assms
proof (induction "unat e - unat d" arbitrary: d)
  case 0
  then have "d = e" by (simp add: word_unat_eq_iff)
  then show ?case by (simp add: memcpy_tail.simps)
next
  case (Suc k)
  let ?m = "copied m dst src d"
  have lt: "d < e" using Suc.hyps(2) by (simp add: word_less_nat_alt)
  then have d1: "unat (d + 1) = unat d + 1" by (rule unat_succ_less)
  have step: "?m(d := ?m (src + (d - dst))) = copied m dst src (d + 1)"
    using Suc.prems Suc.hyps(2) by (intro copied_step) auto
  have src1: "src + (d - dst) + 1 = src + (d + 1 - dst)" by simp
  have "k = unat e - unat (d + 1)" "unat dst \<le> unat (d + 1)" "unat (d + 1) \<le> unat e"
    using Suc.hyps(2) Suc.prems d1 by linarith+
  note h = Suc.hyps(1) [OF this(1) Suc.prems(1) this(2,3) Suc.prems(4)]
  show ?case
    unfolding h [symmetric] step [symmetric] src1 [symmetric]
    by (subst memcpy_tail.simps) (rule if_P [OF lt])
qed

lemma memcpy_run:
  assumes ok: "copy_ok dst src (unat n)"
  shows "memcpy m dst src n = Some (copied m dst src (dst + n))"
proof -
  have e: "unat (dst + n) = unat dst + unat n"
    using ok by (subst unat_add_lem [symmetric]) (simp add: copy_ok_def)
  then have "unat dst \<le> unat (dst + n)" by simp
  from memcpy_head_run [OF ok order_refl this e] obtain h where h:
    "memcpy_head (dst + n) dst src m = Some (h, src + (h - dst), copied m dst src h)"
    "unat dst \<le> unat h" "unat h \<le> unat (dst + n)" by auto
  from memcpy_words_run [OF ok h(2,3) e, of m] obtain w where w:
    "memcpy_words (dst + n) h (src + (h - dst)) (copied m dst src h)
       = Some (w, src + (w - dst), copied m dst src w)"
    "unat h \<le> unat w" "unat w \<le> unat (dst + n)" by (elim exE conjE)
  have "unat dst \<le> unat w" using h w by linarith
  from memcpy_tail_run [OF ok this w(3) e] show ?thesis
    by (simp add: memcpy_def h(1) w(1))
qed

subsection \<open>memcmp, strncmp and strncpy\<close>

lemma memcmp_loop_0_iff: "memcmp_loop k b1 b2 i = 0 \<longleftrightarrow> (\<forall>j < k. b1 (i + j) = b2 (i + j))"
proof (induction k arbitrary: i)
  case 0
  then show ?case by simp
next
  case (Suc k)
  show ?case using Suc.IH [of "Suc i"] by (auto simp: less_Suc_eq_0_disj)
qed

lemma memcmp_loop_range: "memcmp_loop k b1 b2 i \<in> {0, 1}"
  by (induction k arbitrary: i) auto

lemma memcmp_0_iff: "memcmp b1 b2 n = 0 \<longleftrightarrow> (\<forall>j < unat n. b1 j = b2 j)"
  by (simp add: memcmp_def memcmp_loop_0_iff)

lemma memcmp_range: "memcmp b1 b2 n = 0 \<or> memcmp b1 b2 n = 1"
  using memcmp_loop_range [of "unat n" b1 b2 0] by (simp add: memcmp_def)

lemma uint_eq_iff_u8: "uint a = uint b \<longleftrightarrow> a = b" for a b :: u8
  by (simp add: word_uint_eq_iff)

lemma strncmp_loop_0_iff: "strncmp_loop n s1 s2 = 0 \<longleftrightarrow> cstr n s1 = cstr n s2"
proof (induction n arbitrary: s1 s2)
  case 0
  then show ?case by simp
next
  case (Suc n)
  show ?case
    using Suc.IH [of "\<lambda>i. s1 (Suc i)" "\<lambda>i. s2 (Suc i)"] uint_eq_iff_u8 [of "s1 0" "s2 0"]
    by auto
qed

lemma strncmp_0_iff: "strncmp s1 s2 n = 0 \<longleftrightarrow> cstr (unat n) s1 = cstr (unat n) s2"
  by (simp add: strncmp_def strncmp_loop_0_iff)

text \<open>What \<open>strncpy\<close> copies: the C string at the source, within \<open>sz\<close> bytes.\<close>

lemma strncpy_loop_run:
  assumes "unat dst + k < 2 ^ 64" and "unat src + k \<le> 2 ^ 64"
    and "unat dst + k \<le> unat src \<or> unat src + k \<le> unat dst"
  shows "strncpy_loop k m dst src c =
    (c + of_nat (length (cstr k (at m src))), store_bytes m dst (cstr k (at m src)))"
  using assms
proof (induction k arbitrary: m dst src c)
  case 0
  then show ?case by simp
next
  case (Suc k)
  have shift: "(\<lambda>i. at m src (Suc i)) = at m (src + 1)"
    by (simp add: at_def fun_eq_iff add.assoc)
  show ?case
  proof (cases "m src = 0")
    case True
    then show ?thesis by (simp add: at_def)
  next
    case False
    let ?m = "m(dst := m src)"
    have d1: "unat (dst + 1) = unat dst + 1" and s1: "k \<noteq> 0 \<Longrightarrow> unat (src + 1) = unat src + 1"
      using Suc.prems unat_add_of_nat [of dst 1] unat_add_of_nat [of src 1] by auto
    have IH: "strncpy_loop k ?m (dst + 1) (src + 1) (c + 1) =
        (c + 1 + of_nat (length (cstr k (at ?m (src + 1)))),
         store_bytes ?m (dst + 1) (cstr k (at ?m (src + 1))))"
    proof (cases "k = 0")
      case True
      then show ?thesis by simp
    next
      case F: False
      show ?thesis using Suc.prems d1 s1 [OF F] by (intro Suc.IH) auto
    qed
    have "cstr k (at ?m (src + 1)) = cstr k (at m (src + 1))"
    proof (rule cstr_cong)
      fix i
      assume i: "i < k"
      then have "unat (src + 1 + of_nat i) = unat src + 1 + i"
        using Suc.prems s1 by (subst unat_add_of_nat) auto
      then have "unat (src + 1 + of_nat i) \<noteq> unat dst" using Suc.prems i by linarith
      then have "src + 1 + of_nat i \<noteq> dst" by auto
      then show "at ?m (src + 1) i = at m (src + 1) i" by (simp add: at_def)
    qed
    moreover have "at m src 0 = m src" by (simp add: at_def)
    ultimately show ?thesis
      using False IH by (simp add: shift add.assoc)
  qed
qed

lemma memset_clear:
  assumes "unat dst + unat n + 8 < 2 ^ 64"
  shows "\<exists>m'. memset m dst 0 n = Some m' \<and> m' = (\<lambda>x. if x \<in> span dst (unat n) then 0 else m x)"
proof -
  have "unat (dst + n) = unat dst + unat n"
    using assms by (subst unat_add_lem [symmetric]) simp
  then have "paint m dst (dst + n) (\<lambda>_. 0) = (\<lambda>x. if x \<in> span dst (unat n) then 0 else m x)"
    using assms by (auto simp: paint_def span_iff fun_eq_iff)
  then show ?thesis by (simp add: memset_zero [OF assms])
qed

lemma memcpy_copy:
  assumes "copy_ok dst src (unat n)"
  shows "\<exists>m'. memcpy m dst src n = Some m' \<and>
    m' = (\<lambda>x. if x \<in> span dst (unat n) then m (src + (x - dst)) else m x)"
proof -
  have "unat (dst + n) = unat dst + unat n"
    using assms by (subst unat_add_lem [symmetric]) (simp add: copy_ok_def)
  then have "copied m dst src (dst + n)
      = (\<lambda>x. if x \<in> span dst (unat n) then m (src + (x - dst)) else m x)"
    using assms by (auto simp: paint_def span_iff fun_eq_iff copy_ok_def)
  then show ?thesis by (simp add: memcpy_run [OF assms])
qed

section \<open>Properties\<close>

text \<open>C26. Clearing memory works at every alignment and size: \<open>memset\<close> with the value 0
  returns, every byte of the region is 0 and every other byte is as before.\<close>

theorem memset_clears:
  assumes "unat dst + unat n + 8 < 2 ^ 64"
  shows "\<exists>m'. memset m dst 0 n = Some m' \<and> m' = (\<lambda>x. if x \<in> span dst (unat n) then 0 else m x)"
  by (rule memset_clear [OF assms])

theorem memset_clears_witness:
  "\<exists>m'. memset (\<lambda>_. 7) 0x20003 0 21 = Some m' \<and>
     m' = (\<lambda>x. if x \<in> span 0x20003 (unat (21 :: u64)) then 0 else 7)"
  by (rule memset_clears) simp

text \<open>C28. What \<open>memset\<close> does with another value: from an aligned address, the 64-bit stores
  leave the value in the first byte of each group of eight and 0 in the other seven; only the
  last 1 to 8 bytes are filled.\<close>

theorem memset_stripes:
  assumes "unat dst + unat n + 8 < 2 ^ 64" and "dst mod 8 = 0" and "i < unat n"
  shows "\<exists>m'. memset m dst val n = Some m' \<and>
    m' (dst + of_nat i) = (if i < 8 * ((unat n - 1) div 8) \<and> i mod 8 \<noteq> 0 then 0 else val)"
proof -
  obtain h w where m': "memset m dst val n = Some (paint m dst (dst + n) (stripe h w val))"
    "h = dst" "unat w = unat h + 8 * ((unat dst + unat n - unat h - 1) div 8)"
    by (rule memset_run [OF assms(1), of m val]) (use assms(2) in blast)
  have "unat (dst + n) = unat dst + unat n"
    using assms by (subst unat_add_lem [symmetric]) simp
  moreover have "unat (dst + of_nat i) = unat dst + i"
    using assms by (intro unat_add_of_nat) simp
  ultimately show ?thesis
    using m' assms(3) by (simp add: stripe_def)
qed

theorem memset_stripes_witness:
  "\<exists>m'. memset (\<lambda>_. 0) 0x1000 0xFF 24 = Some m' \<and> m' (0x1000 + of_nat 3) = 0"
  using memset_stripes [of "0x1000" 24 3 "\<lambda>_. 0" "0xFF"] by simp

text \<open>C27. \<open>memcpy\<close> copies: it returns, the destination holds the bytes the source held before
  the call, and nothing else changes. This covers overlapping regions whose destination does not
  start after the source.\<close>

theorem memcpy_copies:
  assumes "copy_ok dst src (unat n)"
  shows "\<exists>m'. memcpy m dst src n = Some m' \<and>
    m' = (\<lambda>x. if x \<in> span dst (unat n) then m (src + (x - dst)) else m x)"
  by (rule memcpy_copy [OF assms])

theorem memcpy_copies_witness:
  "\<exists>m'. memcpy (\<lambda>x. ucast x) 0x1003 0x1005 40 = Some m' \<and>
     m' = (\<lambda>x. if x \<in> span 0x1003 (unat (40 :: u64)) then ucast (0x1005 + (x - 0x1003)) else ucast x)"
  by (rule memcpy_copies) (simp add: copy_ok_def)

text \<open>C29. \<open>memcmp\<close> returns 0 or 1, and 0 exactly when the two regions hold the same bytes.\<close>

theorem memcmp_decides_equality:
  "memcmp s1 s2 n \<in> {0, 1} \<and>
   (memcmp s1 s2 n = 0 \<longleftrightarrow> map s1 [0..<unat n] = map s2 [0..<unat n])"
  using memcmp_range [of s1 s2 n] by (auto simp: memcmp_0_iff)

text \<open>\<open>strncmp\<close> returns 0 exactly when the two C strings agree within the first \<open>n\<close>
  bytes.\<close>

lemma strncmp_decides_equality:
  "strncmp s1 s2 n = 0 \<longleftrightarrow> cstr (unat n) s1 = cstr (unat n) s2"
  by (rule strncmp_0_iff)

end
