(* ===== verification/Machine.thy ===== *)
theory Machine
  imports Mem
begin

text \<open>
  The machine the boot loader runs on, as far as its C code can tell: the memory, the global
  variables of the C files, and the history of port accesses and privileged instructions. The
  port functions of \<open>src/ports.c\<close> append to the history.

  The devices behind the ports are not part of the program. A device environment is a parameter
  \<open>D\<close>: the value on the bus when a port is read, as a function of the whole history (newest
  event first) and the port. What the code relies on is stated where it is used.
\<close>

datatype io_event =
    In8 u16 u8 | In16 u16 u16 | In32 u16 u32
  | Out8 u16 u8 | Out16 u16 u16 | Out32 u16 u32
  | Hlt | LoadCR3 u64 | Lidt u16 u64

type_synonym history = "io_event list"
type_synonym device = "history \<Rightarrow> u16 \<Rightarrow> u32"

record machine =
  mem :: mem
  column_counter :: u64
  foreground :: u32
  background :: u32
  pt_it :: u64
  cr3 :: u64
  trace :: history

abbreviation event :: "io_event \<Rightarrow> machine \<Rightarrow> machine" where
  "event e s \<equiv> s\<lparr>trace := e # trace s\<rparr>"

section \<open>Port accesses (\<open>src/ports.c\<close>)\<close>

definition io_in8 :: "device \<Rightarrow> u16 \<Rightarrow> machine \<Rightarrow> u8 \<times> machine" where
  "io_in8 D port s = (let result = ucast (D (trace s) port) in (result, event (In8 port result) s))"

definition io_in16 :: "device \<Rightarrow> u16 \<Rightarrow> machine \<Rightarrow> u16 \<times> machine" where
  "io_in16 D port s = (let result = ucast (D (trace s) port) in (result, event (In16 port result) s))"

definition io_int32 :: "device \<Rightarrow> u16 \<Rightarrow> machine \<Rightarrow> u32 \<times> machine" where
  "io_int32 D port s = (let result = D (trace s) port in (result, event (In32 port result) s))"

definition io_out8 :: "u16 \<Rightarrow> u8 \<Rightarrow> machine \<Rightarrow> machine" where
  "io_out8 port data s = event (Out8 port data) s"

definition io_out16 :: "u16 \<Rightarrow> u16 \<Rightarrow> machine \<Rightarrow> machine" where
  "io_out16 port data s = event (Out16 port data) s"

definition io_out32 :: "u16 \<Rightarrow> u32 \<Rightarrow> machine \<Rightarrow> machine" where
  "io_out32 port value s = event (Out32 port value) s"

text \<open>The instruction \<open>hlt\<close>.\<close>

definition hlt :: "machine \<Rightarrow> machine" where
  "hlt s = event Hlt s"

section \<open>Busy-waiting on a status port\<close>

text \<open>
  The three waiting loops of the program have the shape \<open>while (!ok(io_in8(port)));\<close>.
\<close>

partial_function (option) poll :: "device \<Rightarrow> u16 \<Rightarrow> (u8 \<Rightarrow> bool) \<Rightarrow> machine \<Rightarrow> machine option" where
  "poll D port ok s =
     (if ok (fst (io_in8 D port s)) then Some (snd (io_in8 D port s))
      else poll D port ok (snd (io_in8 D port s)))"

text \<open>
  The history after \<open>k\<close> reads of a status port, and whether the device ever answers what the
  loop waits for.
\<close>

definition status :: "device \<Rightarrow> u16 \<Rightarrow> history \<Rightarrow> u8" where
  "status D port h = ucast (D h port)"

primrec polls :: "device \<Rightarrow> u16 \<Rightarrow> nat \<Rightarrow> history \<Rightarrow> history" where
  "polls D port 0 h = h"
| "polls D port (Suc k) h = polls D port k (In8 port (status D port h) # h)"

definition answers :: "device \<Rightarrow> u16 \<Rightarrow> (u8 \<Rightarrow> bool) \<Rightarrow> history \<Rightarrow> bool" where
  "answers D port ok h \<longleftrightarrow> (\<exists>k. ok (status D port (polls D port k h)))"

lemma io_in8_status:
  "io_in8 D port s = (status D port (trace s), event (In8 port (status D port (trace s))) s)"
  by (simp add: io_in8_def status_def Let_def)

lemma polls_suffix: "\<exists>es. polls D port k h = es @ h \<and> (\<forall>e \<in> set es. \<exists>v. e = In8 port v)"
proof (induction k arbitrary: h)
  case 0
  then show ?case by simp
next
  case (Suc k)
  obtain es where "polls D port k (In8 port (status D port h) # h)
      = es @ In8 port (status D port h) # h" "\<forall>e \<in> set es. \<exists>v. e = In8 port v"
    using Suc by blast
  then show ?case by (intro exI [of _ "es @ [In8 port (status D port h)]"]) auto
qed

lemma poll_step:
  "poll D port ok s =
     (if ok (status D port (trace s)) then Some (event (In8 port (status D port (trace s))) s)
      else poll D port ok (event (In8 port (status D port (trace s))) s))"
  by (subst poll.simps) (simp add: io_in8_status)

lemma polls_Suc: "polls D port (Suc k) h = In8 port (status D port (polls D port k h)) # polls D port k h"
  by (induction k arbitrary: h) simp_all

text \<open>
  The loop makes the reads up to the first one whose answer it waits for: after \<open>k\<close> reads in vain
  and that one it returns, and otherwise it does not.
\<close>

definition first_answer :: "device \<Rightarrow> u16 \<Rightarrow> (u8 \<Rightarrow> bool) \<Rightarrow> history \<Rightarrow> nat \<Rightarrow> bool" where
  "first_answer D port ok h k \<longleftrightarrow>
     ok (status D port (polls D port k h)) \<and> (\<forall>j < k. \<not> ok (status D port (polls D port j h)))"

lemma answers_first: "answers D port ok h \<longleftrightarrow> (\<exists>k. first_answer D port ok h k)"
  unfolding answers_def first_answer_def using exists_least_iff [of "\<lambda>k. ok (status D port (polls D port k h))"] by blast

lemma first_answer_Suc:
  "first_answer D port ok h (Suc k) \<longleftrightarrow>
     \<not> ok (status D port h) \<and> first_answer D port ok (In8 port (status D port h) # h) k"
  by (auto simp: first_answer_def less_Suc_eq_0_disj)

lemma poll_first:
  "first_answer D port ok (trace s) k \<Longrightarrow> poll D port ok s = Some (s\<lparr>trace := polls D port (Suc k) (trace s)\<rparr>)"
proof (induction k arbitrary: s)
  case 0
  then show ?case by (simp add: poll_step first_answer_def)
next
  case (Suc k)
  then show ?case using Suc.IH [of "event (In8 port (status D port (trace s))) s"]
    by (simp add: first_answer_Suc poll_step [of D port ok s])
qed

lemma poll_Some_answers: "poll D port ok s = Some s' \<Longrightarrow> answers D port ok (trace s)"
proof (erule poll.raw_induct [where P = "\<lambda>D port ok s s'. answers D port ok (trace s)", rotated])
  fix f :: "device \<Rightarrow> u16 \<Rightarrow> (u8 \<Rightarrow> bool) \<Rightarrow> machine \<Rightarrow> machine option"
  fix D port ok s s'
  assume IH: "\<And>D port ok s s'. f D port ok s = Some s' \<Longrightarrow> answers D port ok (trace s)"
    and eq: "(if ok (fst (io_in8 D port s)) then Some (snd (io_in8 D port s))
         else f D port ok (snd (io_in8 D port s))) = Some s'"
  show "answers D port ok (trace s)"
  proof (cases "ok (status D port (trace s))")
    case True
    then show ?thesis unfolding answers_def by (intro exI [of _ 0]) simp
  next
    case False
    then have "f D port ok (event (In8 port (status D port (trace s))) s) = Some s'"
      using eq by (simp add: io_in8_status)
    then obtain k where
      "ok (status D port (polls D port k (In8 port (status D port (trace s)) # trace s)))"
      using IH by (fastforce simp: answers_def)
    then show ?thesis unfolding answers_def by (intro exI [of _ "Suc k"]) simp
  qed
qed

lemma poll_Some_iff:
  "poll D port ok s = Some t \<longleftrightarrow>
     (\<exists>k. first_answer D port ok (trace s) k \<and> t = s\<lparr>trace := polls D port (Suc k) (trace s)\<rparr>)"
  using poll_Some_answers poll_first unfolding answers_first by fastforce

lemma poll_run:
  assumes "answers D port ok (trace s)"
  obtains es where "poll D port ok s = Some (s\<lparr>trace := es @ trace s\<rparr>)"
    and "\<forall>e \<in> set es. \<exists>v. e = In8 port v"
proof -
  obtain k where "poll D port ok s = Some (s\<lparr>trace := polls D port (Suc k) (trace s)\<rparr>)"
    using assms poll_first unfolding answers_first by blast
  moreover obtain es where "polls D port (Suc k) (trace s) = es @ trace s"
    "\<forall>e \<in> set es. \<exists>v. e = In8 port v"
    using polls_suffix by blast
  ultimately show ?thesis using that by metis
qed

end
