(* ===== verification/Serial.thy ===== *)
theory Serial
  imports Machine
begin

text \<open>
  The serial port COM1 (\<open>src/serial.c\<close>): initialisation with its loop-back test, and the
  transmission of one character.
\<close>

definition PORT :: u16 where
  "PORT = 0x3f8"

definition init_serial :: "device \<Rightarrow> machine \<Rightarrow> int \<times> machine" where
  "init_serial D s =
     (let s = io_out8 (PORT + 1) 0x00 s;
          s = io_out8 (PORT + 3) 0x80 s;
          s = io_out8 (PORT + 0) 0x03 s;
          s = io_out8 (PORT + 1) 0x00 s;
          s = io_out8 (PORT + 3) 0x03 s;
          s = io_out8 (PORT + 2) 0xC7 s;
          s = io_out8 (PORT + 4) 0x0B s;
          s = io_out8 (PORT + 4) 0x1E s;
          s = io_out8 (PORT + 0) 0xAE s;
          (v, s) = io_in8 D (PORT + 0) s
      in if v \<noteq> 0xAE then (1, s) else (0, io_out8 (PORT + 4) 0x0F s))"

text \<open>What \<open>is_transmit_empty\<close> tests of the line status it reads; \<open>poll\<close> does the read.\<close>

definition is_transmit_empty :: "u8 \<Rightarrow> bool" where
  "is_transmit_empty lsr \<longleftrightarrow> lsr AND 0x20 \<noteq> 0"

definition serial_write_char :: "device \<Rightarrow> u8 \<Rightarrow> machine \<Rightarrow> machine option" where
  "serial_write_char D a s = do {
     s \<leftarrow> poll D (PORT + 5) is_transmit_empty s;
     Some (io_out8 PORT a s) }"

text \<open>
  The bytes written to the transmit register, in order, and the events that transmission causes.
\<close>

fun transmitted :: "history \<Rightarrow> u8 list" where
  "transmitted [] = []"
| "transmitted (e # h) =
     transmitted h @ (case e of Out8 p v \<Rightarrow> if p = PORT then [v] else [] | _ \<Rightarrow> [])"

fun serial_event :: "io_event \<Rightarrow> bool" where
  "serial_event (In8 p v) \<longleftrightarrow> p = PORT + 5"
| "serial_event (Out8 p v) \<longleftrightarrow> p = PORT"
| "serial_event _ \<longleftrightarrow> False"

lemma transmitted_append: "transmitted (es @ h) = transmitted h @ transmitted es"
  by (induction es) simp_all

lemma transmitted_reads: "\<forall>e \<in> set es. \<exists>v. e = In8 p v \<Longrightarrow> transmitted es = []"
  by (induction es) auto

text \<open>
  The port is live when, whatever happened before, the transmit register becomes empty after
  finitely many reads of the line status.
\<close>

definition serial_live :: "device \<Rightarrow> bool" where
  "serial_live D \<longleftrightarrow> (\<forall>h. answers D (PORT + 5) is_transmit_empty h)"

lemma serial_write_char_run:
  assumes "serial_live D"
  obtains es where "serial_write_char D a s = Some (s\<lparr>trace := Out8 PORT a # es @ trace s\<rparr>)"
    and "\<forall>e \<in> set es. \<exists>v. e = In8 (PORT + 5) v"
proof -
  have "answers D (PORT + 5) is_transmit_empty (trace s)"
    using assms by (simp add: serial_live_def)
  then obtain es where es: "poll D (PORT + 5) is_transmit_empty s = Some (s\<lparr>trace := es @ trace s\<rparr>)"
    "\<forall>e \<in> set es. \<exists>v. e = In8 (PORT + 5) v"
    by (rule poll_run)
  then have "serial_write_char D a s = Some (s\<lparr>trace := Out8 PORT a # es @ trace s\<rparr>)"
    by (simp add: serial_write_char_def io_out8_def)
  from that [OF this es(2)] show ?thesis .
qed

text \<open>The reads of a polling loop as the list of the values read, oldest first.\<close>

lemma polls_reads: "polls D p k h = map (In8 p) (rev (map (\<lambda>i. status D p (polls D p i h)) [0..<k])) @ h"
  by (induction k) (simp_all add: polls_Suc del: polls.simps(2))

lemma reads_polls:
  assumes "\<And>i. i < length vs \<Longrightarrow> vs ! i = status D p (map (In8 p) (rev (take i vs)) @ h)"
  shows "vs = map (\<lambda>i. status D p (polls D p i h)) [0..<length vs]"
proof -
  have "i \<le> length vs \<Longrightarrow> polls D p i h = map (In8 p) (rev (take i vs)) @ h" for i
  proof (induction i)
    case (Suc i)
    then show ?case using assms [of i] by (simp add: polls_Suc take_Suc_conv_app_nth del: polls.simps(2))
  qed simp
  then show ?thesis using assms by (intro nth_equalityI) simp_all
qed

section \<open>Properties\<close>

text \<open>C30. Sending a character reads the line status at 0x3FD until bit 5, transmitter empty, is set:
  it returns exactly when some read finds the bit set, then with the reads up to the first such one
  and after them the character on port 0x3F8 added to the history, and nothing else changed. There is
  no time-out.\<close>

theorem serial_write_returns_iff:
  "serial_write_char D a s = Some t \<longleftrightarrow>
     (\<exists>lsr. lsr \<noteq> [] \<and> bit (last lsr) 5 \<and> (\<forall>v \<in> set (butlast lsr). \<not> bit v 5) \<and>
       (\<forall>i < length lsr. lsr ! i = ucast (D (map (In8 0x3FD) (rev (take i lsr)) @ trace s) 0x3FD)) \<and>
       t = s\<lparr>trace := Out8 0x3F8 a # map (In8 0x3FD) (rev lsr) @ trace s\<rparr>)"
proof -
  let ?h = "trace s" and ?x = "\<lambda>k. status D 0x3FD (polls D 0x3FD k (trace s))"
  have ok: "is_transmit_empty = (\<lambda>v. bit v 5)"
    by (simp add: fun_eq_iff is_transmit_empty_def bit_iff_and_push_bit_not_eq_0 push_bit_of_1)
  have run: "serial_write_char D a s = Some t \<longleftrightarrow>
      (\<exists>k. first_answer D 0x3FD (\<lambda>v. bit v 5) ?h k \<and> t = s\<lparr>trace := Out8 0x3F8 a # polls D 0x3FD (Suc k) ?h\<rparr>)"
    by (auto simp: serial_write_char_def PORT_def io_out8_def ok poll_Some_iff bind_eq_Some_conv)
  show ?thesis
    unfolding run
  proof (intro iffI; elim exE conjE)
    fix k
    assume k: "first_answer D 0x3FD (\<lambda>v. bit v 5) ?h k" "t = s\<lparr>trace := Out8 0x3F8 a # polls D 0x3FD (Suc k) ?h\<rparr>"
    show "\<exists>lsr. lsr \<noteq> [] \<and> bit (last lsr) 5 \<and> (\<forall>v \<in> set (butlast lsr). \<not> bit v 5) \<and>
       (\<forall>i < length lsr. lsr ! i = ucast (D (map (In8 0x3FD) (rev (take i lsr)) @ ?h) 0x3FD)) \<and>
       t = s\<lparr>trace := Out8 0x3F8 a # map (In8 0x3FD) (rev lsr) @ ?h\<rparr>"
    proof (intro exI conjI)
      let ?l = "map ?x [0..<Suc k]"
      show "?l \<noteq> []" "bit (last ?l) 5" using k(1) by (simp_all add: first_answer_def)
      show "\<forall>v \<in> set (butlast ?l). \<not> bit v 5" using k(1) by (simp add: first_answer_def)
      show "t = s\<lparr>trace := Out8 0x3F8 a # map (In8 0x3FD) (rev ?l) @ ?h\<rparr>" by (subst k(2), subst polls_reads) (rule refl)
      show "\<forall>i < length ?l. ?l ! i = ucast (D (map (In8 0x3FD) (rev (take i ?l)) @ ?h) 0x3FD)"
      proof (intro allI impI)
        fix i
        assume "i < length ?l"
        then have i: "i \<le> Suc k" "?l ! i = ?x i" by (simp_all del: upt_Suc)
        have "take i ?l = map ?x [0..<i]" using i(1) by (simp add: take_map del: upt_Suc)
        then have "polls D 0x3FD i ?h = map (In8 0x3FD) (rev (take i ?l)) @ ?h" by (subst polls_reads) simp
        then show "?l ! i = ucast (D (map (In8 0x3FD) (rev (take i ?l)) @ ?h) 0x3FD)"
          by (intro trans [OF i(2)]) (simp only: status_def)
      qed
    qed
  next
    fix lsr
    assume l: "lsr \<noteq> []" "bit (last lsr) 5" "\<forall>v \<in> set (butlast lsr). \<not> bit v 5"
      "\<forall>i < length lsr. lsr ! i = ucast (D (map (In8 0x3FD) (rev (take i lsr)) @ ?h) 0x3FD)"
      "t = s\<lparr>trace := Out8 0x3F8 a # map (In8 0x3FD) (rev lsr) @ ?h\<rparr>"
    have eq: "lsr = map ?x [0..<length lsr]" by (rule reads_polls) (use l(4) in \<open>simp add: status_def\<close>)
    obtain k where k: "length lsr = Suc k" using l(1) by (cases "length lsr") auto
    show "\<exists>k. first_answer D 0x3FD (\<lambda>v. bit v 5) ?h k \<and> t = s\<lparr>trace := Out8 0x3F8 a # polls D 0x3FD (Suc k) ?h\<rparr>"
    proof (intro exI conjI)
      have l': "lsr = map ?x [0..<Suc k]" using eq k by simp
      have "map (In8 0x3FD) (rev lsr) @ ?h = polls D 0x3FD (Suc k) ?h" unfolding l' by (rule polls_reads [symmetric])
      moreover have "bit (?x k) 5" "\<forall>j < k. \<not> bit (?x j) 5" using l(2,3) unfolding l' by simp_all
      ultimately show "first_answer D 0x3FD (\<lambda>v. bit v 5) ?h k" "t = s\<lparr>trace := Out8 0x3F8 a # polls D 0x3FD (Suc k) ?h\<rparr>"
        using l(5) by (simp_all only: first_answer_def)
    qed
  qed
qed

text \<open>A transmitter that is busy for two reads.\<close>

theorem serial_write_returns_iff_witness:
  "serial_write_char (\<lambda>h _. if length h < 2 then 0 else 0x60) 0x41
      \<lparr>mem = (\<lambda>_. 0), column_counter = 0, foreground = 0, background = 0, pt_it = 0, cr3 = 0, trace = []\<rparr>
    = Some \<lparr>mem = (\<lambda>_. 0), column_counter = 0, foreground = 0, background = 0, pt_it = 0, cr3 = 0,
        trace = [Out8 0x3F8 0x41, In8 0x3FD 0x60, In8 0x3FD 0, In8 0x3FD 0]\<rparr>"
proof (rule iffD2 [OF serial_write_returns_iff], intro exI [of _ "[0, 0, 0x60]"] conjI)
  have "bit (0x60 :: u8) 5" by (simp add: bit_iff_odd)
  then show "bit (last [0, 0, 0x60 :: u8]) 5" by simp
qed (auto simp: less_Suc_eq numeral_3_eq_3)

text \<open>The initialisation reports success exactly when the chip returns the test byte 0xAE in
  loop-back mode; on success the last write leaves loop-back mode, on failure the port stays in
  it.\<close>

lemma init_serial_loopback:
  "\<exists>h. (let echo = ucast (D h 0x3f8) :: u8 in
     init_serial D s = (if echo = 0xAE
       then (0, s\<lparr>trace := Out8 0x3fc 0x0F # In8 0x3f8 echo # h\<rparr>)
       else (1, s\<lparr>trace := In8 0x3f8 echo # h\<rparr>)) \<and>
     h = [Out8 0x3f8 0xAE, Out8 0x3fc 0x1E, Out8 0x3fc 0x0B, Out8 0x3fa 0xC7, Out8 0x3fb 0x03,
          Out8 0x3f9 0x00, Out8 0x3f8 0x03, Out8 0x3fb 0x80, Out8 0x3f9 0x00] @ trace s)"
  by (simp add: init_serial_def io_out8_def io_in8_def PORT_def Let_def)

end
