(* ===== verification/Vga.thy ===== *)
theory Vga
  imports Machine
begin

text \<open>
  The text screen (\<open>src/vga.c\<close>): 25 rows of 80 cells of two bytes at \<open>0xb8000\<close>, written
  at the bottom row, with the cursor column and the two colours as global variables.
\<close>

section \<open>Cells\<close>

record vga_char =
  character :: u8
  colour :: u8

definition vga_buffer :: u64 where
  "vga_buffer = 0xb8000"

abbreviation VGA_ROWS :: nat where "VGA_ROWS \<equiv> 25"
abbreviation VGA_COLS :: nat where "VGA_COLS \<equiv> 80"

text \<open>The address \<open>i\<close> bytes into the buffer, and the cell \<open>vga_buffer[k]\<close>, read and written.\<close>

definition vga_byte :: "nat \<Rightarrow> u64" where
  "vga_byte i = vga_buffer + of_nat i"

definition get_cell :: "mem \<Rightarrow> nat \<Rightarrow> vga_char" where
  "get_cell m k = \<lparr>character = m (vga_byte (2 * k)),
                   colour = m (vga_byte (2 * k + 1))\<rparr>"

definition put_cell :: "mem \<Rightarrow> nat \<Rightarrow> vga_char \<Rightarrow> mem" where
  "put_cell m k vc = m(vga_byte (2 * k) := character vc,
                       vga_byte (2 * k + 1) := colour vc)"

text \<open>The enumeration \<open>BiosColours\<close>, with the values of \<open>include/vga.h\<close>.\<close>

datatype bios_colours =
    BLACK | BLUE | GREEN | CYAN | RED | MAGENTA | BROWN | LIGHT_GRAY | DARK_GRAY | LIGHT_BLUE
  | LIGHT_GREEN | LIGHT_CYAN | LIGHT_RED | LIGHT_MAGENTA | YELLOW | WHITE

fun colour_value :: "bios_colours \<Rightarrow> u32" where
  "colour_value BLACK = 0x0"
| "colour_value BLUE = 0x1"
| "colour_value GREEN = 0x2"
| "colour_value CYAN = 0x3"
| "colour_value RED = 0x4"
| "colour_value MAGENTA = 0x5"
| "colour_value BROWN = 0x6"
| "colour_value LIGHT_GRAY = 0x7"
| "colour_value DARK_GRAY = 0x8"
| "colour_value LIGHT_BLUE = 0x9"
| "colour_value LIGHT_GREEN = 0x10"
| "colour_value LIGHT_CYAN = 0x11"
| "colour_value LIGHT_RED = 0x12"
| "colour_value LIGHT_MAGENTA = 0x13"
| "colour_value YELLOW = 0x14"
| "colour_value WHITE = 0x15"

text \<open>The enumerators compare as the integers they are in C.\<close>

lemma colour_value_inj: "colour_value c = colour_value d \<Longrightarrow> c = d"
  by (cases c; cases d) simp_all

instantiation bios_colours :: linorder
begin

definition less_eq_bios_colours :: "bios_colours \<Rightarrow> bios_colours \<Rightarrow> bool" where
  "less_eq_bios_colours c d \<longleftrightarrow> colour_value c \<le> colour_value d"

definition less_bios_colours :: "bios_colours \<Rightarrow> bios_colours \<Rightarrow> bool" where
  "less_bios_colours c d \<longleftrightarrow> colour_value c < colour_value d"

instance
  by standard (auto simp: less_eq_bios_colours_def less_bios_colours_def intro: colour_value_inj)

end

text \<open>The initial values of the global variables.\<close>

definition vga_init :: "machine \<Rightarrow> machine" where
  "vga_init s = s\<lparr>column_counter := 0, foreground := colour_value LIGHT_GRAY,
                  background := push_bit 4 (colour_value BLACK)\<rparr>"

section \<open>Operations\<close>

definition cell_of :: "u8 \<Rightarrow> machine \<Rightarrow> vga_char" where
  "cell_of c s = \<lparr>character = c, colour = ucast (foreground s OR background s)\<rparr>"

definition scroll_row :: "nat \<Rightarrow> mem \<Rightarrow> mem" where
  "scroll_row i m =
     fold (\<lambda>j m. put_cell m (VGA_COLS * (i - 1) + j) (get_cell m (VGA_COLS * i + j)))
       [0..<VGA_COLS] m"

definition newline :: "machine \<Rightarrow> machine" where
  "newline s =
     (let m = fold scroll_row [1..<VGA_ROWS] (mem s);
          blank = cell_of (of_char CHR '' '') s
      in s\<lparr>column_counter := 0,
           mem := fold (\<lambda>j m. put_cell m (VGA_COLS * 24 + j) blank) [0..<VGA_COLS] m\<rparr>)"

definition clear_screen :: "machine \<Rightarrow> machine" where
  "clear_screen s =
     (let blank = cell_of (of_char CHR '' '') s
      in s\<lparr>mem := fold (\<lambda>i. fold (\<lambda>j m. put_cell m (VGA_COLS * i + j) blank) [0..<VGA_COLS])
                   [0..<VGA_ROWS] (mem s)\<rparr>)"

definition set_foreground :: "bios_colours \<Rightarrow> machine \<Rightarrow> machine" where
  "set_foreground c s = s\<lparr>foreground := colour_value c AND 0xF0\<rparr>"

definition set_background :: "bios_colours \<Rightarrow> machine \<Rightarrow> machine" where
  "set_background c s = s\<lparr>background := push_bit 4 (colour_value c) AND 0x0F\<rparr>"

definition draw_char :: "u8 \<Rightarrow> machine \<Rightarrow> machine" where
  "draw_char c s =
     (if column_counter s \<ge> of_nat VGA_COLS then newline s
      else if c = of_char (CHR 0x0A) then newline s
      else if c = of_char (CHR 0x0D) then s\<lparr>column_counter := 0\<rparr>
      else s\<lparr>mem := put_cell (mem s) (VGA_COLS * 24 + unat (column_counter s)) (cell_of c s),
             column_counter := column_counter s + 1\<rparr>)"

section \<open>The cell store\<close>

definition on_screen :: "nat \<Rightarrow> bool" where
  "on_screen k \<longleftrightarrow> k < VGA_ROWS * VGA_COLS"

definition apart_cells :: "nat \<Rightarrow> nat \<Rightarrow> bool" where
  "apart_cells j k \<longleftrightarrow> on_screen j \<and> on_screen k \<and> j \<noteq> k"

lemma unat_vga_byte: "i < 4000 \<Longrightarrow> unat (vga_byte i) = 0xb8000 + i"
  unfolding vga_byte_def by (subst unat_add_of_nat) (simp_all add: vga_buffer_def)

lemma vga_byte_inj: "i < 4000 \<Longrightarrow> j < 4000 \<Longrightarrow> vga_byte i = vga_byte j \<longleftrightarrow> i = j"
  by (metis add_left_cancel unat_vga_byte)

lemma vga_byte_Suc: "vga_byte (Suc i) = vga_byte i + 1"
  by (simp add: vga_byte_def add.commute)

lemma get_put_cell: "get_cell (put_cell m k vc) k = vc"
  by (simp add: get_cell_def put_cell_def vga_byte_Suc)

lemma get_put_cell_apart:
  assumes "apart_cells j k"
  shows "get_cell (put_cell m j vc) k = get_cell m k"
proof -
  have "2 * j + 1 < 4000" "2 * k + 1 < 4000" "j \<noteq> k"
    using assms by (auto simp: apart_cells_def on_screen_def)
  then have "vga_byte (2 * k) \<noteq> vga_byte (2 * j)" "vga_byte (2 * k) \<noteq> vga_byte (2 * j + 1)"
    "vga_byte (2 * k + 1) \<noteq> vga_byte (2 * j)" "vga_byte (2 * k + 1) \<noteq> vga_byte (2 * j + 1)"
    by (simp_all add: vga_byte_inj)
  then show ?thesis by (simp add: get_cell_def put_cell_def)
qed

interpretation screen: cell_store get_cell put_cell apart_cells
  by unfold_locales (simp_all add: get_put_cell get_put_cell_apart)

definition vga_region :: "u64 set" where
  "vga_region = span vga_buffer 4000"

lemma put_cell_outside:
  assumes "on_screen k" and "a \<notin> vga_region"
  shows "put_cell m k vc a = m a"
proof -
  have "vga_byte i \<in> vga_region" if "i < 4000" for i
    using that by (simp add: vga_byte_def vga_region_def)
  then have "a \<noteq> vga_byte (2 * k)" "a \<noteq> vga_byte (2 * k + 1)"
    using assms by (auto simp: on_screen_def)
  then show ?thesis by (simp add: put_cell_def)
qed

lemma fold_put_cell_outside:
  assumes "\<And>j. j \<in> set is \<Longrightarrow> on_screen (f j)" and "a \<notin> vga_region"
  shows "fold (\<lambda>j m. put_cell m (f j) (g j m)) is m a = m a"
  using assms by (induction "is" arbitrary: m) (simp_all add: put_cell_outside)

section \<open>Scrolling\<close>

text \<open>The first \<open>n\<close> cells of row \<open>i\<close> have been moved up.\<close>

lemma scroll_prefix:
  assumes "1 \<le> i" and "i < VGA_ROWS" and "n \<le> VGA_COLS" and "on_screen k"
  shows "get_cell (fold (\<lambda>j m. put_cell m (VGA_COLS * (i - 1) + j) (get_cell m (VGA_COLS * i + j)))
      [0..<n] m) k
    = (if VGA_COLS * (i - 1) \<le> k \<and> k < VGA_COLS * (i - 1) + n then get_cell m (k + VGA_COLS)
       else get_cell m k)"
  using assms
proof (induction n arbitrary: k)
  case 0
  then show ?case by auto
next
  case (Suc n)
  let ?m = "fold (\<lambda>j m. put_cell m (VGA_COLS * (i - 1) + j) (get_cell m (VGA_COLS * i + j)))
      [0..<n] m"
  let ?t = "VGA_COLS * (i - 1) + n"
  have src: "get_cell ?m (VGA_COLS * i + n) = get_cell m (VGA_COLS * i + n)"
    using Suc.prems by (subst Suc.IH) (auto simp: on_screen_def)
  have idx: "VGA_COLS * i + n = ?t + VGA_COLS" using Suc.prems by (cases i) auto
  have scr: "on_screen ?t" using Suc.prems by (auto simp: on_screen_def)
  have "get_cell (put_cell ?m ?t (get_cell ?m (VGA_COLS * i + n))) k
      = (if k = ?t then get_cell m (k + VGA_COLS) else get_cell ?m k)"
  proof (cases "k = ?t")
    case True
    then show ?thesis by (simp only: screen.get_put idx src [unfolded idx] if_True refl)
  next
    case False
    then show ?thesis using Suc.prems scr
      by (simp add: screen.get_put_apart apart_cells_def)
  qed
  then show ?case using Suc by (auto simp: less_Suc_eq)
qed

lemma scroll_row_cell:
  assumes "1 \<le> i" and "i < VGA_ROWS" and "on_screen k"
  shows "get_cell (scroll_row i m) k
    = (if VGA_COLS * (i - 1) \<le> k \<and> k < VGA_COLS * i then get_cell m (k + VGA_COLS)
       else get_cell m k)"
proof -
  have "VGA_COLS * (i - 1) + VGA_COLS = VGA_COLS * i" using assms by (cases i) auto
  then show ?thesis unfolding scroll_row_def using scroll_prefix [of i VGA_COLS k m] assms by simp
qed

lemma scroll_rows_cell:
  assumes "1 \<le> n" and "n \<le> VGA_ROWS" and "on_screen k"
  shows "get_cell (fold scroll_row [1..<n] m) k
    = (if k < VGA_COLS * (n - 1) then get_cell m (k + VGA_COLS) else get_cell m k)"
  using assms
proof (induction n arbitrary: k rule: nat_induct_at_least)
  case base
  then show ?case by simp
next
  case (Suc n)
  have IH: "get_cell (fold scroll_row [1..<n] m) j
      = (if j < VGA_COLS * (n - 1) then get_cell m (j + VGA_COLS) else get_cell m j)"
    if "on_screen j" for j using Suc.IH that Suc.prems by simp
  have "get_cell (fold scroll_row [1..<Suc n] m) k
      = (if VGA_COLS * (n - 1) \<le> k \<and> k < VGA_COLS * n
         then get_cell (fold scroll_row [1..<n] m) (k + VGA_COLS)
         else get_cell (fold scroll_row [1..<n] m) k)"
    using Suc.hyps Suc.prems by (simp add: scroll_row_cell)
  also have "\<dots> = (if k < VGA_COLS * n then get_cell m (k + VGA_COLS) else get_cell m k)"
  proof (cases "VGA_COLS * (n - 1) \<le> k \<and> k < VGA_COLS * n")
    case True
    then have "on_screen (k + VGA_COLS)" "\<not> k + VGA_COLS < VGA_COLS * (n - 1)"
      using Suc.prems Suc.hyps by (auto simp: on_screen_def)
    then show ?thesis using True IH by simp
  next
    case False
    then show ?thesis using IH [OF Suc.prems(2)] Suc.hyps by (cases n) auto
  qed
  finally show ?case by simp
qed

lemma newline_cell:
  assumes "on_screen k"
  shows "get_cell (mem (newline s)) k
    = (if k < VGA_COLS * 24 then get_cell (mem s) (k + VGA_COLS) else cell_of (of_char CHR '' '') s)"
proof -
  let ?m = "fold scroll_row [1..<VGA_ROWS] (mem s)"
  let ?b = "cell_of (of_char CHR '' '') s"
  have m: "mem (newline s) = fold (\<lambda>j m. put_cell m (VGA_COLS * 24 + j) ?b) [0..<VGA_COLS] ?m"
    by (simp add: newline_def Let_def)
  show ?thesis
  proof (cases "k < VGA_COLS * 24")
    case True
    then have "get_cell (mem (newline s)) k = get_cell ?m k"
      unfolding m using assms
      by (intro screen.fill_apart) (auto simp: apart_cells_def on_screen_def)
    then show ?thesis using True scroll_rows_cell [of VGA_ROWS k "mem s"] assms by simp
  next
    case False
    then obtain j where j: "k = VGA_COLS * 24 + j" "j < VGA_COLS"
      using assms le_Suc_ex [of "VGA_COLS * 24" k] by (auto simp: on_screen_def)
    have "get_cell (mem (newline s)) (VGA_COLS * 24 + j) = ?b"
      unfolding m using j(2)
      by (intro screen.fill_get) (auto simp: apart_cells_def on_screen_def)
    then show ?thesis using False j by simp
  qed
qed

lemma scroll_rows_outside: "a \<notin> vga_region \<Longrightarrow> n \<le> VGA_ROWS \<Longrightarrow> fold scroll_row [1..<n] m a = m a"
proof (induction n)
  case (Suc n)
  show ?case
  proof (cases "n = 0")
    case False
    then have "fold scroll_row [1..<Suc n] m a = fold scroll_row [1..<n] m a"
      using Suc.prems
      by (auto simp: scroll_row_def on_screen_def intro!: fold_put_cell_outside)
    then show ?thesis using Suc by simp
  qed simp
qed simp

lemma newline_outside: "a \<notin> vga_region \<Longrightarrow> mem (newline s) a = mem s a"
  unfolding newline_def Let_def
  using fold_put_cell_outside [of "[0..<VGA_COLS]" "\<lambda>j. VGA_COLS * 24 + j" a]
    scroll_rows_outside [of a VGA_ROWS]
  by (simp add: on_screen_def)

lemma newline_frame [frame_simps]:
  "column_counter (newline s) = 0" "foreground (newline s) = foreground s"
  "background (newline s) = background s" "pt_it (newline s) = pt_it s"
  "cr3 (newline s) = cr3 s" "trace (newline s) = trace s"
  by (simp_all add: newline_def Let_def)

lemma draw_char_frame [frame_simps]:
  "foreground (draw_char c s) = foreground s" "background (draw_char c s) = background s"
  "pt_it (draw_char c s) = pt_it s" "cr3 (draw_char c s) = cr3 s"
  "trace (draw_char c s) = trace s"
  by (simp_all add: draw_char_def frame_simps)

lemma draw_char_outside:
  assumes "a \<notin> vga_region"
  shows "mem (draw_char c s) a = mem s a"
proof (cases "column_counter s \<ge> of_nat VGA_COLS")
  case True
  then show ?thesis using assms by (simp add: draw_char_def newline_outside)
next
  case False
  then have "on_screen (VGA_COLS * 24 + unat (column_counter s))"
    by (simp add: on_screen_def word_le_nat_alt)
  then show ?thesis using assms
    by (simp add: draw_char_def newline_outside put_cell_outside)
qed

lemma draw_char_column:
  assumes "unat (column_counter s) \<le> VGA_COLS"
  shows "unat (column_counter (draw_char c s)) \<le> VGA_COLS"
proof (cases "column_counter s \<ge> of_nat VGA_COLS")
  case True
  then show ?thesis by (simp add: draw_char_def frame_simps)
next
  case False
  then have "unat (column_counter s) < 80" by (simp add: word_le_nat_alt)
  then have "unat (column_counter s + 1) = unat (column_counter s) + 1"
    using unat_add_of_nat [of "column_counter s" 1] by simp
  then show ?thesis using \<open>unat (column_counter s) < 80\<close> by (simp add: draw_char_def frame_simps)
qed

text \<open>A concrete machine for the examples.\<close>

definition sample_state :: machine where
  "sample_state = vga_init \<lparr>mem = (\<lambda>x. ucast x), column_counter = 3, foreground = 0, background = 0,
     pt_it = 0x20000, cr3 = 0x1000, trace = []\<rparr>"

end
