(* ===== verification/Print.thy ===== *)
theory Print
  imports Serial Vga
begin

text \<open>
  Formatted output (\<open>src/print.c\<close>). Every character goes to the screen and to the serial
  port; strings, hexadecimal and decimal numbers and dumps are sequences of characters. Output
  returns only if the serial port becomes ready, so all of it is in the option monad.
\<close>

section \<open>Operations\<close>

definition putc :: "device \<Rightarrow> u8 \<Rightarrow> machine \<Rightarrow> machine option" where
  "putc D c s = serial_write_char D c (draw_char c s)"

partial_function (option) puts_from :: "device \<Rightarrow> view \<Rightarrow> nat \<Rightarrow> machine \<Rightarrow> machine option" where
  "puts_from D str i s =
     (if str i \<noteq> 0 then do { s \<leftarrow> putc D (str i) s; puts_from D str (Suc i) s } else Some s)"

definition puts :: "device \<Rightarrow> view \<Rightarrow> machine \<Rightarrow> machine option" where
  "puts D str s = puts_from D str 0 s"

text \<open>\<open>puts\<close> of a string literal, and of one that ends in a newline.\<close>

abbreviation putl :: "device \<Rightarrow> string \<Rightarrow> machine \<Rightarrow> machine option" where
  "putl D str \<equiv> puts D (lit (bytes str))"

abbreviation nl :: u8 where "nl \<equiv> of_char (CHR 0x0A)"

abbreviation putln :: "device \<Rightarrow> string \<Rightarrow> machine \<Rightarrow> machine option" where
  "putln D str \<equiv> puts D (lit (bytes str @ [nl]))"

definition hexdigits :: "u8 list" where
  "hexdigits = bytes ''0123456789ABCDEF''"

text \<open>The buffer that \<open>putx8\<close> to \<open>putx64\<close> fill, for \<open>n\<close> digits.\<close>

definition hex_buf :: "nat \<Rightarrow> u64 \<Rightarrow> u8 list" where
  "hex_buf n val =
     fold (\<lambda>i buf. buf[n - 1 - i := hexdigits ! unat (drop_bit (i * 4) val AND 0xF)])
       [0..<n] (replicate 20 0)"

definition putx8 :: "device \<Rightarrow> u8 \<Rightarrow> machine \<Rightarrow> machine option" where
  "putx8 D val s = puts D (lit (hex_buf 2 (ucast val))) s"

definition putx16 :: "device \<Rightarrow> u16 \<Rightarrow> machine \<Rightarrow> machine option" where
  "putx16 D val s = puts D (lit (hex_buf 4 (ucast val))) s"

definition putx32 :: "device \<Rightarrow> u32 \<Rightarrow> machine \<Rightarrow> machine option" where
  "putx32 D val s = puts D (lit (hex_buf 8 (ucast val))) s"

definition putx64 :: "device \<Rightarrow> u64 \<Rightarrow> machine \<Rightarrow> machine option" where
  "putx64 D val s = puts D (lit (hex_buf 16 val)) s"

text \<open>
  \<open>for(; val; val/=10) *--s = '0' + val%10;\<close> with the index of \<open>s\<close> in \<open>buf\<close>.
\<close>

function putd_loop :: "u64 \<Rightarrow> nat \<Rightarrow> u8 list \<Rightarrow> nat \<times> u8 list" where
  "putd_loop val i buf =
     (if val \<noteq> 0 then putd_loop (val div 10) (i - 1) (buf[i - 1 := ucast (of_char CHR ''0'' + val mod 10)])
      else (i, buf))"
  by pat_completeness auto
termination
proof (relation "measure (\<lambda>(val, i, buf). unat val)")
  fix val :: u64 and i :: nat and buf :: "u8 list"
  assume "val \<noteq> 0"
  then have "0 < unat val" by (simp add: unat_gt_0)
  then show "((val div 10, i - 1, buf[i - 1 := ucast (of_char CHR ''0'' + val mod 10)]), val, i, buf)
      \<in> measure (\<lambda>(val, i, buf). unat val)"
    by (simp add: unat_div)
qed simp

declare putd_loop.simps [simp del]

definition putd_buf :: "u64 \<Rightarrow> nat \<times> u8 list" where
  "putd_buf val =
     (let buf = (replicate 32 0)[30 := 0]
      in if val = 0 then (29, buf[29 := of_char CHR ''0'']) else putd_loop val 30 buf)"

definition putd :: "device \<Rightarrow> u64 \<Rightarrow> machine \<Rightarrow> machine option" where
  "putd D val s = (let (i, buf) = putd_buf val in puts D (lit (drop i buf)) s)"

text \<open>
  \<open>hexdump\<close>: the loop condition \<open>i <= size\<close> with an index of 64 bits, which always holds for the
  largest \<open>size\<close>.
\<close>

partial_function (option) hexdump_loop ::
    "device \<Rightarrow> view \<Rightarrow> u64 \<Rightarrow> u64 \<Rightarrow> machine \<Rightarrow> machine option" where
  "hexdump_loop D buf sz i s =
     (if i \<le> sz then do {
        s \<leftarrow> putx8 D (buf (unat (i - 1))) s;
        s \<leftarrow> (if i mod 32 = 0 then putc D nl s
             else if i mod 2 = 0 then putc D (of_char CHR '' '') s
             else Some s);
        hexdump_loop D buf sz (i + 1) s }
      else Some s)"

definition hexdump :: "device \<Rightarrow> view \<Rightarrow> u64 \<Rightarrow> machine \<Rightarrow> machine option" where
  "hexdump D buf sz s = hexdump_loop D buf sz 1 s"

section \<open>Output as a sequence of characters\<close>

primrec emit :: "('c \<Rightarrow> 's \<Rightarrow> 's option) \<Rightarrow> 'c list \<Rightarrow> 's \<Rightarrow> 's option" where
  "emit out [] s = Some s"
| "emit out (c # cs) s = Option.bind (out c s) (emit out cs)"

lemma emit_append: "emit out (xs @ ys) s = Option.bind (emit out xs s) (emit out ys)"
  by (induction xs arbitrary: s) (auto split: Option.bind_split)

text \<open>
  What printing relies on: while the device is live, each character is accepted, appears at the
  end of the text sent so far, and changes the state only as \<open>same\<close> allows.
\<close>

locale printer =
  fixes out :: "'d \<Rightarrow> 'c \<Rightarrow> 's \<Rightarrow> 's option"
    and live :: "'d \<Rightarrow> bool"
    and sent :: "'s \<Rightarrow> 'c list"
    and same :: "'s \<Rightarrow> 's \<Rightarrow> bool"
  assumes out_ok: "live d \<Longrightarrow> \<exists>s'. out d c s = Some s' \<and> same s s' \<and> sent s' = sent s @ [c]"
    and same_refl: "same s s"
    and same_trans: "same s t \<Longrightarrow> same t u \<Longrightarrow> same s u"
begin

lemma emit_ok:
  assumes "live d"
  shows "\<exists>s'. emit (out d) cs s = Some s' \<and> same s s' \<and> sent s' = sent s @ cs"
proof (induction cs arbitrary: s)
  case Nil
  then show ?case by (simp add: same_refl)
next
  case (Cons c cs)
  obtain t where t: "out d c s = Some t" "same s t" "sent t = sent s @ [c]"
    using out_ok [OF assms] by blast
  obtain u where u: "emit (out d) cs t = Some u" "same t u" "sent u = sent t @ cs"
    using Cons.IH by blast
  show ?case
    using t u same_trans [OF t(2) u(2)] by (intro exI [of _ u]) simp
qed

lemma emit_Some:
  assumes "live d" and "emit (out d) cs s = Some s'"
  shows "same s s'" and "sent s' = sent s @ cs"
  using emit_ok [OF assms(1), of cs s] assms(2) by auto

end

definition serial_same :: "machine \<Rightarrow> machine \<Rightarrow> bool" where
  "serial_same s s' \<longleftrightarrow>
     (\<exists>es. s' = s\<lparr>trace := es @ trace s\<rparr> \<and> (\<forall>e \<in> set es. serial_event e))"

lemma serial_same_trans: "serial_same s t \<Longrightarrow> serial_same t u \<Longrightarrow> serial_same s u"
  unfolding serial_same_def
  by (elim exE conjE) (rule_tac x = "esa @ es" in exI, auto)

interpretation serial: printer serial_write_char serial_live "\<lambda>s. transmitted (trace s)" serial_same
proof unfold_locales
  fix D c s
  assume "serial_live D"
  then obtain es where es:
    "serial_write_char D c s = Some (s\<lparr>trace := Out8 PORT c # es @ trace s\<rparr>)"
    "\<forall>e \<in> set es. \<exists>v. e = In8 (PORT + 5) v"
    by (rule serial_write_char_run)
  let ?s = "s\<lparr>trace := Out8 PORT c # es @ trace s\<rparr>"
  have "serial_same s ?s"
    unfolding serial_same_def using es(2) by (intro exI [of _ "Out8 PORT c # es"]) auto
  moreover have "transmitted (trace ?s) = transmitted (trace s) @ [c]"
    using transmitted_reads [OF es(2)] by (simp add: transmitted_append)
  ultimately show "\<exists>s'. serial_write_char D c s = Some s' \<and> serial_same s s' \<and>
      transmitted (trace s') = transmitted (trace s) @ [c]"
    using es(1) by blast
next
  show "serial_same s s" for s
    unfolding serial_same_def by (rule exI [of _ "[]"]) simp
qed (rule serial_same_trans)

text \<open>
  What a character on the console may change: the screen, the cursor column (kept within the
  row) and the history of the serial port.
\<close>

definition console_same :: "machine \<Rightarrow> machine \<Rightarrow> bool" where
  "console_same s s' \<longleftrightarrow>
     (\<forall>a. a \<notin> vga_region \<longrightarrow> mem s' a = mem s a) \<and>
     foreground s' = foreground s \<and> background s' = background s \<and>
     pt_it s' = pt_it s \<and> cr3 s' = cr3 s \<and>
     (unat (column_counter s) \<le> VGA_COLS \<longrightarrow> unat (column_counter s') \<le> VGA_COLS) \<and>
     (\<exists>es. trace s' = es @ trace s \<and> (\<forall>e \<in> set es. serial_event e))"

lemma console_same_refl: "console_same s s"
  by (simp add: console_same_def)

lemma console_same_trans: "console_same s t \<Longrightarrow> console_same t u \<Longrightarrow> console_same s u"
  unfolding console_same_def
  by (elim exE conjE, intro conjI) (simp_all, metis Un_iff append.assoc set_append)

lemma draw_char_console_same: "console_same s (draw_char c s)"
  by (simp add: console_same_def draw_char_outside draw_char_frame draw_char_column)

lemma serial_same_console: "serial_same s t \<Longrightarrow> console_same s t"
  by (auto simp: serial_same_def console_same_def)

interpretation console: printer putc serial_live "\<lambda>s. transmitted (trace s)" console_same
proof unfold_locales
  fix D c s
  assume "serial_live D"
  then obtain s' where s': "serial_write_char D c (draw_char c s) = Some s'"
    "serial_same (draw_char c s) s'"
    "transmitted (trace s') = transmitted (trace (draw_char c s)) @ [c]"
    using serial.out_ok by blast
  then show "\<exists>s'. putc D c s = Some s' \<and> console_same s s' \<and>
      transmitted (trace s') = transmitted (trace s) @ [c]"
    by (intro exI [of _ s'])
      (auto simp: putc_def draw_char_frame
        intro: console_same_trans draw_char_console_same serial_same_console)
qed (auto intro: console_same_refl console_same_trans)

section \<open>Strings\<close>

lemma puts_from_view:
  "str (i + n) = 0 \<Longrightarrow> puts_from D str i s = emit (putc D) (cstr n (\<lambda>j. str (i + j))) s"
proof (induction n arbitrary: i s)
  case 0
  then show ?case by (simp add: puts_from.simps)
next
  case (Suc n)
  have "puts_from D str (Suc i) t = emit (putc D) (cstr n (\<lambda>j. str (Suc (i + j)))) t" for t
    using Suc.IH [of "Suc i" t] Suc.prems by simp
  then show ?case by (subst puts_from.simps) (simp cong: Option.bind_cong)
qed

lemma puts_view: "str n = 0 \<Longrightarrow> puts D str s = emit (putc D) (cstr n str) s"
  using puts_from_view [of str 0 n] by (simp add: puts_def)

lemma cstr_lit_takeWhile: "length s \<le> n \<Longrightarrow> cstr n (lit s) = takeWhile (\<lambda>c. c \<noteq> 0) s"
proof (induction s arbitrary: n)
  case Nil
  then show ?case by (cases n) simp_all
next
  case (Cons c cs)
  then obtain k where "n = Suc k" "length cs \<le> k" by (cases n) auto
  moreover have "(\<lambda>i. lit (c # cs) (Suc i)) = lit cs" by (simp add: fun_eq_iff)
  ultimately show ?case using Cons.IH by simp
qed

lemma puts_lit: "puts D (lit str) s = emit (putc D) (takeWhile (\<lambda>c. c \<noteq> 0) str) s"
  using puts_view [of "lit str" "length str" D s] cstr_lit_takeWhile [of str "length str"]
  by (simp add: lit_def)

lemma takeWhile_nonzero: "0 \<notin> set cs \<Longrightarrow> takeWhile (\<lambda>c. c \<noteq> 0) (cs @ 0 # zs) = cs"
  by (induction cs) auto

lemma puts_buffer: "0 \<notin> set cs \<Longrightarrow> puts D (lit (cs @ 0 # zs)) s = emit (putc D) cs s"
  by (simp add: puts_lit takeWhile_nonzero)

section \<open>Hexadecimal\<close>

definition hex_digit :: "nat \<Rightarrow> u8" where
  "hex_digit d = hexdigits ! d"

definition hex_value :: "u8 list \<Rightarrow> nat" where
  "hex_value ds = foldl (\<lambda>a c. 16 * a + (if c \<le> 0x39 then unat c - 0x30 else unat c - 55)) 0 ds"

text \<open>The \<open>n\<close> low hexadecimal digits of a number, most significant first.\<close>

primrec hex_string :: "nat \<Rightarrow> nat \<Rightarrow> u8 list" where
  "hex_string 0 v = []"
| "hex_string (Suc n) v = hex_string n (v div 16) @ [hex_digit (v mod 16)]"

lemma length_hex_string [simp]: "length (hex_string n v) = n"
  by (induction n arbitrary: v) simp_all

lemma nth_hex_string:
  "k < n \<Longrightarrow> hex_string n v ! k = hex_digit (v div 16 ^ (n - 1 - k) mod 16)"
proof (induction n arbitrary: k v)
  case 0
  then show ?case by simp
next
  case (Suc n)
  show ?case
  proof (cases "k = n")
    case True
    then show ?thesis by (simp add: nth_append)
  next
    case False
    then have "k < n" using Suc.prems by simp
    moreover have "Suc n - 1 - k = Suc (n - 1 - k)" using \<open>k < n\<close> by simp
    ultimately show ?thesis using Suc.IH by (simp add: nth_append div_mult2_eq)
  qed
qed

lemma hex_string_front: "hex_string (Suc n) v = hex_digit (v div 16 ^ n mod 16) # hex_string n v"
proof (rule nth_equalityI)
  fix k
  assume "k < length (hex_string (Suc n) v)"
  then show "hex_string (Suc n) v ! k = (hex_digit (v div 16 ^ n mod 16) # hex_string n v) ! k"
    by (cases k) (simp_all add: nth_hex_string del: hex_string.simps)
qed simp

lemma hexdigits_nth:
  "d < 16 \<Longrightarrow> hexdigits ! d = (if d < 10 then of_nat (0x30 + d) else of_nat (55 + d))"
proof -
  have "\<forall>d \<in> {..<16}. hexdigits ! d = (if d < 10 then of_nat (0x30 + d) else of_nat (55 + d))"
    by (simp add: hexdigits_def bytes_def lessThan_nat_numeral lessThan_Suc)
  then show "d < 16 \<Longrightarrow> ?thesis" by simp
qed

lemma hex_digit_value:
  assumes "d < 16"
  shows "(if hex_digit d \<le> 0x39 then unat (hex_digit d) - 0x30 else unat (hex_digit d) - 55) = d"
    and "hex_digit d \<noteq> 0"
proof -
  have "unat (hex_digit d) = (if d < 10 then 0x30 + d else 55 + d)"
    using assms by (simp add: hex_digit_def hexdigits_nth unat_of_nat del: of_nat_add)
  then show "(if hex_digit d \<le> 0x39 then unat (hex_digit d) - 0x30 else unat (hex_digit d) - 55) = d"
    and "hex_digit d \<noteq> 0"
    by (auto simp: word_le_nat_alt split: if_splits)
qed

lemma hex_string_nonzero: "0 \<notin> set (hex_string n v)"
  by (induction n arbitrary: v) (auto simp: hex_digit_value(2) dest: sym)

lemma hex_value_string: "hex_value (hex_string n v) = v mod 16 ^ n"
proof (induction n arbitrary: v)
  case 0
  then show ?case by (simp add: hex_value_def)
next
  case (Suc n)
  have "hex_value (hex_string (Suc n) v) = 16 * hex_value (hex_string n (v div 16)) + v mod 16"
    using hex_digit_value(1) [of "v mod 16"] by (simp add: hex_value_def)
  then show ?case by (simp add: Suc.IH mod_mult2_eq)
qed

lemma nibble: "unat (drop_bit (i * 4) val AND 0xF :: u64) = unat val div 16 ^ i mod 16"
proof -
  have "drop_bit (i * 4) val AND 0xF = take_bit 4 (drop_bit (i * 4) val)"
    by (simp add: take_bit_eq_mask mask_eq_exp_minus_1)
  then have "unat (drop_bit (i * 4) val AND 0xF) = take_bit 4 (drop_bit (i * 4) (unat val))"
    by (simp only: unsigned_take_bit_eq unat_drop_bit_eq)
  then show ?thesis
    by (simp add: take_bit_eq_mod drop_bit_eq_div power_mult mult.commute [of i 4])
qed

lemma replicate_update_last: "(replicate (Suc j) a)[j := b] = replicate j a @ [b]"
  by (induction j) simp_all

lemma hex_buf_prefix:
  fixes val :: u64
  assumes "k \<le> n" and "n \<le> 20"
  shows "fold (\<lambda>i buf. buf[n - 1 - i := hexdigits ! unat (drop_bit (i * 4) val AND 0xF)])
       [0..<k] (replicate 20 0)
     = replicate (n - k) 0 @ hex_string k (unat val) @ replicate (20 - n) 0"
  using assms
proof (induction k)
  case 0
  then show ?case by (simp add: replicate_add [symmetric])
next
  case (Suc k)
  then obtain j where j: "n - k = Suc j" "n - 1 - k = j" "n - Suc k = j"
    by (metis Suc_diff_Suc Suc_le_lessD diff_Suc_1 diff_Suc_eq_diff_pred diff_commute)
  have digit: "hexdigits ! unat (drop_bit (k * 4) val AND 0xF)
      = hex_digit (unat val div 16 ^ k mod 16)"
    by (simp only: nibble hex_digit_def)
  show ?case
    using Suc j by (simp add: digit hex_string_front list_update_append
        replicate_update_last del: replicate_Suc hex_string.simps)
qed

lemma puts_hex_buf: "n \<le> 16 \<Longrightarrow> puts D (lit (hex_buf n val)) s = emit (putc D) (hex_string n (unat val)) s"
  using hex_buf_prefix [of n n val] puts_buffer [OF hex_string_nonzero]
  by (cases "20 - n") (simp_all add: hex_buf_def)

lemma putx8_emit: "putx8 D val s = emit (putc D) (hex_string 2 (unat val)) s"
  by (simp add: putx8_def puts_hex_buf unat_ucast_up)

lemma putx16_emit: "putx16 D val s = emit (putc D) (hex_string 4 (unat val)) s"
  by (simp add: putx16_def puts_hex_buf unat_ucast_up)

lemma putx32_emit: "putx32 D val s = emit (putc D) (hex_string 8 (unat val)) s"
  by (simp add: putx32_def puts_hex_buf unat_ucast_up)

lemma putx64_emit: "putx64 D val s = emit (putc D) (hex_string 16 (unat val)) s"
  by (simp add: putx64_def puts_hex_buf)

section \<open>Decimal\<close>

text \<open>The decimal digits of a number, most significant first, without leading zeros.\<close>

fun dec_digits :: "nat \<Rightarrow> nat list" where
  "dec_digits n = (if n < 10 then [n] else dec_digits (n div 10) @ [n mod 10])"

declare dec_digits.simps [simp del]

definition dec_string :: "nat \<Rightarrow> u8 list" where
  "dec_string n = map (\<lambda>d. of_nat (0x30 + d)) (dec_digits n)"

definition dec_value :: "u8 list \<Rightarrow> nat" where
  "dec_value ds = foldl (\<lambda>a c. 10 * a + (unat c - 0x30)) 0 ds"

lemma dec_digits_bound: "d \<in> set (dec_digits n) \<Longrightarrow> d < 10"
  by (induction n rule: dec_digits.induct) (subst (asm) dec_digits.simps, auto split: if_splits)

lemma dec_value_string: "dec_value (dec_string n) = n"
proof (induction n rule: dec_digits.induct)
  case (1 n)
  have digit: "unat (of_nat (0x30 + d) :: u8) = 0x30 + d" if "d < 10" for d
    using that by (simp add: unat_of_nat del: of_nat_add)
  show ?case
  proof (cases "n < 10")
    case True
    then show ?thesis using digit [of n]
      by (simp add: dec_value_def dec_string_def dec_digits.simps [of n])
  next
    case False
    then have "dec_value (dec_string (n div 10)) = n div 10" by (rule "1.IH")
    then show ?thesis using False digit [of "n mod 10"]
      by (simp add: dec_value_def dec_string_def dec_digits.simps [of n])
  qed
qed

lemma length_dec_string: "length (dec_string n) = length (dec_digits n)"
  by (simp add: dec_string_def)

lemma dec_string_nonzero: "0 \<notin> set (dec_string n)"
proof
  assume "0 \<in> set (dec_string n)"
  then obtain d where "d < 10" "(of_nat (0x30 + d) :: u8) = 0"
    by (auto simp: dec_string_def dest!: dec_digits_bound)
  then have "unat (of_nat (0x30 + d) :: u8) = 0" by simp
  then show False using \<open>d < 10\<close> by (simp add: unat_of_nat del: of_nat_add)
qed

lemma length_dec_digits: "n < 10 ^ k \<Longrightarrow> 0 < k \<Longrightarrow> length (dec_digits n) \<le> k"
proof (induction k arbitrary: n)
  case (Suc k)
  show ?case
  proof (cases "n < 10")
    case True
    then show ?thesis by (simp add: dec_digits.simps [of n])
  next
    case False
    then have "0 < k" using Suc.prems by (cases k) auto
    moreover have "n div 10 < 10 ^ k"
      using Suc.prems by (simp add: less_mult_imp_div_less mult.commute)
    ultimately show ?thesis using Suc.IH False by (simp add: dec_digits.simps [of n])
  qed
qed simp

lemma putd_loop_run:
  assumes "val \<noteq> 0" and "length (dec_digits (unat val)) \<le> i" and "i \<le> length buf"
  shows "putd_loop val i buf = (i - length (dec_digits (unat val)),
     take (i - length (dec_digits (unat val))) buf @ dec_string (unat val) @ drop i buf)"
  using assms
proof (induction val i buf rule: putd_loop.induct)
  case (1 val i buf)
  let ?n = "unat val"
  let ?c = "ucast (of_char CHR ''0'' + val mod 10) :: u8"
  let ?buf = "buf[i - 1 := ?c]"
  have c: "?c = of_nat (0x30 + ?n mod 10)"
  proof (rule word_unat_eq_iff [THEN iffD2])
    have m: "unat (val mod 10) = ?n mod 10" by (simp add: unat_mod)
    have "?n mod 10 < 10" by simp
    then have "?n mod 10 < 18446744073709551568" by linarith
    with m have "unat (0x30 + val mod 10) = 0x30 + ?n mod 10"
      using unat_add_lem [of "0x30" "val mod 10"] by simp
    then show "unat ?c = unat (of_nat (0x30 + ?n mod 10) :: u8)"
      by (simp add: unsigned_ucast_eq take_bit_eq_mod unat_of_nat del: of_nat_add)
  qed
  have i: "0 < i" using "1.prems" by (cases i) (auto simp: dec_digits.simps [of ?n] split: if_splits)
  have step: "putd_loop val i buf = putd_loop (val div 10) (i - 1) ?buf"
    using "1.prems" by (simp add: putd_loop.simps [of val i buf])
  have n10: "unat (val div 10) = ?n div 10" by (simp add: unat_div)
  have split_buf: "drop (i - 1) ?buf = ?c # drop i buf"
    using i "1.prems" by (simp add: drop_update_swap Cons_nth_drop_Suc [symmetric] list_update_beyond)
  show ?case
  proof (cases "?n < 10")
    case True
    then have "val div 10 = 0" using n10 by (simp add: unat_eq_0)
    then have "putd_loop val i buf = (i - 1, ?buf)"
      by (simp only: step putd_loop.simps [of "0"]) simp
    moreover have "?buf = take (i - 1) buf @ ?c # drop i buf"
      using i "1.prems" by (simp add: upd_conv_take_nth_drop)
    ultimately show ?thesis using True c by (simp add: dec_digits.simps [of ?n] dec_string_def)
  next
    case False
    have nz: "val div 10 \<noteq> 0" using False n10 by (auto simp: unat_eq_0 [symmetric])
    let ?k = "length (dec_digits (?n div 10))"
    have len: "length (dec_digits ?n) = Suc ?k" using False by (simp add: dec_digits.simps [of ?n])
    have "putd_loop (val div 10) (i - 1) ?buf
        = (i - 1 - ?k, take (i - 1 - ?k) ?buf @ dec_string (?n div 10) @ drop (i - 1) ?buf)"
      using "1.IH" [OF _ nz] "1.prems" len n10 by auto
    moreover have "take (i - 1 - ?k) ?buf = take (i - 1 - ?k) buf" by simp
    moreover have "dec_string ?n = dec_string (?n div 10) @ [?c]"
      using False c by (simp add: dec_string_def dec_digits.simps [of ?n])
    ultimately show ?thesis using step split_buf len by simp
  qed
qed

lemma length_dec_u64: "length (dec_digits (unat (val :: u64))) \<le> 20"
  using length_dec_digits [of "unat val" 20] unat_lt_64 [of val] by simp

lemma putd_buf_run:
  "\<exists>i zs. putd_buf val = (i, zs @ dec_string (unat val) @ [0, 0]) \<and> length zs = i \<and> 10 \<le> i"
proof (cases "val = 0")
  case True
  then have "putd_buf val = (29, replicate 29 0 @ dec_string (unat val) @ [0, 0])"
    by (simp add: putd_buf_def dec_string_def dec_digits.simps [of 0] numeral_eq_Suc)
  then show ?thesis by (intro exI conjI) (assumption, simp_all)
next
  case False
  let ?k = "length (dec_digits (unat val))"
  have "putd_loop val 30 ((replicate 32 0)[30 := 0])
      = (30 - ?k, take (30 - ?k) ((replicate 32 0)[30 := 0]) @ dec_string (unat val)
          @ drop 30 ((replicate 32 0)[30 := 0]))"
    using False length_dec_u64 [of val] by (intro putd_loop_run) simp_all
  moreover have "drop 30 ((replicate 32 0)[30 := 0]) = [0, 0 :: u8]"
    by (simp add: numeral_eq_Suc)
  ultimately have "putd_buf val
      = (30 - ?k, take (30 - ?k) ((replicate 32 0)[30 := 0]) @ dec_string (unat val) @ [0, 0])"
    using False by (simp add: putd_buf_def)
  then show ?thesis using length_dec_u64 [of val]
    by (intro exI conjI) (assumption, simp_all)
qed

lemma length_putd_loop: "length (snd (putd_loop val i buf)) = length buf"
proof (induction val i buf rule: putd_loop.induct)
  case (1 val i buf)
  show ?case
  proof (cases "val = 0")
    case True
    then show ?thesis by (simp add: putd_loop.simps [of 0])
  next
    case False
    with "1.IH" show ?thesis by (simp add: putd_loop.simps [of val i buf])
  qed
qed

lemma putd_buf_length: "length (snd (putd_buf val)) = 32"
  by (simp add: putd_buf_def length_putd_loop Let_def)

lemma putd_emit: "putd D val s = emit (putc D) (dec_string (unat val)) s"
proof -
  obtain i zs where "putd_buf val = (i, zs @ dec_string (unat val) @ [0, 0])" "length zs = i"
    using putd_buf_run by blast
  then show ?thesis
    using puts_buffer [OF dec_string_nonzero, of D "unat val" "[0]"] by (simp add: putd_def)
qed

section \<open>Dumps\<close>

text \<open>The text of a dump: the bytes \<open>i\<close>, \<open>i + 1\<close>, \<dots> with their separators.\<close>

primrec dump_string :: "nat \<Rightarrow> view \<Rightarrow> nat \<Rightarrow> u8 list" where
  "dump_string 0 buf i = []"
| "dump_string (Suc k) buf i =
     hex_string 2 (unat (buf (i - 1)))
     @ (if i mod 32 = 0 then [nl] else if i mod 2 = 0 then [of_char CHR '' ''] else [])
     @ dump_string k buf (Suc i)"

lemma hexdump_loop_emit:
  assumes "unat sz < 2 ^ 64 - 1" and "unat i + k = unat sz + 1" and "1 \<le> unat i"
  shows "hexdump_loop D buf sz i s = emit (putc D) (dump_string k buf (unat i)) s"
  using assms(2,3)
proof (induction k arbitrary: i s)
  case 0
  then have "\<not> i \<le> sz" by (simp add: word_le_nat_alt)
  then show ?case by (simp add: hexdump_loop.simps)
next
  case (Suc k)
  have le: "i \<le> sz" using Suc.prems by (simp add: word_le_nat_alt)
  have i1: "unat (i + 1) = unat i + 1" using unat_add_of_nat [of i 1] Suc.prems assms(1) by simp
  have i0: "unat (i - 1) = unat i - 1" using Suc.prems(2) unat_sub [of 1 i] by (simp add: word_le_nat_alt)
  have mods: "i mod 32 = 0 \<longleftrightarrow> unat i mod 32 = 0" "i mod 2 = 0 \<longleftrightarrow> unat i mod 2 = 0"
    by (simp_all add: word_unat_eq_iff unat_mod)
  have "hexdump_loop D buf sz (i + 1) t = emit (putc D) (dump_string k buf (Suc (unat i))) t" for t
    using Suc.IH [of "i + 1" t] Suc.prems i1 by simp
  then show ?case
    using le by (subst hexdump_loop.simps) (simp add: i0 mods putx8_emit emit_append cong: Option.bind_cong)
qed

lemma hexdump_emit:
  "unat sz < 2 ^ 64 - 1 \<Longrightarrow> hexdump D buf sz s = emit (putc D) (dump_string (unat sz) buf 1) s"
  using hexdump_loop_emit [of sz 1 "unat sz"] by (simp add: hexdump_def)

lemmas output_emit = putx8_emit putx16_emit putx32_emit putx64_emit putd_emit

text \<open>
  A sequence of printing calls is one \<open>emit\<close>: \<open>console_emit\<close> turns the calls into it,
  \<open>emit_fuse\<close> joins neighbours.
\<close>

lemma nul_in_bytes [simp]:
  "0 \<in> set (bytes []) \<longleftrightarrow> False"
  "0 \<in> set (bytes (c # cs)) \<longleftrightarrow> of_char c = (0 :: u8) \<or> 0 \<in> set (bytes cs)"
  by (auto simp: bytes_def)

lemma putl_emit: "0 \<notin> set (bytes str) \<Longrightarrow> putl D str = emit (putc D) (bytes str)"
  unfolding fun_eq_iff puts_lit by (subst takeWhile_eq_all_conv [THEN iffD2]) auto

lemma putc_emit: "putc D c = emit (putc D) [c]"
proof
  show "putc D c s = emit (putc D) [c] s" for s by (cases "putc D c s") simp_all
qed

lemma numbers_emit:
  "putx8 D v8 = emit (putc D) (hex_string 2 (unat v8))"
  "putx16 D v16 = emit (putc D) (hex_string 4 (unat v16))"
  "putx32 D v32 = emit (putc D) (hex_string 8 (unat v32))"
  "putx64 D v64 = emit (putc D) (hex_string 16 (unat v64))"
  "putd D v64 = emit (putc D) (dec_string (unat v64))"
  by (simp_all add: fun_eq_iff output_emit)

lemmas console_emit = putl_emit putc_emit numbers_emit

lemma emit_fuse:
  "Option.bind (emit out xs s) (emit out ys) = emit out (xs @ ys) s"
  "Option.bind (emit out xs s) (\<lambda>s. Option.bind (emit out ys s) k) = Option.bind (emit out (xs @ ys) s) k"
  by (simp_all add: emit_append split: Option.bind_split)

section \<open>Properties\<close>

text \<open>
  A device environment whose line status is always ready, for the witnesses.
\<close>

definition ready_device :: device where
  "ready_device h port = 0x60"

lemma ready_device_answers:
  "ok (0x60 :: u8) \<Longrightarrow> answers ready_device port ok h"
  unfolding answers_def by (rule exI [of _ 0]) (simp add: status_def ready_device_def)

lemma ready_device_live: "serial_live ready_device"
  by (simp add: serial_live_def is_transmit_empty_def ready_device_answers)

text \<open>\<open>putx64\<close> prints exactly sixteen hexadecimal digits, and reading them back gives the
  number.\<close>

lemma putx64_roundtrip:
  assumes "serial_live D"
  shows "\<exists>s' ds. putx64 D val s = Some s' \<and> console_same s s' \<and>
    transmitted (trace s') = transmitted (trace s) @ ds \<and> length ds = 16 \<and> hex_value ds = unat val"
proof -
  have "hex_value (hex_string 16 (unat val)) = unat val"
    using unat_lt_64 [of val] by (simp add: hex_value_string)
  then show ?thesis
    using console.emit_ok [OF assms, of "hex_string 16 (unat val)" s]
    by (auto simp: putx64_emit)
qed

theorem putx64_roundtrip_witness:
  "\<exists>s' ds. putx64 ready_device 0xFFFF800000000000 sample_state = Some s' \<and> console_same sample_state s' \<and>
    transmitted (trace s') = transmitted (trace sample_state) @ ds \<and> length ds = 16 \<and>
    hex_value ds = unat (0xFFFF800000000000 :: u64)"
  by (rule putx64_roundtrip) (rule ready_device_live)

text \<open>C40. \<open>putd\<close> stays within its 32-byte buffer for every 64-bit number, and what it prints
  is at most twenty characters that read back as the number.\<close>

theorem putd_roundtrip:
  assumes "serial_live D"
  shows "\<exists>s' ds i buf. putd D val s = Some s' \<and> console_same s s' \<and>
    transmitted (trace s') = transmitted (trace s) @ ds \<and> length ds \<le> 20 \<and> dec_value ds = unat val \<and>
    putd_buf val = (i, buf) \<and> 10 \<le> i \<and> length buf = 32"
proof -
  obtain i zs where buf: "putd_buf val = (i, zs @ dec_string (unat val) @ [0, 0])"
    "length zs = i" "10 \<le> i" using putd_buf_run by blast
  moreover have "length (snd (putd_buf val)) = 32"
    by (simp add: putd_buf_length)
  ultimately show ?thesis
    using console.emit_ok [OF assms, of "dec_string (unat val)" s] length_dec_u64 [of val]
      dec_value_string [of "unat val"]
    by (auto simp: putd_emit length_dec_string)
qed

theorem putd_roundtrip_witness:
  "\<exists>s' ds i buf. putd ready_device 268435456 sample_state = Some s' \<and> console_same sample_state s' \<and>
    transmitted (trace s') = transmitted (trace sample_state) @ ds \<and> length ds \<le> 20 \<and>
    dec_value ds = unat (268435456 :: u64) \<and>
    putd_buf 268435456 = (i, buf) \<and> 10 \<le> i \<and> length buf = 32"
  by (rule putd_roundtrip) (rule ready_device_live)

end
