(* ===== verification/Paging.thy ===== *)
theory Paging
  imports Print "HOL-Library.Sublist"
begin

text \<open>
  Page tables (\<open>src/paging.c\<close>, \<open>include/paging.h\<close>): the entry and address bit
  fields, the watermark allocator, the mapping functions, and the translation that the hardware
  makes of the tables (\<open>walk\<close>, the format of the comment in \<open>paging.h\<close>). The tables
  are abstracted to a tree of entries indexed by paths (\<open>pte\<close>); every mapping operation
  is shown to be one update of that tree.
\<close>

section \<open>Entries and virtual addresses\<close>

text \<open>
  A page-table entry is its \<open>raw\<close> value; the bit fields are read and written as the union
  lays them out: \<open>addr\<close> is the 42 bits from bit 11 on. Indices are 9-bit fields.
\<close>

type_synonym index = "9 word"

definition present :: "u64 \<Rightarrow> bool" where "present e = bit e 0"
definition huge_page :: "u64 \<Rightarrow> bool" where "huge_page e = bit e 7"

definition set_flag :: "nat \<Rightarrow> u64 \<Rightarrow> u64" where "set_flag n e = e OR push_bit n 1"

abbreviation set_present :: "u64 \<Rightarrow> u64" where "set_present \<equiv> set_flag 0"
abbreviation set_writable :: "u64 \<Rightarrow> u64" where "set_writable \<equiv> set_flag 1"
abbreviation set_huge_page :: "u64 \<Rightarrow> u64" where "set_huge_page \<equiv> set_flag 7"

definition GET_PTE_ADDRESS :: "u64 \<Rightarrow> u64" where
  "GET_PTE_ADDRESS e = push_bit 11 (take_bit 42 (drop_bit 11 e))"

definition SET_PTE_ADDRESS :: "u64 \<Rightarrow> u64 \<Rightarrow> u64" where
  "SET_PTE_ADDRESS n e
     = (e AND NOT (push_bit 11 (mask 42))) OR push_bit 11 (take_bit 42 (drop_bit 11 n))"

definition l1_index :: "u64 \<Rightarrow> index" where "l1_index va = ucast (drop_bit 12 va)"
definition l2_index :: "u64 \<Rightarrow> index" where "l2_index va = ucast (drop_bit 21 va)"
definition l3_index :: "u64 \<Rightarrow> index" where "l3_index va = ucast (drop_bit 30 va)"
definition l4_index :: "u64 \<Rightarrow> index" where "l4_index va = ucast (drop_bit 39 va)"

text \<open>The address of \<open>table[i]\<close>, and an update of the entry there.\<close>

definition slot :: "u64 \<Rightarrow> index \<Rightarrow> u64" where
  "slot table i = table + 8 * ucast i"

definition entry_update :: "u64 \<Rightarrow> index \<Rightarrow> (u64 \<Rightarrow> u64) \<Rightarrow> machine \<Rightarrow> machine" where
  "entry_update table i f s
     = s\<lparr>mem := store64 (mem s) (slot table i) (f (load64 (mem s) (slot table i)))\<rparr>"

abbreviation entry :: "machine \<Rightarrow> u64 \<Rightarrow> index \<Rightarrow> u64" where
  "entry s table i \<equiv> load64 (mem s) (slot table i)"

definition ALIGN_UP_4KB :: "u64 \<Rightarrow> u64" where
  "ALIGN_UP_4KB n = n + 0x1000 - (n mod 0x1000)"

definition ALIGN_UP_2MB :: "u64 \<Rightarrow> u64" where
  "ALIGN_UP_2MB n = n + 0x200000 - (n mod 0x200000)"

definition ALIGN_UP_1GB :: "u64 \<Rightarrow> u64" where
  "ALIGN_UP_1GB n = n + 0x40000000 - (n mod 0x40000000)"

section \<open>Operations\<close>

definition load_newpagetable :: "u64 \<Rightarrow> machine \<Rightarrow> machine" where
  "load_newpagetable pt s = event (LoadCR3 pt) (s\<lparr>cr3 := pt\<rparr>)"

definition new_page_table :: "machine \<Rightarrow> (u64 \<times> machine) option" where
  "new_page_table s = do {
     let val = pt_it s;
     m \<leftarrow> memset (mem s) val 0 4096;
     Some (val, s\<lparr>mem := m, pt_it := pt_it s + 4096\<rparr>) }"

definition p4table :: u64 where "p4table = 0x1000"

text \<open>
  The block that both mapping functions repeat for each level: the table that entry \<open>i\<close>
  points to, allocated and linked when the entry is not present.
\<close>

definition next_table :: "u64 \<Rightarrow> index \<Rightarrow> machine \<Rightarrow> (u64 \<times> machine) option" where
  "next_table table i s =
     (if \<not> present (entry s table i)
      then do {
        (new, s) \<leftarrow> new_page_table s;
        let s = entry_update table i (SET_PTE_ADDRESS new) s;
        let s = entry_update table i set_present s;
        let s = entry_update table i set_writable s;
        Some (new, s) }
      else Some (GET_PTE_ADDRESS (entry s table i), s))"

definition map_4kb_page :: "u64 \<Rightarrow> u64 \<Rightarrow> machine \<Rightarrow> machine option" where
  "map_4kb_page addr physical_address s = do {
     (p3table, s) \<leftarrow> next_table p4table (l4_index addr) s;
     (p2table, s) \<leftarrow> next_table p3table (l3_index addr) s;
     (p1table, s) \<leftarrow> next_table p2table (l2_index addr) s;
     let s = entry_update p1table (l1_index addr) (\<lambda>_. 0) s;
     let s = entry_update p1table (l1_index addr) (SET_PTE_ADDRESS physical_address) s;
     let s = entry_update p1table (l1_index addr) set_present s;
     Some (entry_update p1table (l1_index addr) set_writable s) }"

definition map_2mb_page :: "u64 \<Rightarrow> u64 \<Rightarrow> machine \<Rightarrow> machine option" where
  "map_2mb_page addr physical_address s = do {
     (p3table, s) \<leftarrow> next_table p4table (l4_index addr) s;
     (p2table, s) \<leftarrow> next_table p3table (l3_index addr) s;
     let s = entry_update p2table (l2_index addr) (\<lambda>_. 0) s;
     let s = entry_update p2table (l2_index addr) (SET_PTE_ADDRESS physical_address) s;
     let s = entry_update p2table (l2_index addr) set_present s;
     let s = entry_update p2table (l2_index addr) set_writable s;
     Some (entry_update p2table (l2_index addr) set_huge_page s) }"

definition physical_to_virtual_address :: "u64 \<Rightarrow> u64" where
  "physical_to_virtual_address addr = addr OR 0xFFFF800000000000"

definition physical_to_virtual_pointer :: "u64 \<Rightarrow> u64" where
  "physical_to_virtual_pointer ptr = physical_to_virtual_address ptr"

section \<open>The hardware's translation\<close>

text \<open>
  A four-level walk from the table at \<open>root\<close>. The frame of an entry is its bits 12 to 51;
  a present entry with bit 7 set is a 1 GiB page at level 3 and a 2 MiB page at level 2, and
  faults at level 4. \<open>None\<close> is a page fault.
\<close>

definition frame :: "u64 \<Rightarrow> u64" where
  "frame e = e AND 0x000FFFFFFFFFF000"

definition walk :: "mem \<Rightarrow> u64 \<Rightarrow> u64 \<Rightarrow> u64 option" where
  "walk m root va =
     (let e4 = load64 m (slot root (l4_index va)) in
      if \<not> present e4 \<or> huge_page e4 then None
      else let e3 = load64 m (slot (frame e4) (l3_index va)) in
      if \<not> present e3 then None
      else if huge_page e3 then Some ((e3 AND 0x000FFFFFC0000000) OR take_bit 30 va)
      else let e2 = load64 m (slot (frame e3) (l2_index va)) in
      if \<not> present e2 then None
      else if huge_page e2 then Some ((e2 AND 0x000FFFFFFFE00000) OR take_bit 21 va)
      else let e1 = load64 m (slot (frame e2) (l1_index va)) in
      if \<not> present e1 then None
      else Some (frame e1 OR take_bit 12 va))"

section \<open>The physical window\<close>

text \<open>
  The loop of \<open>setup_physical_map\<close>: \<open>k\<close> iterations remain, \<open>i\<close> were made and
  \<open>va\<close> is \<open>virtaddr.raw\<close>, whose final value the code uses after the loop.
\<close>

primrec map_gigs :: "nat \<Rightarrow> u64 \<Rightarrow> u64 \<Rightarrow> u64 \<Rightarrow> machine \<Rightarrow> u64 \<times> machine" where
  "map_gigs 0 p3table i va s = (va, s)"
| "map_gigs (Suc k) p3table i va s =
     (let new_entry = SET_PTE_ADDRESS (i * 0x40000000) 0;
          new_entry = set_writable new_entry;
          new_entry = set_present new_entry;
          new_entry = set_huge_page new_entry
      in map_gigs k p3table (i + 1) (va + 0x40000000)
           (entry_update p3table (l3_index va) (\<lambda>_. new_entry) s))"

text \<open>
  Accesses that depend on the translation stop when a page is not mapped: the processor raises a page
  fault at the address, and runs the handler of \<open>Interrupts\<close>. A function that may stop returns
  what stopped it and the machine at that point, or the machine after it.
\<close>

datatype stop = PageFault u64 | Overwrite u64

fun stop_address :: "stop \<Rightarrow> u64" where
  "stop_address (PageFault a) = a"
| "stop_address (Overwrite a) = a"

type_synonym stoppable = "(stop \<times> machine) + machine"

text \<open>\<open>memcmp\<close> with both reads translated by the hardware, or the address that faults.\<close>

primrec mmu_memcmp :: "nat \<Rightarrow> mem \<Rightarrow> u64 \<Rightarrow> u64 \<Rightarrow> u64 \<Rightarrow> u64 + int" where
  "mmu_memcmp 0 m root a b = Inr 0"
| "mmu_memcmp (Suc k) m root a b =
     (case walk m root a of None \<Rightarrow> Inl a
      | Some pa \<Rightarrow>
          (case walk m root b of None \<Rightarrow> Inl b
           | Some pb \<Rightarrow> if m pa \<noteq> m pb then Inr 1 else mmu_memcmp k m root (a + 1) (b + 1)))"

text \<open>
  \<open>memset\<close> with the value 0 through the tables, page by page: it stops at a page that is not mapped,
  and the model also ends it, with \<open>Overwrite\<close>, at a page of the loader itself, the tables, the
  program and the stack at the physical addresses from 0x1000 to 0x70000: what happens once they are
  overwritten depends on the translations and the code that the processor has cached. The bytes before
  that page are cleared.
\<close>

definition own_memory :: "u64 \<Rightarrow> bool" where
  "own_memory pa \<longleftrightarrow> 0x1000 \<le> unat pa \<and> unat pa < 0x70000"

definition store_stop :: "mem \<Rightarrow> u64 \<Rightarrow> u64 \<Rightarrow> stop option" where
  "store_stop m root a =
     (case walk m root a of None \<Rightarrow> Some (PageFault a)
      | Some pa \<Rightarrow> if own_memory pa then Some (Overwrite a) else None)"

primrec first_stop :: "nat \<Rightarrow> mem \<Rightarrow> u64 \<Rightarrow> u64 \<Rightarrow> stop option" where
  "first_stop 0 m root a = None"
| "first_stop (Suc k) m root a =
     (case store_stop m root a of Some st \<Rightarrow> Some st
      | None \<Rightarrow> first_stop k m root (a - a mod 0x1000 + 0x1000))"

definition mmu_clear :: "u64 \<Rightarrow> u64 \<Rightarrow> machine \<Rightarrow> stoppable option" where
  "mmu_clear dst n s =
     (case first_stop ((unat dst mod 4096 + unat n + 4095) div 4096) (mem s) (cr3 s) dst of
        None \<Rightarrow> do { m \<leftarrow> memset (mem s) dst 0 n; Some (Inr (s\<lparr>mem := m\<rparr>)) }
      | Some st \<Rightarrow> do { m \<leftarrow> memset (mem s) dst 0 (stop_address st - dst); Some (Inl (st, s\<lparr>mem := m\<rparr>)) })"

text \<open>Up to the load of the new table, then the test.\<close>

definition build_physical_map :: "u64 \<Rightarrow> machine \<Rightarrow> machine option" where
  "build_physical_map total_memsize s = do {
     (p3table, s) \<leftarrow> new_page_table s;
     m \<leftarrow> memset (mem s) p3table 0 4096;
     let s = s\<lparr>mem := m\<rparr>;
     let num_gigs = (total_memsize + 0x3fffffff) div 0x40000000;
     let (virtaddr, s) = map_gigs (unat num_gigs) p3table 0 0xFFFF800000000000 s;
     let p3table_entry = set_writable (set_present (SET_PTE_ADDRESS p3table 0));
     let s = entry_update p4table (l4_index virtaddr) (\<lambda>_. p3table_entry) s;
     Some (load_newpagetable p4table s) }"

definition setup_physical_map :: "device \<Rightarrow> u64 \<Rightarrow> machine \<Rightarrow> stoppable option" where
  "setup_physical_map D total_memsize s = do {
     s \<leftarrow> build_physical_map total_memsize s;
     case mmu_memcmp 1048576 (mem s) (cr3 s) 0 0xFFFF800000000000 of
       Inl a \<Rightarrow> Some (Inl (PageFault a, s))
     | Inr neq \<Rightarrow>
         if neq \<noteq> 0 then do {
           s \<leftarrow> putl D ''Page Table mapping is suspiciously incorrect!'' s;
           s \<leftarrow> putc D nl s;
           Some (Inr (hlt s)) }
         else do {
           s \<leftarrow> putl D ''Physical Page Table mapping is correct'' s;
           s \<leftarrow> putc D nl s;
           Some (Inr s) } }"

section \<open>Printing the tables\<close>

text \<open>
  \<open>print_pagetable\<close>: \<open>k\<close> entries of the table remain, the next one is \<open>512 - k\<close>.
  The recursion follows present entries down from level 4, so its depth is bounded by the level.
\<close>

primrec indent :: "nat \<Rightarrow> device \<Rightarrow> machine \<Rightarrow> machine option" where
  "indent 0 D s = Some s"
| "indent (Suc k) D s = do { s \<leftarrow> putc D 0x20 s; indent k D s }"

definition descends :: "nat \<Rightarrow> u64 \<Rightarrow> bool" where
  "descends level e \<longleftrightarrow> level = 4 \<or> ((level = 2 \<or> level = 3) \<and> \<not> huge_page e)"

fun print_entries :: "device \<Rightarrow> nat \<Rightarrow> u64 \<Rightarrow> nat \<Rightarrow> machine \<Rightarrow> machine option" where
  "print_entries D level table 0 s = Some s"
| "print_entries D level table (Suc k) s =
     (let i = 511 - k; pte = entry s table (of_nat i) in
      if \<not> present pte then print_entries D level table k s
      else do {
        s \<leftarrow> indent (4 - level) D s;
        s \<leftarrow> putl D ''PT'' s;
        s \<leftarrow> putd D (of_nat level) s;
        s \<leftarrow> putc D 0x5B s;
        s \<leftarrow> putd D (of_nat i) s;
        s \<leftarrow> putc D 0x5D s;
        s \<leftarrow> putl D '' = '' s;
        s \<leftarrow> putx64 D pte s;
        s \<leftarrow> putl D ''; paddr = '' s;
        s \<leftarrow> putx64 D (GET_PTE_ADDRESS pte) s;
        s \<leftarrow> putc D nl s;
        s \<leftarrow> (if level > 0 \<and> descends level pte
             then print_entries D (level - 1) (GET_PTE_ADDRESS pte) 512 s else Some s);
        print_entries D level table k s })"

definition print_pagetable :: "device \<Rightarrow> u64 \<Rightarrow> nat \<Rightarrow> machine \<Rightarrow> machine option" where
  "print_pagetable D table level s = print_entries D level table 512 s"

section \<open>Bit fields\<close>

lemma bit_lt_64: "bit a k \<Longrightarrow> k < 64" for a :: u64
  using bit_imp_le_length [of a k] by simp

lemma bit_flag: "bit (set_flag n e) k \<longleftrightarrow> bit e k \<or> k = n \<and> n < 64"
  unfolding set_flag_def by (auto simp only: bit_or_iff bit_push_bit_iff bit_1_iff possible_bit_word
      dest: bit_lt_64) simp_all

lemma present_flags [simp]:
  "present (set_present e)" "present (set_flag (Suc n) e) = present e"
  "present (set_writable e) = present e" "present (set_huge_page e) = present e"
  by (auto simp: present_def bit_flag)

lemma huge_flags [simp]:
  "huge_page (set_huge_page e)" "huge_page (set_present e) = huge_page e"
  "huge_page (set_writable e) = huge_page e" "huge_page (set_flag (Suc 0) e) = huge_page e"
  by (auto simp: huge_page_def bit_flag)

lemma present_0 [simp]: "\<not> present 0" and huge_0 [simp]: "\<not> huge_page 0"
  by (simp_all add: present_def huge_page_def)

lemma bit_SET: "bit (SET_PTE_ADDRESS n e) k \<longleftrightarrow> (if 11 \<le> k \<and> k < 53 then bit n k else bit e k)"
  unfolding SET_PTE_ADDRESS_def
  by (auto simp: bit_or_iff bit_and_iff bit_not_iff bit_push_bit_iff bit_take_bit_iff bit_drop_bit_eq
      bit_mask_iff dest: bit_imp_le_length)

lemma huge_SET [simp]: "huge_page (SET_PTE_ADDRESS n e) = huge_page e"
  and present_SET [simp]: "present (SET_PTE_ADDRESS n e) = present e"
  by (simp_all add: huge_page_def present_def bit_SET)

lemma frame_alt: "frame e = push_bit 12 (take_bit 40 (drop_bit 12 e))"
proof -
  have "0x000FFFFFFFFFF000 = (push_bit 12 (mask 40) :: u64)" by (simp add: mask_eq_exp_minus_1)
  then show ?thesis
    unfolding frame_def
    by (auto intro!: bit_word_eqI simp only: bit_and_iff bit_push_bit_iff bit_mask_iff bit_take_bit_iff
        bit_drop_bit_eq o_apply le_add_diff_inverse possible_bit_word)
qed

lemma bit_frame: "bit (frame e) k \<longleftrightarrow> 12 \<le> k \<and> k < 52 \<and> bit e k"
  unfolding frame_alt by (auto simp: bit_push_bit_iff bit_take_bit_iff bit_drop_bit_eq)

lemma bit_GET: "bit (GET_PTE_ADDRESS e) k \<longleftrightarrow> 11 \<le> k \<and> k < 53 \<and> bit e k"
  unfolding GET_PTE_ADDRESS_def by (auto simp: bit_push_bit_iff bit_take_bit_iff bit_drop_bit_eq)

text \<open>A page-aligned physical address of at most 52 bits is a fixed point of \<open>frame\<close>.\<close>

lemma frame_fixed_bits: "frame a = a \<longleftrightarrow> (\<forall>k. bit a k \<longrightarrow> 12 \<le> k \<and> k < 52)"
  by (metis bit_frame bit_word_eqI)

lemma frame_fixed_iff: "frame a = a \<longleftrightarrow> 2 ^ 12 dvd unat a \<and> unat a < 2 ^ 52"
proof -
  have "2 ^ 12 dvd unat a \<longleftrightarrow> unat (take_bit 12 a) = 0"
    by (simp add: unsigned_take_bit_eq take_bit_eq_0_iff)
  also have "\<dots> \<longleftrightarrow> take_bit 12 a = 0" by (rule unat_eq_0)
  also have "\<dots> \<longleftrightarrow> (\<forall>k. bit a k \<longrightarrow> 12 \<le> k)"
    by (auto simp: bit_eq_iff bit_take_bit_iff not_less dest: bit_lt_64)
  finally have A: "2 ^ 12 dvd unat a \<longleftrightarrow> (\<forall>k. bit a k \<longrightarrow> 12 \<le> k)" .
  have "unat a < 2 ^ 52 \<longleftrightarrow> unat (take_bit 52 a) = unat a"
    unfolding unsigned_take_bit_eq take_bit_nat_eq_self_iff ..
  also have "\<dots> \<longleftrightarrow> take_bit 52 a = a" by (simp only: word_unat_eq_iff)
  also have "\<dots> \<longleftrightarrow> (\<forall>k. bit a k \<longrightarrow> k < 52)"
    by (auto simp: bit_eq_iff bit_take_bit_iff dest: bit_lt_64)
  finally have B: "unat a < 2 ^ 52 \<longleftrightarrow> (\<forall>k. bit a k \<longrightarrow> k < 52)" .
  show ?thesis unfolding frame_fixed_bits A B by blast
qed

lemma GET_SET: "frame n = n \<Longrightarrow> GET_PTE_ADDRESS (SET_PTE_ADDRESS n e) = n"
  by (rule bit_word_eqI) (auto simp: frame_fixed_bits bit_GET bit_SET)

section \<open>Slots of aligned tables\<close>

lemma unat_slot:
  assumes "2 ^ 12 dvd unat t"
  shows "unat (slot t i) = unat t + 8 * unat i" and "unat t + 4096 \<le> 2 ^ 64"
proof -
  have i: "unat i < 512" using unsigned_less [of i] by simp
  obtain k where k: "unat t = 4096 * k" using assms by (auto simp: dvd_def)
  show le: "unat t + 4096 \<le> 2 ^ 64" using k unat_lt_64 [of t] by simp
  have eq: "slot t i = t + of_nat (8 * unat i)"
    by (simp only: slot_def of_nat_mult of_nat_unat of_nat_numeral)
  show "unat (slot t i) = unat t + 8 * unat i"
    unfolding eq using le i by (intro unat_add_of_nat) simp
qed

lemma span_slot:
  assumes "2 ^ 12 dvd unat t"
  shows "x \<in> span (slot t i) 8 \<longleftrightarrow> unat t + 8 * unat i \<le> unat x \<and> unat x < unat t + 8 * unat i + 8"
proof -
  have "unat i < 512" using unsigned_less [of i] by simp
  then show ?thesis using unat_slot [OF assms] by (subst span_iff) simp_all
qed

lemma slot_in_table: "2 ^ 12 dvd unat t \<Longrightarrow> span (slot t i) 8 \<subseteq> span t 4096"
proof -
  assume "2 ^ 12 dvd unat t"
  moreover have "unat i < 512" using unsigned_less [of i] by simp
  ultimately show ?thesis using unat_slot(2) [of t] by (auto simp: span_slot span_iff)
qed

lemma tables_disjoint:
  assumes "2 ^ 12 dvd unat t" and "2 ^ 12 dvd unat u" and "t \<noteq> u"
  shows "span t 4096 \<inter> span u 4096 = {}"
proof -
  obtain k l where "unat t = 4096 * k" "unat u = 4096 * l" using assms(1,2) by (auto simp: dvd_def)
  moreover then have "k \<noteq> l" using assms(3) by (auto simp: word_unat_eq_iff)
  ultimately show ?thesis
    using unat_slot(2) [OF assms(1)] unat_slot(2) [OF assms(2)] by (auto simp: span_iff)
qed

lemma slots_apart:
  assumes "2 ^ 12 dvd unat t" and "2 ^ 12 dvd unat u" and "t \<noteq> u \<or> i \<noteq> j"
  shows "apart64 (slot t i) (slot u j)"
proof (cases "t = u")
  case True
  then have "unat i \<noteq> unat j" using assms(3) by (auto simp: word_unat_eq_iff)
  then show ?thesis using assms by (auto simp: apart64_def span_slot True)
next
  case False
  then show ?thesis
    using tables_disjoint [OF assms(1,2)] slot_in_table [OF assms(1)] slot_in_table [OF assms(2)]
    by (fastforce simp: apart64_def)
qed

lemma load64_zero:
  assumes "\<And>x. x \<in> span a 8 \<Longrightarrow> m x = 0"
  shows "load64 m a = 0"
proof -
  have "load64 m a = load64 (\<lambda>_. 0) a" by (rule load64_cong) (rule assms)
  also have "\<dots> = 0" by (simp add: load64_def load_bytes_def at_def upt_rec numeral_eq_Suc)
  finally show ?thesis .
qed

lemma entry_update_simps [simp]:
  "column_counter (entry_update t i f s) = column_counter s"
  "foreground (entry_update t i f s) = foreground s"
  "background (entry_update t i f s) = background s"
  "pt_it (entry_update t i f s) = pt_it s" "cr3 (entry_update t i f s) = cr3 s"
  "trace (entry_update t i f s) = trace s"
  by (simp_all add: entry_update_def)

lemma entry_update_out: "x \<notin> span (slot t i) 8 \<Longrightarrow> mem (entry_update t i f s) x = mem s x"
  by (simp add: entry_update_def store64_out)

lemma entry_update_same: "entry (entry_update t i f s) t i = f (entry s t i)"
  by (simp add: entry_update_def)

lemma entry_update_apart:
  "apart64 (slot t i) (slot u j) \<Longrightarrow> entry (entry_update t i f s) u j = entry s u j"
  by (simp add: entry_update_def qwords.get_put_apart)

section \<open>The tree of tables\<close>

text \<open>
  A path lists indices, the innermost first. \<open>pte m p\<close> is the entry at the path \<open>p\<close> (0 where
  there is no table), and \<open>table_of m p\<close> the table that the entry at \<open>p\<close> points to.
\<close>

definition link :: "u64 \<Rightarrow> u64 option" where
  "link e = (if present e \<and> \<not> huge_page e then Some (GET_PTE_ADDRESS e) else None)"

primrec table_of :: "mem \<Rightarrow> index list \<Rightarrow> u64 option" where
  "table_of m [] = Some p4table"
| "table_of m (i # p) = Option.bind (table_of m p) (\<lambda>t. link (load64 m (slot t i)))"

fun pte :: "mem \<Rightarrow> index list \<Rightarrow> u64" where
  "pte m [] = 0"
| "pte m (i # p) = (case table_of m p of None \<Rightarrow> 0 | Some t \<Rightarrow> load64 m (slot t i))"

lemma link_0 [simp]: "link 0 = None"
  by (simp add: link_def)

lemma table_of_pte: "table_of m (i # p) = link (pte m (i # p))"
  by (cases "table_of m p") simp_all

text \<open>
  The invariant: the tables reachable along paths of at most three indices are pairwise different
  pages between the first table and the watermark, which stays below \<open>pt_limit\<close>.
\<close>

definition pt_limit :: nat where "pt_limit = 0x60000"

definition tables_ok :: "mem \<Rightarrow> u64 \<Rightarrow> bool" where
  "tables_ok m it \<longleftrightarrow>
     (\<forall>p t. length p \<le> 3 \<and> table_of m p = Some t \<longrightarrow>
        2 ^ 12 dvd unat t \<and> 0x1000 \<le> unat t \<and> unat t + 4096 \<le> unat it) \<and>
     (\<forall>p q t. length p \<le> 3 \<and> length q \<le> 3 \<and> table_of m p = Some t \<and> table_of m q = Some t \<longrightarrow> p = q) \<and>
     2 ^ 12 dvd unat it \<and> unat it \<le> pt_limit"

lemma tables_okD:
  assumes "tables_ok m it" and "table_of m p = Some t" and "length p \<le> 3"
  shows "2 ^ 12 dvd unat t" and "0x1000 \<le> unat t" and "unat t + 4096 \<le> unat it"
  using assms unfolding tables_ok_def by blast+

lemma tables_ok_inj:
  assumes "tables_ok m it" and "table_of m p = Some t" and "table_of m q = Some t"
    and "length p \<le> 3" and "length q \<le> 3"
  shows "p = q"
  using assms unfolding tables_ok_def by blast

lemma tables_ok_it: "tables_ok m it \<Longrightarrow> 2 ^ 12 dvd unat it \<and> unat it \<le> pt_limit"
  by (simp add: tables_ok_def)

lemma tables_ok_subset:
  assumes "tables_ok m it"
    and "\<And>q u. table_of m' q = Some u \<Longrightarrow> length q \<le> 3 \<Longrightarrow> table_of m q = Some u"
  shows "tables_ok m' it"
  using assms unfolding tables_ok_def by blast

text \<open>
  One entry changes: the entry \<open>i\<close> of the table at \<open>p\<close> becomes \<open>e\<close>, every other entry of
  every table keeps its value. Everything off the path \<open>i # p\<close> is then as before.
\<close>

definition one_entry :: "index \<Rightarrow> index list \<Rightarrow> u64 \<Rightarrow> mem \<Rightarrow> mem \<Rightarrow> bool" where
  "one_entry i p e m m' \<longleftrightarrow>
     (\<forall>q t j. length q \<le> 3 \<and> table_of m q = Some t \<longrightarrow>
        load64 m' (slot t j) = (if q = p \<and> j = i then e else load64 m (slot t j)))"

lemma one_entry_pte:
  assumes "one_entry i p e m m'" and "length q \<le> 4" and "\<not> suffix (i # p) q"
  shows "pte m' q = pte m q \<and> (length q \<le> 3 \<longrightarrow> table_of m' q = table_of m q)"
  using assms(2,3)
proof (induction q)
  case Nil
  then show ?case by simp
next
  case (Cons j r)
  have r: "\<not> suffix (i # p) r" using Cons.prems(2) by (auto simp: suffix_Cons)
  then have IH: "table_of m' r = table_of m r" using Cons by simp
  have "load64 m' (slot t j) = load64 m (slot t j)" if "table_of m r = Some t" for t
proof -
    have "length r \<le> 3" "\<not> (r = p \<and> j = i)" using Cons.prems by auto
    then show ?thesis using assms(1) that unfolding one_entry_def by presburger
  qed
  then have "pte m' (j # r) = pte m (j # r)" using IH by (cases "table_of m r") simp_all
  then show ?case by (simp only: table_of_pte simp_thms)
qed

lemma one_entry_at:
  assumes "one_entry i p e m m'" and "table_of m p = Some t" and "length p \<le> 3"
  shows "pte m' (i # p) = e"
proof -
  have "\<not> suffix (i # p) p" by (auto dest: suffix_length_le)
  then have "table_of m' p = Some t" using one_entry_pte [OF assms(1), of p] assms(2,3) by simp
  moreover have "load64 m' (slot t i) = e"
    using assms unfolding one_entry_def by presburger
  ultimately show ?thesis by simp
qed

text \<open>When the new entry points to no table, what was below it is gone.\<close>

lemma no_link_below:
  assumes "link (pte m r) = None" and "r \<noteq> []" and "suffix r q"
  shows "table_of m q = None \<and> (q \<noteq> r \<longrightarrow> pte m q = 0)"
  using assms(3)
proof (induction q)
  case Nil
  then show ?case using assms(2) by simp
next
  case (Cons j q)
  show ?case
  proof (cases "j # q = r")
    case True
    have "table_of m (j # q) = link (pte m r)" unfolding True [symmetric] by (rule table_of_pte)
    then show ?thesis using assms(1) True by simp
  next
    case False
    then have "suffix r q" using Cons.prems by (auto simp: suffix_Cons)
    then show ?thesis using Cons.IH by simp
  qed
qed

lemma one_entry_no_link:
  assumes one: "one_entry i p e m m'" and t: "table_of m p = Some t" "length p \<le> 3"
    and e: "link e = None" and ok: "tables_ok m it"
  shows "tables_ok m' it \<and> (\<forall>q. length q \<le> 4 \<longrightarrow>
    pte m' q = (if q = i # p then e else if suffix (i # p) q then 0 else pte m q))"
proof -
  have at: "pte m' (i # p) = e" by (rule one_entry_at [OF one t])
  note off = one_entry_pte [OF one]
  have below: "table_of m' q = None" "q \<noteq> i # p \<Longrightarrow> pte m' q = 0" if "suffix (i # p) q" for q
    using no_link_below [of m' "i # p" q] that e at by auto
  have tab: "table_of m q = Some u" if "table_of m' q = Some u" "length q \<le> 3" for q u
    using below(1) [of q] off [of q] that by (cases "suffix (i # p) q") auto
  have "tables_ok m' it"
    using ok tab unfolding tables_ok_def by blast
  then show ?thesis using at off below(2) by auto
qed

text \<open>A leaf entry at level 1 may look like a link, but no table is looked up below it.\<close>

lemma one_entry_leaf:
  assumes one: "one_entry i p e m m'" and t: "table_of m p = Some t" "length p = 3"
    and ok: "tables_ok m it"
  shows "tables_ok m' it \<and> (\<forall>q. length q \<le> 4 \<longrightarrow> pte m' q = (if q = i # p then e else pte m q))"
proof -
  note off = one_entry_pte [OF one]
  have long: "q = i # p" if "suffix (i # p) q" "length q \<le> 4" for q
    using that t(2) by (auto elim!: suffixE)
  have "table_of m' q = table_of m q" if "length q \<le> 3" for q
  proof -
    have "\<not> suffix (i # p) q" using that t(2) by (auto dest: suffix_length_le)
    then show ?thesis using off [of q] that by simp
  qed
  then have "tables_ok m' it" by (intro tables_ok_subset [OF ok]) simp
  moreover have "pte m' q = (if q = i # p then e else pte m q)" if "length q \<le> 4" for q
    using off [OF that] long [OF _ that] one_entry_at [OF one t(1)] t(2) by auto
  ultimately show ?thesis by blast
qed

section \<open>What the tables occupy\<close>

definition in_tables :: "mem \<Rightarrow> u64 \<Rightarrow> bool" where
  "in_tables m x \<longleftrightarrow> (\<exists>p t. length p \<le> 3 \<and> table_of m p = Some t \<and> x \<in> span t 4096)"

definition fresh :: "machine \<Rightarrow> machine \<Rightarrow> u64 \<Rightarrow> bool" where
  "fresh s s' x \<longleftrightarrow> unat (pt_it s) \<le> unat x \<and> unat x < unat (pt_it s')"

text \<open>
  What a mapping operation may change: tables that were reachable, and memory between the old and
  the new watermark, which is also the only memory new tables come from.
\<close>

definition paging_step :: "machine \<Rightarrow> machine \<Rightarrow> bool" where
  "paging_step s s' \<longleftrightarrow> column_counter s' = column_counter s \<and> foreground s' = foreground s \<and>
     background s' = background s \<and> cr3 s' = cr3 s \<and> trace s' = trace s \<and>
     unat (pt_it s) \<le> unat (pt_it s') \<and>
     (\<forall>x. in_tables (mem s') x \<longrightarrow> in_tables (mem s) x \<or> fresh s s' x) \<and>
     (\<forall>x. \<not> in_tables (mem s) x \<and> \<not> fresh s s' x \<longrightarrow> mem s' x = mem s x)"

lemma paging_step_refl [simp]: "paging_step s s"
  by (simp add: paging_step_def)

lemma paging_step_trans:
  assumes "paging_step s t" and "paging_step t u"
  shows "paging_step s u"
proof -
  have fr: "fresh s u x \<longleftrightarrow> fresh s t x \<or> fresh t u x" for x
    using assms unfolding paging_step_def fresh_def by auto
  show ?thesis
    unfolding paging_step_def
  proof (intro conjI allI impI)
    show "in_tables (mem s) x \<or> fresh s u x" if "in_tables (mem u) x" for x
      using that assms fr unfolding paging_step_def by blast
    show "mem u x = mem s x" if "\<not> in_tables (mem s) x \<and> \<not> fresh s u x" for x
      using that assms fr unfolding paging_step_def by auto
  qed (use assms in \<open>auto simp: paging_step_def\<close>)
qed

text \<open>Memory that changes outside the tables only leaves the tree as it is.\<close>

lemma tables_frame:
  assumes ok: "tables_ok m it" and same: "\<And>x. in_tables m x \<Longrightarrow> m' x = m x" and "length q \<le> 4"
  shows "table_of m' q = table_of m q" and "pte m' q = pte m q"
proof -
  have ld: "load64 m' (slot t j) = load64 m (slot t j)" if "table_of m q = Some t" "length q \<le> 3" for q t j
  proof (rule load64_cong)
    fix x
    assume "x \<in> span (slot t j) 8"
    then have "x \<in> span t 4096" using slot_in_table [OF tables_okD(1) [OF ok that]] by blast
    then show "m' x = m x" using that by (intro same) (auto simp: in_tables_def)
  qed
  have tab: "table_of m' q = table_of m q" if "length q \<le> 4" for q
    using that ld by (induction q) (auto split: option.split intro!: Option.bind_cong)
  then show "table_of m' q = table_of m q" using assms(3) .
  show "pte m' q = pte m q"
    using ld tab assms(3) by (cases q) (auto split: option.split)
qed

lemma tables_frame_ok:
  assumes "tables_ok m it" and "\<And>x. in_tables m x \<Longrightarrow> m' x = m x"
  shows "tables_ok m' it" and "in_tables m' = in_tables m"
proof -
  have tab: "table_of m' q = table_of m q" if "length q \<le> 3" for q
    using tables_frame(1) [OF assms] that by simp
  then show "tables_ok m' it" by (intro tables_ok_subset [OF assms(1)]) simp
  show "in_tables m' = in_tables m"
    unfolding in_tables_def fun_eq_iff using tab by (metis (no_types, lifting))
qed

lemma in_tables_below:
  assumes "tables_ok m it" and "in_tables m x"
  shows "0x1000 \<le> unat x" and "unat x < unat it"
proof -
  obtain p t where p: "length p \<le> 3" "table_of m p = Some t" "x \<in> span t 4096"
    using assms(2) by (auto simp: in_tables_def)
  note t = tables_okD [OF assms(1) p(2,1)]
  then show "0x1000 \<le> unat x" "unat x < unat it"
    using p(3) unat_lt_64 [of it] by (auto simp: span_iff)
qed

section \<open>Allocation\<close>

lemma new_page_table_run:
  assumes ok: "tables_ok (mem s) (pt_it s)" and room: "unat (pt_it s) + 4096 \<le> pt_limit"
  obtains s' where "new_page_table s = Some (pt_it s, s')" "paging_step s s'"
    "unat (pt_it s') = unat (pt_it s) + 4096" "tables_ok (mem s') (pt_it s)"
    "\<forall>q. length q \<le> 4 \<longrightarrow> pte (mem s') q = pte (mem s) q \<and> table_of (mem s') q = table_of (mem s) q"
    "\<forall>j. entry s' (pt_it s) j = 0"
    "mem s' = (\<lambda>x. if x \<in> span (pt_it s) 4096 then 0 else mem s x)"
proof -
  have it: "2 ^ 12 dvd unat (pt_it s)" using tables_ok_it [OF ok] by simp
  have it2: "unat (pt_it s + 4096) = unat (pt_it s) + 4096"
    using room unat_add_of_nat [of "pt_it s" 4096] by (simp add: pt_limit_def)
  define m' where "m' = (\<lambda>x. if x \<in> span (pt_it s) 4096 then 0 else mem s x)"
  define s' where "s' = s\<lparr>mem := m', pt_it := pt_it s + 4096\<rparr>"
  have "memset (mem s) (pt_it s) 0 4096 = Some m'"
    using memset_zero [of "pt_it s" 4096 "mem s"] room it2
    by (auto simp: m'_def pt_limit_def paint_def span_iff fun_eq_iff)
  then have run: "new_page_table s = Some (pt_it s, s')"
    by (simp add: new_page_table_def s'_def Let_def)
  have same: "mem s' x = mem s x" if "in_tables (mem s) x" for x
    using in_tables_below [OF ok that] room by (simp add: s'_def m'_def span_iff pt_limit_def)
  have "\<And>x. \<not> fresh s s' x \<Longrightarrow> mem s' x = mem s x"
    using room it2 by (auto simp: s'_def m'_def fresh_def span_iff pt_limit_def)
  then have "paging_step s s'"
    using it2 tables_frame_ok(2) [of "mem s" "pt_it s" "mem s'", OF ok same]
    unfolding paging_step_def by (simp add: s'_def)
  moreover have "entry s' (pt_it s) j = 0" for j
    using slot_in_table [OF it] by (intro load64_zero) (auto simp: s'_def m'_def)
  ultimately show ?thesis
    using that [OF run] it2 tables_frame [OF ok same] tables_frame_ok(1) [OF ok same]
    by (simp add: s'_def m'_def)
qed

lemma store64_store64 [simp]: "store64 (store64 m a v) a w = store64 m a w"
  by (rule ext) (simp add: store64_def store_bytes_apply)

lemma entry_update_fuse: "entry_update t i f (entry_update t i g s) = entry_update t i (\<lambda>e. f (g e)) s"
  by (simp add: entry_update_def)

lemma entry_update_one_entry:
  assumes ok: "tables_ok (mem s) it" and t: "table_of (mem s) p = Some t" "length p \<le> 3"
  shows "one_entry i p (f (entry s t i)) (mem s) (mem (entry_update t i f s))"
  unfolding one_entry_def
proof (intro allI impI)
  fix q u j
  assume q: "length q \<le> 3 \<and> table_of (mem s) q = Some u"
  show "entry (entry_update t i f s) u j = (if q = p \<and> j = i then f (entry s t i) else entry s u j)"
  proof (cases "q = p \<and> j = i")
    case True
    then show ?thesis using q t by (simp add: entry_update_same)
  next
    case False
    then have "t \<noteq> u \<or> i \<noteq> j" using tables_ok_inj [OF ok t(1), of q] q t(2) by auto
    then have "apart64 (slot t i) (slot u j)"
      using tables_okD(1) [OF ok] t q by (intro slots_apart) auto
    then show ?thesis unfolding if_not_P [OF False] by (rule entry_update_apart)
  qed
qed

lemma entry_update_step:
  assumes ok: "tables_ok (mem s) it" and t: "table_of (mem s) p = Some t" "length p \<le> 3"
    and sub: "\<And>x. in_tables (mem (entry_update t i f s)) x \<Longrightarrow> in_tables (mem s) x"
  shows "paging_step s (entry_update t i f s)"
proof -
  have "mem (entry_update t i f s) x = mem s x" if "\<not> in_tables (mem s) x" for x
  proof -
    have "x \<notin> span t 4096" using that t by (auto simp: in_tables_def)
    then show ?thesis using slot_in_table [OF tables_okD(1) [OF ok t]] by (blast intro: entry_update_out)
  qed
  then show ?thesis using sub unfolding paging_step_def by (simp add: entry_update_def)
qed

text \<open>
  Linking the page at the watermark, whose entries point to no further table: the tree gains one
  table, only the entry that points to it changes, and below it stand the page's entries.
\<close>

lemma link_table:
  assumes ok: "tables_ok (mem s) it" and t: "table_of (mem s) p = Some t" "length p \<le> 2"
    and e: "link (f (entry s t i)) = Some n"
    and n: "unat n = unat it" "\<And>j. link (entry s n j) = None"
    and it': "unat it' = unat it + 4096" "unat it' \<le> pt_limit"
  defines "s' \<equiv> entry_update t i f s"
  shows "tables_ok (mem s') it'" and "table_of (mem s') (i # p) = Some n"
    and "length q \<le> 4 \<Longrightarrow> \<not> suffix (i # p) q \<Longrightarrow> pte (mem s') q = pte (mem s) q"
    and "pte (mem s') (j # i # p) = entry s n j"
    and "suffix (i # p) q \<Longrightarrow> q \<noteq> i # p \<Longrightarrow> table_of (mem s') q = None"
    and "in_tables (mem s') x \<Longrightarrow> in_tables (mem s) x \<or> x \<in> span n 4096"
proof -
  have al: "2 ^ 12 dvd unat n" using n(1) tables_ok_it [OF ok] by simp
  have t3: "length p \<le> 3" using t(2) by simp
  have one: "one_entry i p (f (entry s t i)) (mem s) (mem s')"
    unfolding s'_def by (rule entry_update_one_entry [OF ok t(1) t3])
  note off = one_entry_pte [OF one]
  have at: "pte (mem s') (i # p) = f (entry s t i)" by (rule one_entry_at [OF one t(1) t3])
  show new: "table_of (mem s') (i # p) = Some n" unfolding table_of_pte at e ..
  have "n \<noteq> t" using tables_okD(3) [OF ok t(1) t3] n(1) by auto
  then have z: "entry s' n j = entry s n j" for j
    using slots_apart [OF tables_okD(1) [OF ok t(1) t3] al] by (simp add: s'_def entry_update_apart)
  then show first: "pte (mem s') (j # i # p) = entry s n j" for j using new by simp
  show below: "table_of (mem s') q = None" if "suffix (i # p) q" "q \<noteq> i # p" for q
    using that
  proof (induction q)
    case (Cons j q)
    then show ?case using new z n(2) by (cases "q = i # p") (auto simp: suffix_Cons)
  qed simp
  show "pte (mem s') q = pte (mem s) q" if "length q \<le> 4" "\<not> suffix (i # p) q" for q
    using off [OF that] by simp
  have tab: "q = i # p \<and> u = n \<or> table_of (mem s) q = Some u"
    if q: "length q \<le> 3" "table_of (mem s') q = Some u" for q u
  proof (cases "suffix (i # p) q")
    case True
    then have "q = i # p" using below q(2) by fastforce
    then show ?thesis using new q(2) by (simp del: table_of.simps)
  next
    case False
    then show ?thesis using off [of q] q by simp
  qed
  show "in_tables (mem s) x \<or> x \<in> span n 4096" if "in_tables (mem s') x" for x
    using that tab unfolding in_tables_def by blast
  have fresh_n: "table_of (mem s) q \<noteq> Some n" if "length q \<le> 3" for q
    using tables_okD(3) [OF ok _ that] n(1) by fastforce
  have i': "2 ^ 12 dvd unat it'" "unat it' \<le> pt_limit" using it' tables_ok_it [OF ok] by auto
  have low: "0x1000 \<le> unat n" using tables_okD(3) [OF ok t(1) t3] n(1) tables_okD(2) [OF ok t(1) t3] by linarith
  have "2 ^ 12 dvd unat u \<and> 0x1000 \<le> unat u \<and> unat u + 4096 \<le> unat it'"
    if q: "length q \<le> 3" "table_of (mem s') q = Some u" for q u
    using tab [OF q]
  proof
    assume "q = i # p \<and> u = n"
    then show ?thesis using al n(1) it'(1) low by simp
  next
    assume "table_of (mem s) q = Some u"
    from tables_okD [OF ok this q(1)] show ?thesis using it'(1) by simp
  qed
  moreover have "q = r" if "length q \<le> 3" "length r \<le> 3" "table_of (mem s') q = Some u"
    "table_of (mem s') r = Some u" for q r u
    using tab [OF that(1,3)] tab [OF that(2,4)] fresh_n that(1,2) tables_ok_inj [OF ok] by blast
  ultimately show "tables_ok (mem s') it'"
    using i' unfolding tables_ok_def by blast
qed

text \<open>When the page is zero and nothing was linked before, only the linking entry changes.\<close>

lemma link_new_table:
  assumes ok: "tables_ok (mem s) it" and t: "table_of (mem s) p = Some t" "length p \<le> 2"
    and none: "link (entry s t i) = None" and e: "link (f (entry s t i)) = Some n"
    and n: "unat n = unat it" "\<And>j. entry s n j = 0" and it': "unat it' = unat it + 4096" "unat it' \<le> pt_limit"
  defines "s' \<equiv> entry_update t i f s"
  shows "tables_ok (mem s') it'" and "table_of (mem s') (i # p) = Some n"
    and "length q \<le> 4 \<Longrightarrow> q \<noteq> i # p \<Longrightarrow> pte (mem s') q = pte (mem s) q"
    and "in_tables (mem s') x \<Longrightarrow> in_tables (mem s) x \<or> x \<in> span n 4096"
proof -
  have leafs: "link (entry s n j) = None" for j using n(2) by simp
  note new = link_table [where f = f, OF ok t e n(1) leafs it', folded s'_def]
  show "tables_ok (mem s') it'" "table_of (mem s') (i # p) = Some n"
    "in_tables (mem s') x \<Longrightarrow> in_tables (mem s) x \<or> x \<in> span n 4096"
    using new(1,2,6) by blast+
  have old: "pte (mem s) (i # p) = entry s t i" using t by simp
  show "pte (mem s') q = pte (mem s) q" if len: "length q \<le> 4" and ne: "q \<noteq> i # p" for q
  proof (cases "suffix (i # p) q")
    case True
    then obtain j r where q: "q = j # r" "suffix (i # p) r" using ne by (cases q) (auto simp: suffix_Cons)
    have "pte (mem s') q = 0"
      using new(4) [of j] new(5) [OF q(2)] n(2) q(1) by (cases "r = i # p") simp_all
    moreover have "pte (mem s) q = 0"
      using no_link_below [of "mem s" "i # p" q] none old True ne by auto
    ultimately show ?thesis by simp
  next
    case False
    then show ?thesis using new(3) len by blast
  qed
qed

lemma frame_watermark: "tables_ok m it \<Longrightarrow> frame it = it"
  using tables_ok_it [of m it] by (simp add: frame_fixed_iff pt_limit_def)

lemma next_table_run:
  assumes ok: "tables_ok (mem s) (pt_it s)" and t: "table_of (mem s) p = Some t" "length p \<le> 2"
    and huge: "\<not> huge_page (pte (mem s) (i # p))" and room: "unat (pt_it s) + 4096 \<le> pt_limit"
  obtains u s' where "next_table t i s = Some (u, s')" "tables_ok (mem s') (pt_it s')"
    "table_of (mem s') (i # p) = Some u" "paging_step s s'"
    "unat (pt_it s') \<le> unat (pt_it s) + 4096"
    "\<forall>q. length q \<le> 4 \<and> q \<noteq> i # p \<longrightarrow> pte (mem s') q = pte (mem s) q"
proof -
  have t3: "length p \<le> 3" using t(2) by simp
  have e: "pte (mem s) (i # p) = entry s t i" using t by simp
  show ?thesis
  proof (cases "present (entry s t i)")
    case True
    then have "link (entry s t i) = Some (GET_PTE_ADDRESS (entry s t i))"
      using huge e by (simp add: link_def)
    then have "table_of (mem s) (i # p) = Some (GET_PTE_ADDRESS (entry s t i))" using t by simp
    then show ?thesis using that [OF _ ok] True by (simp add: next_table_def)
  next
    case False
    obtain s1 where s1: "new_page_table s = Some (pt_it s, s1)" "paging_step s s1"
      "unat (pt_it s1) = unat (pt_it s) + 4096" "tables_ok (mem s1) (pt_it s)"
      "\<forall>q. length q \<le> 4 \<longrightarrow> pte (mem s1) q = pte (mem s) q \<and> table_of (mem s1) q = table_of (mem s) q"
      "\<forall>j. entry s1 (pt_it s) j = 0"
      "mem s1 = (\<lambda>x. if x \<in> span (pt_it s) 4096 then 0 else mem s x)"
      by (rule new_page_table_run [OF ok room])
    define f where "f = (\<lambda>e. set_writable (set_present (SET_PTE_ADDRESS (pt_it s) e)))"
    define s' where "s' = entry_update t i f s1"
    have t1: "table_of (mem s1) p = Some t" using s1(5) t by simp
    have e1: "entry s1 t i = entry s t i" using spec [OF s1(5), of "i # p"] t t1 by simp
    have run: "next_table t i s = Some (pt_it s, s')"
      using False s1(1) by (simp add: next_table_def entry_update_fuse s'_def f_def Let_def)
    have none: "link (entry s1 t i) = None" using False e1 by (simp add: link_def)
    have fe: "link (f (entry s1 t i)) = Some (pt_it s)"
    proof -
      have "GET_PTE_ADDRESS (f x) = GET_PTE_ADDRESS (SET_PTE_ADDRESS (pt_it s) x)" for x
        by (rule bit_word_eqI) (auto simp: f_def bit_GET bit_flag)
      then show ?thesis
        using huge e e1 frame_watermark [OF ok] by (simp add: link_def f_def GET_SET)
    qed
    have lim: "unat (pt_it s1) \<le> pt_limit" using s1(3) room by simp
    note new = link_new_table [where f = f, OF s1(4) t1 t(2) none fe refl spec [OF s1(6)] s1(3) lim, folded s'_def]
    have it: "pt_it s' = pt_it s1" by (simp add: s'_def)
    have sp: "x \<in> span (pt_it s) 4096 \<longleftrightarrow> fresh s s1 x" for x
      using room s1(3) by (simp add: fresh_def span_iff pt_limit_def)
    have "x \<in> span t 4096 \<Longrightarrow> in_tables (mem s) x" for x using t(1) t3 by (auto simp: in_tables_def)
    then have "mem s' x = mem s1 x" if "\<not> in_tables (mem s) x" for x
      using that slot_in_table [OF tables_okD(1) [OF ok t(1) t3]] unfolding s'_def
      by (blast intro: entry_update_out)
    moreover have "in_tables (mem s1) x \<longleftrightarrow> in_tables (mem s) x" for x
    proof -
      have "table_of (mem s1) q = table_of (mem s) q" if "length q \<le> 3" for q
        using s1(5) that by simp
      then show ?thesis by (simp add: in_tables_def cong: conj_cong)
    qed
    ultimately have "paging_step s s'"
      using s1(2) new(4) unfolding paging_step_def it sp fresh_def
      by (simp add: s'_def entry_update_def) 
    then show ?thesis
      using that [OF run] new(1-3) it s1(3,5) by simp
  qed
qed

section \<open>The translation as a function of the tree\<close>

definition walk_tree :: "(index list \<Rightarrow> u64) \<Rightarrow> u64 \<Rightarrow> u64 option" where
  "walk_tree f va =
     (let i4 = l4_index va; i3 = l3_index va; i2 = l2_index va; i1 = l1_index va in
      if \<not> present (f [i4]) \<or> huge_page (f [i4]) then None
      else if \<not> present (f [i3, i4]) then None
      else if huge_page (f [i3, i4]) then Some ((f [i3, i4] AND 0x000FFFFFC0000000) OR take_bit 30 va)
      else if \<not> present (f [i2, i3, i4]) then None
      else if huge_page (f [i2, i3, i4])
        then Some ((f [i2, i3, i4] AND 0x000FFFFFFFE00000) OR take_bit 21 va)
      else if \<not> present (f [i1, i2, i3, i4]) then None
      else Some (frame (f [i1, i2, i3, i4]) OR take_bit 12 va))"

lemma link_frame:
  assumes ok: "tables_ok m it" and t: "table_of m p = Some t" "length p \<le> 2"
    and e: "present (load64 m (slot t i))" "\<not> huge_page (load64 m (slot t i))"
  shows "table_of m (i # p) = Some (frame (load64 m (slot t i)))"
proof -
  let ?e = "load64 m (slot t i)"
  have tab: "table_of m (i # p) = Some (GET_PTE_ADDRESS ?e)" using t(1) e by (simp add: link_def)
  have len: "length (i # p) \<le> 3" using t(2) by simp
  have "unat (GET_PTE_ADDRESS ?e) < 2 ^ 52"
    using tables_okD(3) [OF ok tab len] tables_ok_it [OF ok] by (simp add: pt_limit_def)
  with tables_okD(1) [OF ok tab len]
  have "frame (GET_PTE_ADDRESS ?e) = GET_PTE_ADDRESS ?e" by (simp add: frame_fixed_iff)
  then have "frame ?e = GET_PTE_ADDRESS ?e"
    by (intro bit_word_eqI) (auto simp: frame_fixed_bits bit_frame bit_GET)
  then show ?thesis using tab by simp
qed

lemma walk_pte:
  assumes ok: "tables_ok m it"
  shows "walk m p4table va = walk_tree (pte m) va"
proof -
  let ?i4 = "l4_index va" and ?i3 = "l3_index va" and ?i2 = "l2_index va" and ?i1 = "l1_index va"
  define e4 where "e4 = load64 m (slot p4table ?i4)"
  define e3 where "e3 = load64 m (slot (frame e4) ?i3)"
  define e2 where "e2 = load64 m (slot (frame e3) ?i2)"
  have 4: "pte m [?i4] = e4" by (simp add: e4_def)
  have t4: "table_of m [?i4] = Some (frame e4)" if "present e4" "\<not> huge_page e4"
    using link_frame [OF ok, of "[]"] that unfolding e4_def by simp
  have t3: "table_of m [?i3, ?i4] = Some (frame e3)"
    if "present e4" "\<not> huge_page e4" "present e3" "\<not> huge_page e3"
    using link_frame [OF ok t4] that unfolding e3_def by simp
  have t2: "table_of m [?i2, ?i3, ?i4] = Some (frame e2)"
    if "present e4" "\<not> huge_page e4" "present e3" "\<not> huge_page e3" "present e2" "\<not> huge_page e2"
    using link_frame [OF ok t3] that unfolding e2_def by simp
  have p3: "pte m [?i3, ?i4] = e3" if "present e4" "\<not> huge_page e4"
    using t4 that by (simp add: e3_def del: table_of.simps)
  have p2: "pte m [?i2, ?i3, ?i4] = e2" if "present e4" "\<not> huge_page e4" "present e3" "\<not> huge_page e3"
    using t3 that by (simp add: e2_def del: table_of.simps)
  have p1: "pte m [?i1, ?i2, ?i3, ?i4] = load64 m (slot (frame e2) ?i1)"
    if "present e4" "\<not> huge_page e4" "present e3" "\<not> huge_page e3" "present e2" "\<not> huge_page e2"
    using t2 that by (simp del: table_of.simps)
  show ?thesis
    unfolding walk_def walk_tree_def Let_def
    unfolding e4_def [symmetric] e3_def [symmetric] e2_def [symmetric]
    using 4 p3 p2 p1 by (simp del: pte.simps cong: if_cong)
qed

lemma walk_tree_cong:
  "(\<And>q. length q \<le> 4 \<Longrightarrow> f' q = f q) \<Longrightarrow> walk_tree f' va = walk_tree f va"
  by (simp add: walk_tree_def Let_def)

lemma walk_frame:
  assumes "tables_ok m it" and "\<And>x. in_tables m x \<Longrightarrow> m' x = m x"
  shows "walk m' p4table va = walk m p4table va"
proof -
  have "walk m' p4table va = walk_tree (pte m') va"
    by (rule walk_pte) (rule tables_frame_ok(1) [OF assms])
  also have "\<dots> = walk_tree (pte m) va"
    by (rule walk_tree_cong) (rule tables_frame(2) [OF assms])
  also have "\<dots> = walk m p4table va" by (rule walk_pte [OF assms(1), symmetric])
  finally show ?thesis .
qed

text \<open>The entries that a mapping walks through.\<close>

lemma pte_no_table: "q \<noteq> [] \<Longrightarrow> link (pte m q) = None \<Longrightarrow> pte m (i # q) = 0"
  using no_link_below [of m q "i # q"] by (simp add: suffix_Cons)

definition page_path :: "u64 \<Rightarrow> index list" where
  "page_path va = [l1_index va, l2_index va, l3_index va, l4_index va]"

definition huge_path :: "u64 \<Rightarrow> index list" where
  "huge_path va = [l2_index va, l3_index va, l4_index va]"

lemma suffix_page_path:
  "suffix [w] (page_path va) \<longleftrightarrow> w = l4_index va"
  "suffix [v, w] (page_path va) \<longleftrightarrow> v = l3_index va \<and> w = l4_index va"
  "suffix [u, v, w] (page_path va) \<longleftrightarrow> [u, v, w] = huge_path va"
  "suffix [x, u, v, w] (page_path va) \<longleftrightarrow> [x, u, v, w] = page_path va"
  "suffix (huge_path va) [w] \<longleftrightarrow> False" "suffix (huge_path va) [v, w] \<longleftrightarrow> False"
  "suffix (huge_path va) [u, v, w] \<longleftrightarrow> [u, v, w] = huge_path va"
  "suffix (huge_path va) [x, u, v, w] \<longleftrightarrow> [u, v, w] = huge_path va"
  by (auto simp: page_path_def huge_path_def suffix_Cons)

text \<open>
  An entry on the mapped path is a table afterwards; before it was no huge page, and when it was
  absent there was nothing below it.
\<close>

definition became_table :: "(index list \<Rightarrow> u64) \<Rightarrow> (index list \<Rightarrow> u64) \<Rightarrow> index list \<Rightarrow> bool" where
  "became_table f f' q \<longleftrightarrow> present (f' q) \<and> \<not> huge_page (f' q) \<and> \<not> huge_page (f q) \<and>
     (\<not> present (f q) \<longrightarrow> (\<forall>i. f (i # q) = 0))"

lemma walk_tree_other_huge:
  assumes off: "\<And>q. length q \<le> 4 \<Longrightarrow> q \<noteq> [] \<Longrightarrow> \<not> suffix q (page_path va) \<Longrightarrow> \<not> suffix (huge_path va) q \<Longrightarrow>
      f' q = f q"
    and on: "became_table f f' [l4_index va]" "became_table f f' [l3_index va, l4_index va]"
    and other: "huge_path va' \<noteq> huge_path va"
  shows "walk_tree f' va' = walk_tree f va'"
proof -
  let ?b = "l2_index va" and ?c = "l3_index va" and ?d = "l4_index va"
  let ?a' = "l1_index va'" and ?b' = "l2_index va'" and ?c' = "l3_index va'" and ?d' = "l4_index va'"
  have ne: "[?b', ?c', ?d'] \<noteq> huge_path va" using other by (auto simp: huge_path_def)
  have same: "f' [?d'] = f [?d']" if "?d' \<noteq> ?d"
    using that by (intro off) (simp_all add: suffix_page_path)
  have same3: "f' [?c', ?d'] = f [?c', ?d']" if "\<not> (?c' = ?c \<and> ?d' = ?d)"
    using that by (intro off) (simp_all add: suffix_page_path)
  have same2: "f' [?b', ?c', ?d'] = f [?b', ?c', ?d']"
    using ne by (intro off) (simp_all add: suffix_page_path)
  have same1: "f' [?a', ?b', ?c', ?d'] = f [?a', ?b', ?c', ?d']"
    using ne by (intro off) (simp_all only: suffix_page_path, auto simp: page_path_def huge_path_def)
  consider "?d' \<noteq> ?d" | "?d' = ?d" "?c' \<noteq> ?c" | "?d' = ?d" "?c' = ?c" by blast
  then show ?thesis
  proof cases
    case 1
    then show ?thesis using same same3 same2 same1 by (simp add: walk_tree_def Let_def)
  next
    case 2
    then show ?thesis
      using same3 same2 same1 on(1) by (auto simp: walk_tree_def Let_def became_table_def)
  next
    case 3
    then show ?thesis using same2 same1 on by (auto simp: walk_tree_def Let_def became_table_def)
  qed
qed

lemma walk_tree_same_huge:
  assumes "huge_path va' = huge_path va"
    and "f' (l1_index va' # huge_path va) = f (l1_index va' # huge_path va)"
    and "became_table f f' [l4_index va]" "became_table f f' [l3_index va, l4_index va]"
      "became_table f f' (huge_path va)"
  shows "walk_tree f' va' = walk_tree f va'"
  using assms by (auto simp: walk_tree_def Let_def became_table_def huge_path_def)

lemma table_of_SomeD:
  assumes "table_of m (i # p) = Some t"
  shows "present (pte m (i # p))" "\<not> huge_page (pte m (i # p))" "\<exists>u. table_of m p = Some u"
  using assms by (cases "table_of m p"; auto simp: link_def split: if_splits)+

lemma next_table_present:
  assumes "tables_ok (mem s) it" and "table_of (mem s) p = Some t" and "table_of (mem s) (i # p) = Some u"
  shows "next_table t i s = Some (u, s)"
proof -
  have "pte (mem s) (i # p) = entry s t i" using assms(2) by simp
  then have "link (entry s t i) = Some u" using assms(3) by (simp add: table_of_pte del: table_of.simps)
  then show ?thesis by (auto simp: next_table_def link_def split: if_splits)
qed

section \<open>Mapping a page\<close>

declare pte.simps(2) [simp del] table_of.simps(2) [simp del]

text \<open>No huge page is in the way of mapping a page at \<open>va\<close>.\<close>

definition mappable :: "mem \<Rightarrow> u64 \<Rightarrow> bool" where
  "mappable m va \<longleftrightarrow> \<not> huge_page (pte m [l4_index va]) \<and>
     \<not> huge_page (pte m [l3_index va, l4_index va]) \<and> \<not> huge_page (pte m (huge_path va))"

text \<open>The first two levels, common to both page sizes.\<close>

lemma descend_run:
  assumes ok: "tables_ok (mem s) (pt_it s)" and room: "unat (pt_it s) + 8192 \<le> pt_limit"
    and huge: "\<not> huge_page (pte (mem s) [l4_index va])" "\<not> huge_page (pte (mem s) [l3_index va, l4_index va])"
  obtains t3 s1 t2 s2 where "next_table p4table (l4_index va) s = Some (t3, s1)"
    "next_table t3 (l3_index va) s1 = Some (t2, s2)" "tables_ok (mem s2) (pt_it s2)"
    "table_of (mem s2) [l3_index va, l4_index va] = Some t2" "paging_step s s2"
    "unat (pt_it s2) \<le> unat (pt_it s) + 8192"
    "\<forall>q. length q \<le> 4 \<and> q \<noteq> [l4_index va] \<and> q \<noteq> [l3_index va, l4_index va] \<longrightarrow>
      pte (mem s2) q = pte (mem s) q"
proof -
  have root: "table_of (mem s) [] = Some p4table" by simp
  have room1: "unat (pt_it s) + 4096 \<le> pt_limit" using room by simp
  obtain t3 s1 where 1: "next_table p4table (l4_index va) s = Some (t3, s1)"
    "tables_ok (mem s1) (pt_it s1)" "table_of (mem s1) [l4_index va] = Some t3" "paging_step s s1"
    "unat (pt_it s1) \<le> unat (pt_it s) + 4096"
    "\<forall>q. length q \<le> 4 \<and> q \<noteq> [l4_index va] \<longrightarrow> pte (mem s1) q = pte (mem s) q"
    by (rule next_table_run [OF ok root _ huge(1) room1]) simp
  have room2: "unat (pt_it s1) + 4096 \<le> pt_limit" using room 1(5) by simp
  have h2: "\<not> huge_page (pte (mem s1) [l3_index va, l4_index va])" using 1(6) huge(2) by simp
  obtain t2 s2 where 2: "next_table t3 (l3_index va) s1 = Some (t2, s2)"
    "tables_ok (mem s2) (pt_it s2)" "table_of (mem s2) [l3_index va, l4_index va] = Some t2"
    "paging_step s1 s2" "unat (pt_it s2) \<le> unat (pt_it s1) + 4096"
    "\<forall>q. length q \<le> 4 \<and> q \<noteq> [l3_index va, l4_index va] \<longrightarrow> pte (mem s2) q = pte (mem s1) q"
    by (rule next_table_run [OF 1(2,3) _ h2 room2]) simp
  show ?thesis
    using that [OF 1(1) 2(1,2,3) paging_step_trans [OF 1(4) 2(4)]] 1(5,6) 2(5,6) by simp
qed

lemma became_tableI:
  assumes "present (pte m' q)" "\<not> huge_page (pte m' q)" "\<not> huge_page (pte m q)" "q \<noteq> []"
  shows "became_table (pte m) (pte m') q"
  using assms pte_no_table [of q m] by (auto simp: became_table_def link_def)

definition leaf :: "u64 \<Rightarrow> u64" where
  "leaf pa = set_writable (set_present (SET_PTE_ADDRESS pa 0))"

lemma leaf_simps [simp]: "present (leaf pa)" "\<not> huge_page (leaf pa)"
  by (simp_all add: leaf_def)

lemma frame_leaf: "frame pa = pa \<Longrightarrow> frame (leaf pa) = pa"
  by (rule bit_word_eqI) (auto simp: frame_fixed_bits leaf_def bit_frame bit_flag bit_SET)

lemma page_path_huge: "page_path va = l1_index va # huge_path va"
  by (simp add: page_path_def huge_path_def)

text \<open>
  The effect on the tree: the entries on the way are tables, the last one is \<open>e\<close>, and nothing else
  has changed.
\<close>

definition mapped_tree :: "u64 \<Rightarrow> u64 \<Rightarrow> (index list \<Rightarrow> u64) \<Rightarrow> (index list \<Rightarrow> u64) \<Rightarrow> bool" where
  "mapped_tree va e f f' \<longleftrightarrow> f' (page_path va) = e \<and>
     became_table f f' [l4_index va] \<and> became_table f f' [l3_index va, l4_index va] \<and>
     became_table f f' (huge_path va) \<and>
     (\<forall>q. length q \<le> 4 \<and> q \<noteq> [l4_index va] \<and> q \<noteq> [l3_index va, l4_index va] \<and> q \<noteq> huge_path va \<and>
        q \<noteq> page_path va \<longrightarrow> f' q = f q)"

lemma walk_tree_mapped:
  assumes map: "mapped_tree va (leaf pa) f f'" and pa: "frame pa = pa"
  shows "walk_tree f' va' = (if page_path va' = page_path va
    then Some (pa OR take_bit 12 va') else walk_tree f va')"
proof -
  note on = map [unfolded mapped_tree_def]
  consider "page_path va' = page_path va" | "huge_path va' \<noteq> huge_path va"
    | "huge_path va' = huge_path va" "l1_index va' \<noteq> l1_index va" by (auto simp: page_path_huge)
  then show ?thesis
  proof cases
    case 1
    then have i: "l1_index va' = l1_index va" "l2_index va' = l2_index va" "l3_index va' = l3_index va"
      "l4_index va' = l4_index va" by (simp_all add: page_path_def)
    show ?thesis
      using 1 on frame_leaf [OF pa]
      by (simp add: walk_tree_def Let_def became_table_def i page_path_def huge_path_def)
  next
    case 2
    have "walk_tree f' va' = walk_tree f va'"
    proof (rule walk_tree_other_huge [OF _ _ _ 2])
      fix q :: "index list"
      assume q: "length q \<le> 4" "\<not> suffix q (page_path va)"
      have "suffix [l4_index va] (page_path va)" "suffix [l3_index va, l4_index va] (page_path va)"
        "suffix (huge_path va) (page_path va)" by (auto simp: page_path_def huge_path_def suffix_Cons)
      then show "f' q = f q" using q on by auto
    qed (use on in blast)+
    then show ?thesis using 2 by (simp add: page_path_huge)
  next
    case 3
    then have "f' (l1_index va' # huge_path va) = f (l1_index va' # huge_path va)"
      using on by (simp add: huge_path_def page_path_def)
    then have "walk_tree f' va' = walk_tree f va'" using 3(1) on by (blast intro: walk_tree_same_huge)
    then show ?thesis using 3 by (simp add: page_path_huge)
  qed
qed

lemma mappable_mapped:
  assumes map: "mapped_tree va e (pte m) (pte m')" and va': "mappable m va'"
  shows "mappable m' va'"
proof -
  have "\<not> huge_page (pte m' q)" if "\<not> huge_page (pte m q)" "length q \<le> 3" for q
  proof -
    have "q \<noteq> page_path va" using that(2) by (auto simp: page_path_def)
    then have "q = [l4_index va] \<or> q = [l3_index va, l4_index va] \<or> q = huge_path va \<or> pte m' q = pte m q"
      using le_trans [OF that(2), of 4] map unfolding mapped_tree_def by simp blast
    then show ?thesis using that(1) map unfolding mapped_tree_def became_table_def by metis
  qed
  then show ?thesis using va' by (simp add: mappable_def huge_path_def)
qed

lemma mapped_walk:
  assumes "tables_ok (mem s) it" and "tables_ok (mem s') it'" and "frame pa = pa"
    and "mapped_tree va (leaf pa) (pte (mem s)) (pte (mem s'))"
  shows "walk (mem s') p4table va' = (if page_path va' = page_path va
    then Some (pa OR take_bit 12 va') else walk (mem s) p4table va')"
  using walk_tree_mapped [OF assms(4,3)] walk_pte [OF assms(1)] walk_pte [OF assms(2)] by simp

text \<open>The last entry, in a table that exists.\<close>

lemma leaf_run:
  assumes ok: "tables_ok (mem s) (pt_it s)" and t: "table_of (mem s) (huge_path va) = Some t"
    and s': "s' = entry_update t (l1_index va) (\<lambda>_. leaf pa) s"
  shows "tables_ok (mem s') (pt_it s')" "paging_step s s'" "pt_it s' = pt_it s"
    "\<forall>q. length q \<le> 4 \<longrightarrow> pte (mem s') q = (if q = page_path va then leaf pa else pte (mem s) q)"
proof -
  show it: "pt_it s' = pt_it s" by (simp add: s')
  have len: "length (huge_path va) = 3" by (simp add: huge_path_def)
  have one: "one_entry (l1_index va) (huge_path va) (leaf pa) (mem s) (mem s')"
    unfolding s' using len by (intro entry_update_one_entry [OF ok t]) simp
  show "tables_ok (mem s') (pt_it s')"
    "\<forall>q. length q \<le> 4 \<longrightarrow> pte (mem s') q = (if q = page_path va then leaf pa else pte (mem s) q)"
    using one_entry_leaf [OF one t len ok] by (simp_all add: page_path_huge it)
  have tab: "table_of (mem s') q = table_of (mem s) q" if "length q \<le> 3" for q
  proof -
    have "\<not> suffix (l1_index va # huge_path va) q" using that len by (auto dest: suffix_length_le)
    then show ?thesis using one_entry_pte [OF one, of q] that by simp
  qed
  show "paging_step s s'"
    unfolding s' by (rule entry_update_step [OF ok t])
      (use len tab s' in \<open>simp_all add: in_tables_def cong: conj_cong\<close>)
qed

lemma map_4kb_run:
  assumes ok: "tables_ok (mem s) (pt_it s)" and room: "unat (pt_it s) + 12288 \<le> pt_limit"
    and pa: "frame pa = pa" and free: "mappable (mem s) va"
  shows "\<exists>s'. map_4kb_page va pa s = Some s' \<and> tables_ok (mem s') (pt_it s') \<and> paging_step s s' \<and>
    unat (pt_it s') \<le> unat (pt_it s) + 12288 \<and>
    (\<forall>va'. mappable (mem s) va' \<longrightarrow> mappable (mem s') va') \<and>
    (\<forall>va'. walk (mem s') p4table va' = (if page_path va' = page_path va
       then Some (pa OR take_bit 12 va') else walk (mem s) p4table va'))"
proof -
  let ?i2 = "l2_index va" and ?i3 = "l3_index va" and ?i4 = "l4_index va"
  have hp: "huge_path va = [?i2, ?i3, ?i4]" by (simp add: huge_path_def)
  have room2: "unat (pt_it s) + 8192 \<le> pt_limit" using room by simp
  have h: "\<not> huge_page (pte (mem s) [?i4])" "\<not> huge_page (pte (mem s) [?i3, ?i4])"
    "\<not> huge_page (pte (mem s) [?i2, ?i3, ?i4])" using free by (simp_all only: mappable_def hp simp_thms)
  obtain t3 s1 t2 s2 where d: "next_table p4table ?i4 s = Some (t3, s1)"
    "next_table t3 ?i3 s1 = Some (t2, s2)" "tables_ok (mem s2) (pt_it s2)"
    "table_of (mem s2) [?i3, ?i4] = Some t2" "paging_step s s2"
    "unat (pt_it s2) \<le> unat (pt_it s) + 8192"
    "\<forall>q. length q \<le> 4 \<and> q \<noteq> [?i4] \<and> q \<noteq> [?i3, ?i4] \<longrightarrow> pte (mem s2) q = pte (mem s) q"
    by (rule descend_run [OF ok room2 h(1,2)])
  have room3: "unat (pt_it s2) + 4096 \<le> pt_limit" using room d(6) by simp
  have h2: "\<not> huge_page (pte (mem s2) [?i2, ?i3, ?i4])" using d(7) h(3) by simp
  obtain t1 s3 where e: "next_table t2 ?i2 s2 = Some (t1, s3)" "tables_ok (mem s3) (pt_it s3)"
    "table_of (mem s3) [?i2, ?i3, ?i4] = Some t1" "paging_step s2 s3"
    "unat (pt_it s3) \<le> unat (pt_it s2) + 4096"
    "\<forall>q. length q \<le> 4 \<and> q \<noteq> [?i2, ?i3, ?i4] \<longrightarrow> pte (mem s3) q = pte (mem s2) q"
    by (rule next_table_run [OF d(3,4) _ h2 room3]) simp
  define s' where "s' = entry_update t1 (l1_index va) (\<lambda>_. leaf pa) s3"
  have run: "map_4kb_page va pa s = Some s'"
    using d(1,2) e(1) by (simp add: map_4kb_page_def entry_update_fuse s'_def leaf_def Let_def)
  note lf = leaf_run [OF e(2) e(3) [folded hp] s'_def]
  have tabs: "became_table (pte (mem s)) (pte (mem s')) q"
    if "q = i # r" "table_of (mem s3) q = Some u" "\<not> huge_page (pte (mem s) q)" "length q \<le> 3" for q i r u
  proof -
    have "pte (mem s') q = pte (mem s3) q" using lf(4) that(4) by (auto simp: page_path_def)
    then show ?thesis using that table_of_SomeD [of "mem s3" i r u] by (intro became_tableI) simp_all
  qed
  obtain u3 u4 where u: "table_of (mem s3) [?i3, ?i4] = Some u3" "table_of (mem s3) [?i4] = Some u4"
    using table_of_SomeD(3) e(3) by blast
  have "mapped_tree va (leaf pa) (pte (mem s)) (pte (mem s'))"
    unfolding mapped_tree_def hp
    using lf(4) e(6) d(7) tabs [OF _ u(2) h(1)] tabs [OF _ u(1) h(2)] tabs [OF _ e(3) h(3)]
    by (simp add: page_path_def)
  note mt = mapped_walk [OF ok lf(1) pa this] mappable_mapped [OF this]
  have "paging_step s s'" using d(5) e(4) lf(2) paging_step_trans by blast
  moreover have "unat (pt_it s') \<le> unat (pt_it s) + 12288" using d(6) e(5) lf(3) by simp
  ultimately show ?thesis using run lf(1) mt by blast
qed

lemma map_4kb_reuse:
  assumes ok: "tables_ok (mem s) (pt_it s)" and pa: "frame pa = pa"
    and t: "table_of (mem s) (huge_path va) = Some t"
  shows "\<exists>s'. map_4kb_page va pa s = Some s' \<and> tables_ok (mem s') (pt_it s') \<and> paging_step s s' \<and>
    pt_it s' = pt_it s \<and> (\<forall>va'. mappable (mem s) va' \<longrightarrow> mappable (mem s') va') \<and>
    (\<forall>va'. walk (mem s') p4table va' = (if page_path va' = page_path va
       then Some (pa OR take_bit 12 va') else walk (mem s) p4table va'))"
proof -
  have t1: "table_of (mem s) [l2_index va, l3_index va, l4_index va] = Some t" using t by (simp add: huge_path_def)
  obtain t2 t3 where t2: "table_of (mem s) [l3_index va, l4_index va] = Some t2"
    and t3: "table_of (mem s) [l4_index va] = Some t3" using table_of_SomeD(3) t1 by blast
  define s' where "s' = entry_update t (l1_index va) (\<lambda>_. leaf pa) s"
  have "next_table p4table (l4_index va) s = Some (t3, s)"
    by (rule next_table_present [OF ok _ t3]) simp
  then have run: "map_4kb_page va pa s = Some s'"
    using next_table_present [OF ok t3 t2] next_table_present [OF ok t2 t1]
    by (simp add: map_4kb_page_def entry_update_fuse s'_def leaf_def Let_def)
  note lf = leaf_run [OF ok t s'_def]
  have "mapped_tree va (leaf pa) (pte (mem s)) (pte (mem s'))"
    unfolding mapped_tree_def became_table_def
    using lf(4) table_of_SomeD [OF t1] table_of_SomeD [OF t2] table_of_SomeD [OF t3]
    by (simp add: page_path_def huge_path_def)
  note mt = mapped_walk [OF ok lf(1) pa this] mappable_mapped [OF this]
  then show ?thesis using run lf(1-3) by blast
qed

section \<open>Mapping a large page\<close>

definition huge_leaf :: "u64 \<Rightarrow> u64" where
  "huge_leaf pa = set_huge_page (leaf pa)"

lemma huge_leaf_simps [simp]: "present (huge_leaf pa)" "huge_page (huge_leaf pa)" "link (huge_leaf pa) = None"
  by (simp_all add: huge_leaf_def link_def)

lemma huge_leaf_2mb:
  assumes "frame pa = pa" and "2 ^ 21 dvd unat pa"
  shows "huge_leaf pa AND 0x000FFFFFFFE00000 = pa"
proof -
  have m: "(0x000FFFFFFFE00000 :: u64) = push_bit 21 (mask 31)" by (simp add: mask_eq_exp_minus_1)
  have "take_bit 21 pa = 0"
    using assms(2) by (simp add: word_unat_eq_iff unsigned_take_bit_eq take_bit_eq_0_iff)
  then have "\<not> bit (take_bit 21 pa) k" for k by simp
  then have "21 \<le> k" if "bit pa k" for k using that by (metis bit_take_bit_iff not_less)
  then show ?thesis
    unfolding m using assms(1)
    by (intro bit_word_eqI) (auto simp: bit_and_iff bit_push_bit_iff bit_mask_iff huge_leaf_def leaf_def
        bit_flag bit_SET frame_fixed_bits)
qed

definition large_tree :: "u64 \<Rightarrow> u64 \<Rightarrow> (index list \<Rightarrow> u64) \<Rightarrow> (index list \<Rightarrow> u64) \<Rightarrow> bool" where
  "large_tree va e f f' \<longleftrightarrow> f' (huge_path va) = e \<and>
     became_table f f' [l4_index va] \<and> became_table f f' [l3_index va, l4_index va] \<and>
     (\<forall>q. length q \<le> 4 \<and> q \<noteq> [l4_index va] \<and> q \<noteq> [l3_index va, l4_index va] \<and>
        \<not> suffix (huge_path va) q \<longrightarrow> f' q = f q)"

lemma walk_tree_large:
  assumes map: "large_tree va (huge_leaf pa) f f'" and pa: "frame pa = pa" "2 ^ 21 dvd unat pa"
  shows "walk_tree f' va' = (if huge_path va' = huge_path va
    then Some (pa OR take_bit 21 va') else walk_tree f va')"
proof (cases "huge_path va' = huge_path va")
  case True
  then have "l2_index va' = l2_index va" "l3_index va' = l3_index va" "l4_index va' = l4_index va"
    by (simp_all add: huge_path_def)
  then show ?thesis
    using True map huge_leaf_2mb [OF pa]
    by (simp add: walk_tree_def Let_def large_tree_def became_table_def huge_path_def)
next
  case False
  have "walk_tree f' va' = walk_tree f va'"
  proof (rule walk_tree_other_huge [OF _ _ _ False])
    fix q :: "index list"
    assume q: "length q \<le> 4" "\<not> suffix q (page_path va)" "\<not> suffix (huge_path va) q"
    have "suffix [l4_index va] (page_path va)" "suffix [l3_index va, l4_index va] (page_path va)"
      by (auto simp: page_path_def suffix_Cons)
    then show "f' q = f q" using q map unfolding large_tree_def by blast
  qed (use map in \<open>simp_all add: large_tree_def\<close>)
  then show ?thesis using False by simp
qed

lemma mappable_large:
  assumes map: "large_tree va e (pte m) (pte m')" and va': "mappable m va'" "huge_path va' \<noteq> huge_path va"
  shows "mappable m' va'"
proof -
  have "\<not> huge_page (pte m' q)" if q: "\<not> huge_page (pte m q)" "length q \<le> 3" "q \<noteq> huge_path va" for q
  proof -
    have "\<not> suffix (huge_path va) q"
    proof
      assume "suffix (huge_path va) q"
      then obtain p where "q = p @ huge_path va" by (auto simp: suffix_def)
      then show False using q(2,3) by (simp add: huge_path_def)
    qed
    then have "q = [l4_index va] \<or> q = [l3_index va, l4_index va] \<or> pte m' q = pte m q"
      using le_trans [OF q(2), of 4] map unfolding large_tree_def by simp blast
    then show ?thesis using q(1) map unfolding large_tree_def became_table_def by metis
  qed
  moreover have "[l4_index va'] \<noteq> huge_path va" "[l3_index va', l4_index va'] \<noteq> huge_path va"
    by (simp_all add: huge_path_def)
  ultimately show ?thesis using va' by (simp add: mappable_def huge_path_def)
qed

text \<open>The last entry, in a table that exists: whatever was mapped below it is gone.\<close>

lemma huge_leaf_run:
  assumes ok: "tables_ok (mem s) (pt_it s)" and t: "table_of (mem s) [l3_index va, l4_index va] = Some t"
    and s': "s' = entry_update t (l2_index va) (\<lambda>_. huge_leaf pa) s"
  shows "tables_ok (mem s') (pt_it s')" "paging_step s s'" "pt_it s' = pt_it s"
    "\<forall>q. length q \<le> 4 \<longrightarrow> pte (mem s') q = (if q = huge_path va then huge_leaf pa
        else if suffix (huge_path va) q then 0 else pte (mem s) q)"
proof -
  show it: "pt_it s' = pt_it s" by (simp add: s')
  have hp: "huge_path va = [l2_index va, l3_index va, l4_index va]" by (simp add: huge_path_def)
  have one: "one_entry (l2_index va) [l3_index va, l4_index va] (huge_leaf pa) (mem s) (mem s')"
    unfolding s' by (rule entry_update_one_entry [OF ok t]) simp
  have lf: "tables_ok (mem s') (pt_it s) \<and> (\<forall>q. length q \<le> 4 \<longrightarrow>
      pte (mem s') q = (if q = huge_path va then huge_leaf pa
        else if suffix (huge_path va) q then 0 else pte (mem s) q))"
    unfolding hp by (rule one_entry_no_link [OF one t _ _ ok]) simp_all
  then show "tables_ok (mem s') (pt_it s')"
    "\<forall>q. length q \<le> 4 \<longrightarrow> pte (mem s') q = (if q = huge_path va then huge_leaf pa
        else if suffix (huge_path va) q then 0 else pte (mem s) q)" by (simp_all add: it)
  have tab: "table_of (mem s) q = Some u" if "table_of (mem s') q = Some u" "length q \<le> 3" for q u
  proof (cases "suffix (huge_path va) q")
    case True
    then have "table_of (mem s') q = None"
      using lf no_link_below [of "mem s'" "huge_path va" q] by (simp add: hp)
    then show ?thesis using that(1) by simp
  next
    case False
    then show ?thesis using one_entry_pte [OF one, of q] that hp by simp
  qed
  show "paging_step s s'"
    unfolding s'
  proof (rule entry_update_step [OF ok t])
    show "length [l3_index va, l4_index va] \<le> 3" by simp
    fix x
    assume "in_tables (mem (entry_update t (l2_index va) (\<lambda>_. huge_leaf pa) s)) x"
    then show "in_tables (mem s) x" using tab unfolding in_tables_def s' by blast
  qed
qed

lemma map_2mb_run:
  assumes ok: "tables_ok (mem s) (pt_it s)" and room: "unat (pt_it s) + 8192 \<le> pt_limit"
    and pa: "frame pa = pa" "2 ^ 21 dvd unat pa"
    and h: "\<not> huge_page (pte (mem s) [l4_index va])" "\<not> huge_page (pte (mem s) [l3_index va, l4_index va])"
  shows "\<exists>s'. map_2mb_page va pa s = Some s' \<and> tables_ok (mem s') (pt_it s') \<and> paging_step s s' \<and>
    unat (pt_it s') \<le> unat (pt_it s) + 8192 \<and>
    (\<forall>va'. huge_path va' \<noteq> huge_path va \<longrightarrow> mappable (mem s) va' \<longrightarrow> mappable (mem s') va') \<and>
    (\<forall>va'. walk (mem s') p4table va' = (if huge_path va' = huge_path va
       then Some (pa OR take_bit 21 va') else walk (mem s) p4table va'))"
proof -
  let ?i3 = "l3_index va" and ?i4 = "l4_index va"
  obtain t3 s1 t2 s2 where d: "next_table p4table ?i4 s = Some (t3, s1)"
    "next_table t3 ?i3 s1 = Some (t2, s2)" "tables_ok (mem s2) (pt_it s2)"
    "table_of (mem s2) [?i3, ?i4] = Some t2" "paging_step s s2"
    "unat (pt_it s2) \<le> unat (pt_it s) + 8192"
    "\<forall>q. length q \<le> 4 \<and> q \<noteq> [?i4] \<and> q \<noteq> [?i3, ?i4] \<longrightarrow> pte (mem s2) q = pte (mem s) q"
    by (rule descend_run [OF ok room h])
  define s' where "s' = entry_update t2 (l2_index va) (\<lambda>_. huge_leaf pa) s2"
  have run: "map_2mb_page va pa s = Some s'"
    using d(1,2) by (simp add: map_2mb_page_def entry_update_fuse s'_def huge_leaf_def leaf_def Let_def)
  note lf = huge_leaf_run [OF d(3,4) s'_def]
  obtain u4 where u4: "table_of (mem s2) [?i4] = Some u4" using table_of_SomeD(3) [OF d(4)] by blast
  have "pte (mem s') [?i4] = pte (mem s2) [?i4]" "pte (mem s') [?i3, ?i4] = pte (mem s2) [?i3, ?i4]"
    using lf(4) by (auto simp: huge_path_def suffix_Cons)
  then have "became_table (pte (mem s)) (pte (mem s')) [?i4]"
    "became_table (pte (mem s)) (pte (mem s')) [?i3, ?i4]"
    using table_of_SomeD [OF u4] table_of_SomeD [OF d(4)] h by (auto intro!: became_tableI)
  then have lt: "large_tree va (huge_leaf pa) (pte (mem s)) (pte (mem s'))"
    unfolding large_tree_def using lf(4) d(7) by (auto simp: huge_path_def)
  have "walk (mem s') p4table va' = (if huge_path va' = huge_path va
      then Some (pa OR take_bit 21 va') else walk (mem s) p4table va')" for va'
    using walk_tree_large [OF lt pa] walk_pte [OF ok] walk_pte [OF lf(1)] by simp
  moreover have "paging_step s s'" using d(5) lf(2) paging_step_trans by blast
  moreover have "unat (pt_it s') \<le> unat (pt_it s) + 8192" using d(6) lf(3) by simp
  ultimately show ?thesis using run lf(1) mappable_large [OF lt] by blast
qed

end
