(* ===== verification/Startup.thy ===== *)
theory Startup
  imports Paging
begin

text \<open>
  The page tables that \<open>asm/start.asm\<close> builds before the C code runs: one chain of tables at
  0x1000 to 0x4000 that maps the first two megabytes to themselves. They satisfy the invariant of
  the mapping functions; the properties of those functions close the theory.
\<close>

section \<open>setup_and_enable_paging\<close>

text \<open>The zeroed 16 KiB, the three links, and the 512 entries of the loop \<open>.SetEntry\<close>.\<close>

definition setup_paging :: "mem \<Rightarrow> mem" where
  "setup_paging m =
     (let m = (\<lambda>x. if x \<in> span 0x1000 (4 * 4096) then 0 else m x);
          m = store32 m 0x1000 0x2003;
          m = store32 m 0x2000 0x3003;
          m = store32 m 0x3000 0x4003
      in fold (\<lambda>i m. store32 m (0x4000 + 8 * of_nat i) (0x00000003 + 0x1000 * of_nat i)) [0..<512] m)"

section \<open>The entries\<close>

lemma word_of_bytes_zeros:
  "word_of_bytes (bs @ replicate k 0) = (word_of_bytes bs :: 'a::len word)"
  by (rule bit_word_eqI) (auto simp: bit_word_of_bytes nth_append)

lemma store64_low:
  assumes "\<And>i. 4 \<le> i \<Longrightarrow> i < 8 \<Longrightarrow> m (a + of_nat i) = 0"
  shows "store32 m a v = store64 m a (ucast v)"
proof (rule ext)
  fix x
  have b: "bytes_of 8 (ucast v :: u64) = bytes_of 4 v @ replicate 4 0"
  proof (rule nth_equalityI)
    fix i
    assume "i < length (bytes_of 8 (ucast v :: u64))"
    then have i: "i < 8" by simp
    have "bit (ucast (drop_bit (8 * i) (ucast v :: u64)) :: u8) k
        \<longleftrightarrow> i < 4 \<and> bit (ucast (drop_bit (8 * i) v) :: u8) k" if "k < 8" for k
      using that bit_imp_le_length [of v "8 * i + k"] by (auto simp: bit_ucast_iff bit_drop_bit_eq)
    then have "ucast (drop_bit (8 * i) (ucast v :: u64)) = (if i < 4 then ucast (drop_bit (8 * i) v) else 0 :: u8)"
      by (intro bit_word_eqI) auto
    then show "bytes_of 8 (ucast v :: u64) ! i = (bytes_of 4 v @ replicate 4 0) ! i"
      using i by (simp add: nth_append)
  qed simp
  have "m x = 0" if "4 \<le> unat (x - a)" "unat (x - a) < 8"
    using assms [OF that] by simp
  then show "store32 m a v x = store64 m a (ucast v) x"
    unfolding store32_def store64_def b by (auto simp: store_bytes_apply in_span nth_append)
qed

text \<open>Filling a zeroed region entry by entry with 32-bit stores is filling it with 64-bit stores.\<close>

definition high_zero :: "mem \<Rightarrow> u64 \<Rightarrow> bool" where
  "high_zero m a \<longleftrightarrow> (\<forall>i. 4 \<le> i \<longrightarrow> i < 8 \<longrightarrow> m (a + of_nat i) = 0)"

lemma high_zero_apart: "apart64 a b \<Longrightarrow> high_zero m b \<Longrightarrow> high_zero (store64 m a v) b"
  unfolding high_zero_def apart64_def
proof (intro allI impI)
  fix i :: nat
  assume "span a 8 \<inter> span b 8 = {}" "\<forall>i. 4 \<le> i \<longrightarrow> i < 8 \<longrightarrow> m (b + of_nat i) = 0" "4 \<le> i" "i < 8"
  moreover then have "b + of_nat i \<in> span b 8" by (intro span_add) simp_all
  ultimately show "store64 m a v (b + of_nat i) = 0" by (subst store64_out) auto
qed

lemma fold_store32:
  assumes "\<And>i. i \<in> set is \<Longrightarrow> high_zero m (adr i)" and "distinct is"
    and "\<And>i j. i \<in> set is \<Longrightarrow> j \<in> set is \<Longrightarrow> i \<noteq> j \<Longrightarrow> apart64 (adr i) (adr j)"
  shows "fold (\<lambda>i m. store32 m (adr i) (v i)) is m = fold (\<lambda>i m. store64 m (adr i) (ucast (v i))) is m"
  using assms
proof (induction "is" arbitrary: m)
  case Nil
  then show ?case by simp
next
  case (Cons k ks)
  have eq: "store32 m (adr k) (v k) = store64 m (adr k) (ucast (v k))"
    using Cons.prems(1) [of k] by (intro store64_low) (simp add: high_zero_def)
  have "high_zero (store64 m (adr k) (ucast (v k))) (adr i)" if "i \<in> set ks" for i
    using that Cons.prems by (intro high_zero_apart) auto
  then show ?case using Cons by (simp add: eq)
qed

definition cleared :: "mem \<Rightarrow> mem" where
  "cleared m = (\<lambda>x. if x \<in> span 0x1000 (4 * 4096) then 0 else m x)"

definition boot_entries :: "(u64 \<times> index \<times> u32) list" where
  "boot_entries = [(0x1000, 0, 0x2003), (0x2000, 0, 0x3003), (0x3000, 0, 0x4003)]
     @ map (\<lambda>i. (0x4000, of_nat i, 3 + 0x1000 * of_nat i)) [0..<512]"

abbreviation boot_slot :: "u64 \<times> index \<times> u32 \<Rightarrow> u64" where
  "boot_slot e \<equiv> slot (fst e) (fst (snd e))"

abbreviation boot_value :: "u64 \<times> index \<times> u32 \<Rightarrow> u32" where
  "boot_value e \<equiv> snd (snd e)"

lemma slot_0: "slot t 0 = t"
  by (simp add: slot_def)

lemma index_of_nat: "i < 512 \<Longrightarrow> unat (of_nat i :: index) = i"
  by (simp add: unat_of_nat)

lemma slot_of_nat: "i < 512 \<Longrightarrow> slot t (of_nat i) = t + 8 * of_nat i"
proof -
  assume i: "i < 512"
  have "ucast (of_nat i :: index) = (of_nat (unat (of_nat i :: index)) :: u64)"
    by (rule of_nat_unat [symmetric])
  then show ?thesis by (simp only: slot_def index_of_nat [OF i])
qed

lemma setup_paging_fold:
  "setup_paging m = fold (\<lambda>e m. store32 m (boot_slot e) (boot_value e)) boot_entries (cleared m)"
proof -
  have "fold (\<lambda>i m. store32 m (0x4000 + 8 * of_nat i) (3 + 0x1000 * of_nat i)) [0..<512] m'
      = fold (\<lambda>i m. store32 m (slot 0x4000 (of_nat i)) (3 + 0x1000 * of_nat i)) [0..<512] m'" for m'
    by (intro fold_cong) (simp_all add: slot_of_nat)
  then show ?thesis
    by (simp add: setup_paging_def boot_entries_def cleared_def slot_0 Let_def fold_map o_def)
qed

lemma boot_entries_at:
  assumes "e \<in> set boot_entries"
  shows "fst e \<in> {0x1000, 0x2000, 0x3000, 0x4000}"
  using assms by (auto simp: boot_entries_def)

lemma boot_tables_aligned:
  "t \<in> {0x1000, 0x2000, 0x3000, 0x4000} \<Longrightarrow> 2 ^ 12 dvd unat (t :: u64)"
  by (auto simp: dvd_def)

lemma boot_entries_inj:
  assumes "e \<in> set boot_entries" and "f \<in> set boot_entries" and "fst e = fst f" "fst (snd e) = fst (snd f)"
  shows "e = f"
  using assms index_of_nat by (auto simp: boot_entries_def) metis+

lemma distinct_boot_entries: "distinct boot_entries"
proof -
  have "inj_on (\<lambda>i. (0x4000 :: u64, of_nat i :: index, 3 + 0x1000 * of_nat i :: u32)) (set [0..<512])"
    by (rule inj_onI) (metis Pair_inject index_of_nat atLeastLessThan_iff set_upt)
  then show ?thesis by (auto simp: boot_entries_def distinct_map)
qed

lemma boot_slots_apart:
  assumes "e \<in> set boot_entries" and "t \<in> {0x1000, 0x2000, 0x3000, 0x4000}" and "fst e \<noteq> t \<or> fst (snd e) \<noteq> j"
  shows "apart64 (boot_slot e) (slot t j)"
  using assms boot_entries_at by (intro slots_apart boot_tables_aligned) auto

lemma cleared_slot:
  assumes "t \<in> {0x1000, 0x2000, 0x3000, 0x4000}" and "x \<in> span (slot t j) 8"
  shows "cleared m x = 0"
proof -
  have "x \<in> span t 4096" using slot_in_table [OF boot_tables_aligned [OF assms(1)]] assms(2) by blast
  then have "x \<in> span 0x1000 (4 * 4096)" using assms(1) by (auto simp: span_iff)
  then show ?thesis by (simp add: cleared_def)
qed

lemma setup_paging_stores:
  "setup_paging m = fold (\<lambda>e m. store64 m (boot_slot e) (ucast (boot_value e))) boot_entries (cleared m)"
  unfolding setup_paging_fold
proof (rule fold_store32 [OF _ distinct_boot_entries])
  fix e
  assume e: "e \<in> set boot_entries"
  show "high_zero (cleared m) (boot_slot e)"
    unfolding high_zero_def
    by (intro allI impI cleared_slot [OF boot_entries_at [OF e], where j = "fst (snd e)"] span_add) simp_all
next
  fix e f
  assume ef: "e \<in> set boot_entries" "f \<in> set boot_entries" "e \<noteq> f"
  then have "fst e \<noteq> fst f \<or> fst (snd e) \<noteq> fst (snd f)" using boot_entries_inj by blast
  then show "apart64 (boot_slot e) (boot_slot f)"
    using ef boot_entries_at by (intro boot_slots_apart)
qed

lemma setup_paging_out:
  assumes "x \<notin> span 0x1000 (4 * 4096)"
  shows "setup_paging m x = m x"
proof -
  have "x \<notin> span (boot_slot e) 8" if "e \<in> set boot_entries" for e
  proof
    assume "x \<in> span (boot_slot e) 8"
    then have "cleared (\<lambda>_. 1) x = 0" using boot_entries_at [OF that] by (rule cleared_slot [rotated])
    then show False using assms by (simp add: cleared_def)
  qed
  then have "fold (\<lambda>e m. store64 m (boot_slot e) (ucast (boot_value e))) es m' x = m' x"
    if "set es \<subseteq> set boot_entries" for es m'
    using that by (induction es arbitrary: m') (simp_all add: store64_out)
  then show ?thesis using assms by (simp add: setup_paging_stores cleared_def)
qed

lemma boot_entry_set:
  assumes "(t, j, v) \<in> set boot_entries"
  shows "load64 (setup_paging m) (slot t j) = ucast v"
proof -
  have "apart64 (boot_slot f) (boot_slot (t, j, v))" if "f \<in> set boot_entries" "f \<noteq> (t, j, v)" for f
    using that assms boot_entries_inj [OF that(1) assms] boot_entries_at [OF assms]
    by (auto intro!: boot_slots_apart)
  from qwords.fill_get [where adr = boot_slot and j = "(t, j, v)", OF distinct_boot_entries assms this,
      of "\<lambda>e. ucast (boot_value e)" "cleared m"]
  show ?thesis by (simp add: setup_paging_stores)
qed

lemma boot_entry_unset:
  assumes "t \<in> {0x1000, 0x2000, 0x3000, 0x4000}" and "\<And>v. (t, j, v) \<notin> set boot_entries"
  shows "load64 (setup_paging m) (slot t j) = 0"
proof -
  have "apart64 (boot_slot f) (slot t j)" if "f \<in> set boot_entries" for f
  proof (rule boot_slots_apart [OF that assms(1)])
    have "f = (fst f, fst (snd f), boot_value f)" by simp
    then show "fst f \<noteq> t \<or> fst (snd f) \<noteq> j" using that assms(2) by metis
  qed
  then have "load64 (setup_paging m) (slot t j) = load64 (cleared m) (slot t j)"
    unfolding setup_paging_stores by (rule qwords.fill_apart)
  also have "\<dots> = 0" using cleared_slot [OF assms(1)] by (rule load64_zero)
  finally show ?thesis .
qed

lemma boot_link:
  assumes "(t, 0, v) \<in> set boot_entries" and "t \<in> {0x1000, 0x2000, 0x3000}"
  shows "load64 (setup_paging m) (slot t j) = (if j = 0 then ucast v else 0)"
proof (cases "j = 0")
  case True
  then show ?thesis using boot_entry_set [OF assms(1)] by simp
next
  case False
  have "(t, j, v) \<notin> set boot_entries" for v using False assms(2) by (auto simp: boot_entries_def)
  then show ?thesis using boot_entry_unset [of t j m] False assms(2) by auto
qed

lemma boot_loads:
  "load64 (setup_paging m) (slot 0x1000 j) = (if j = 0 then 0x2003 else 0)"
  "load64 (setup_paging m) (slot 0x2000 j) = (if j = 0 then 0x3003 else 0)"
  "load64 (setup_paging m) (slot 0x3000 j) = (if j = 0 then 0x4003 else 0)"
  "load64 (setup_paging m) (slot 0x4000 j) = of_nat (3 + 4096 * unat j)"
proof -
  show "load64 (setup_paging m) (slot 0x1000 j) = (if j = 0 then 0x2003 else 0)"
    using boot_link [of "0x1000" "0x2003" m j] by (simp add: boot_entries_def)
  show "load64 (setup_paging m) (slot 0x2000 j) = (if j = 0 then 0x3003 else 0)"
    using boot_link [of "0x2000" "0x3003" m j] by (simp add: boot_entries_def)
  show "load64 (setup_paging m) (slot 0x3000 j) = (if j = 0 then 0x4003 else 0)"
    using boot_link [of "0x3000" "0x4003" m j] by (simp add: boot_entries_def)
  have j: "unat j < 512" using unsigned_less [of j] by simp
  have "(0x4000, of_nat (unat j), 3 + 0x1000 * of_nat (unat j)) \<in> set boot_entries"
    unfolding boot_entries_def using j
    by (simp only: set_append set_map set_upt) (rule UnI2, rule imageI, simp)
  then have "(0x4000, j, 3 + 0x1000 * of_nat (unat j)) \<in> set boot_entries" by simp
  from boot_entry_set [OF this]
  have "load64 (setup_paging m) (slot 0x4000 j) = ucast (3 + 0x1000 * of_nat (unat j) :: u32)" .
  also have "(3 + 0x1000 * of_nat (unat j) :: u32) = of_nat (3 + 4096 * unat j)"
    by (simp only: of_nat_add of_nat_mult of_nat_numeral)
  also have "ucast (of_nat (3 + 4096 * unat j) :: u32) = (of_nat (3 + 4096 * unat j) :: u64)"
    using j by (intro word_unat_eq_iff [THEN iffD2])
      (simp add: unsigned_ucast_eq unat_of_nat take_bit_nat_def del: of_nat_add of_nat_mult)
  finally show "load64 (setup_paging m) (slot 0x4000 j) = of_nat (3 + 4096 * unat j)" .
qed

lemma boot_links:
  "link 0x2003 = Some 0x2000" "link 0x3003 = Some 0x3000" "link 0x4003 = Some 0x4000"
  by (simp_all add: link_def present_def huge_page_def GET_PTE_ADDRESS_def)

lemma boot_table_of:
  "table_of (setup_paging m) [i] = (if i = 0 then Some 0x2000 else None)"
  "table_of (setup_paging m) [j, i] = (if i = 0 \<and> j = 0 then Some 0x3000 else None)"
  "table_of (setup_paging m) [k, j, i] = (if i = 0 \<and> j = 0 \<and> k = 0 then Some 0x4000 else None)"
  using boot_loads by (auto simp: table_of.simps p4table_def boot_links)

lemma short_list_cases:
  assumes "length p \<le> 3"
  obtains "p = []" | i where "p = [i]" | j i where "p = [j, i]" | k j i where "p = [k, j, i]"
  using assms by (metis (no_types) length_0_conv length_Suc_conv le_Suc_eq le_zero_eq numeral_3_eq_3)

theorem boot_tables_ok: "tables_ok (setup_paging m) 0x20000"
proof -
  have tab: "(p = [] \<and> t = 0x1000) \<or> (p = [0] \<and> t = 0x2000) \<or> (p = [0, 0] \<and> t = 0x3000) \<or>
      (p = [0, 0, 0] \<and> t = 0x4000)"
    if "length p \<le> 3" "table_of (setup_paging m) p = Some t" for p t
    using that(1) by (rule short_list_cases) (use that(2) in \<open>auto simp: boot_table_of p4table_def split: if_splits\<close>)
  show ?thesis
    unfolding tables_ok_def
  proof (intro conjI allI impI)
    fix p t
    assume "length p \<le> 3 \<and> table_of (setup_paging m) p = Some t"
    with tab [of p t] show "2 ^ 12 dvd unat t" "0x1000 \<le> unat t" "unat t + 4096 \<le> unat (0x20000 :: u64)"
      by (auto simp: dvd_def p4table_def)
  next
    fix p q t
    assume "length p \<le> 3 \<and> length q \<le> 3 \<and> table_of (setup_paging m) p = Some t \<and>
      table_of (setup_paging m) q = Some t"
    with tab [of p t] tab [of q t] show "p = q" by (auto simp: p4table_def)
  qed (simp_all add: pt_limit_def dvd_def)
qed

lemma boot_identity:
  assumes "unat va < 2 ^ 21"
  shows "walk (setup_paging m) 0x1000 va = Some va"
proof -
  have "take_bit 21 va = va"
    using assms by (simp add: word_unat_eq_iff unsigned_take_bit_eq take_bit_nat_eq_self)
  then have bits: "bit va k \<Longrightarrow> k < 21" for k by (metis bit_take_bit_iff)
  have idx: "l4_index va = 0" "l3_index va = 0" "l2_index va = 0"
    by (auto intro!: bit_word_eqI dest!: bits simp: l4_index_def l3_index_def l2_index_def bit_ucast_iff bit_drop_bit_eq)
  define j where "j = l1_index va"
  have "(3 :: u64) = mask 2" by (simp add: mask_eq_exp_minus_1)
  then have three: "bit (3 :: u64) n \<longleftrightarrow> n < 2" for n by (simp only: bit_mask_iff) auto
  have e1: "(of_nat (3 + 4096 * unat j) :: u64) = 3 OR push_bit 12 (ucast j)"
  proof -
    have "(of_nat (3 + 4096 * unat j) :: u64) = 3 + push_bit 12 (ucast j)"
      by (simp add: push_bit_eq_mult mult.commute)
    also have "\<dots> = 3 OR push_bit 12 (ucast j)"
    proof (rule disjunctive_add)
      fix n
      show "\<not> bit (3 :: u64) n \<or> \<not> bit (push_bit 12 (ucast j :: u64)) n"
        unfolding three bit_push_bit_iff by auto
    qed
    finally show ?thesis .
  qed
  have pres: "present (3 OR push_bit 12 (ucast j))"
    by (simp add: present_def bit_or_iff three)
  have three': "\<not> bit (3 :: int) n" if "12 \<le> n" for n
  proof -
    have "(3 :: int) = mask 2" by (simp add: mask_eq_exp_minus_1)
    then show ?thesis using that by (simp only: bit_mask_iff) auto
  qed
  have fr: "frame (3 OR push_bit 12 (ucast j)) OR take_bit 12 va = va"
    by (rule bit_word_eqI)
      (auto simp: bit_or_iff bit_frame bit_push_bit_iff bit_take_bit_iff j_def l1_index_def bit_ucast_iff
        bit_drop_bit_eq three' dest: bits)
  have frames: "frame 0x2003 = 0x2000" "frame 0x3003 = 0x3000" "frame 0x4003 = 0x4000"
    and pr: "present 0x2003" "present 0x3003" "present 0x4003"
    and hu: "\<not> huge_page 0x2003" "\<not> huge_page 0x3003" "\<not> huge_page 0x4003"
    by (simp_all add: frame_def present_def huge_page_def)
  show ?thesis
    unfolding walk_def Let_def idx boot_loads j_def [symmetric]
    using boot_loads(4) [of m j] frames pr hu pres fr by (simp add: boot_loads e1 del: of_nat_add of_nat_mult)
qed

section \<open>The machine at the start of the C code\<close>

definition boot_machine :: "mem \<Rightarrow> machine" where
  "boot_machine m = vga_init \<lparr>mem = setup_paging m, column_counter = 0, foreground = 0, background = 0,
     pt_it = 0x20000, cr3 = p4table, trace = []\<rparr>"

lemma boot_machine_simps [simp]:
  "mem (boot_machine m) = setup_paging m" "pt_it (boot_machine m) = 0x20000"
  "cr3 (boot_machine m) = p4table" "trace (boot_machine m) = []"
  by (simp_all add: boot_machine_def vga_init_def)

lemma boot_machine_ok: "tables_ok (mem (boot_machine m)) (pt_it (boot_machine m))"
  by (simp add: boot_tables_ok)

lemma boot_mappable:
  assumes "l4_index va \<noteq> 0"
  shows "mappable (setup_paging m) va"
proof -
  have z: "pte (setup_paging m) [l4_index va] = 0"
    using assms boot_loads(1) [of m "l4_index va"] by (simp add: pte.simps p4table_def)
  have z3: "pte (setup_paging m) [l3_index va, l4_index va] = 0"
    by (rule pte_no_table) (simp_all add: z)
  have z2: "pte (setup_paging m) [l2_index va, l3_index va, l4_index va] = 0"
    by (rule pte_no_table) (simp_all add: z3)
  show ?thesis by (simp add: mappable_def huge_path_def z z2 z3)
qed

lemma boot_in_tables: "in_tables (setup_paging m) x \<Longrightarrow> 0x1000 \<le> unat x \<and> unat x < 0x5000"
proof -
  assume "in_tables (setup_paging m) x"
  then obtain p t where p: "length p \<le> 3" "table_of (setup_paging m) p = Some t" "x \<in> span t 4096"
    by (auto simp: in_tables_def)
  have "t \<in> {0x1000, 0x2000, 0x3000, 0x4000}"
    using p(1) by (rule short_list_cases) (use p(2) in \<open>auto simp: boot_table_of p4table_def split: if_splits\<close>)
  then show ?thesis using p(3) by (auto simp: span_iff)
qed

section \<open>Properties\<close>

text \<open>C8. Mapping a 4 KiB page on well-formed tables, with room for three more tables and no huge
  page in the way, returns with well-formed tables that translate every address of the page to the
  given frame and every other address as before; only tables and newly allocated tables change.\<close>

theorem map_4kb_page_maps:
  assumes "tables_ok (mem s) (pt_it s)" and "unat (pt_it s) + 3 * 4096 \<le> pt_limit"
    and "frame pa = pa" and "mappable (mem s) va"
  shows "\<exists>s'. map_4kb_page va pa s = Some s' \<and> tables_ok (mem s') (pt_it s') \<and> paging_step s s' \<and>
    unat (pt_it s') \<le> unat (pt_it s) + 3 * 4096 \<and>
    (\<forall>va'. walk (mem s') p4table va' = (if page_path va' = page_path va
       then Some (pa OR take_bit 12 va') else walk (mem s) p4table va'))"
proof -
  have "unat (pt_it s) + 12288 \<le> pt_limit" using assms(2) by simp
  from map_4kb_run [OF assms(1) this assms(3,4)] show ?thesis by (elim exE conjE) (intro exI conjI; simp)
qed

theorem map_4kb_page_maps_witness:
  "\<exists>s'. map_4kb_page 0xFFFF900000003000 0x200000 (boot_machine (\<lambda>_. 0)) = Some s' \<and>
    walk (mem s') p4table 0xFFFF900000003ABC = Some 0x200ABC \<and> walk (mem s') p4table 0xABC = Some 0xABC"
proof -
  let ?s = "boot_machine (\<lambda>_. 0)"
  have room: "unat (pt_it ?s) + 3 * 4096 \<le> pt_limit" and pa: "frame 0x200000 = 0x200000"
    by (simp_all add: frame_def pt_limit_def)
  have free: "mappable (mem ?s) 0xFFFF900000003000"
    unfolding boot_machine_simps by (rule boot_mappable) (simp add: l4_index_def)
  have same: "page_path 0xFFFF900000003ABC = page_path 0xFFFF900000003000"
    and other: "page_path 0xABC \<noteq> page_path 0xFFFF900000003000"
    by (simp_all add: page_path_def l4_index_def l3_index_def l2_index_def l1_index_def)
  have old: "walk (mem ?s) p4table 0xABC = Some 0xABC"
    using boot_identity [of "0xABC"] by (simp add: p4table_def)
  from map_4kb_page_maps [OF boot_machine_ok room pa free] obtain s' where
    "map_4kb_page 0xFFFF900000003000 0x200000 ?s = Some s'"
    "\<forall>va'. walk (mem s') p4table va' = (if page_path va' = page_path 0xFFFF900000003000
       then Some (0x200000 OR take_bit 12 va') else walk (mem ?s) p4table va')"
    by (elim exE conjE)
  then show ?thesis using same other old by (intro exI [of _ s']) simp
qed

text \<open>Mapping a 2 MiB page under the same conditions (with room for two more tables) makes the
  aligned two megabytes translate to the given frame and every other address as before.\<close>

lemma map_2mb_page_maps:
  assumes "tables_ok (mem s) (pt_it s)" and "unat (pt_it s) + 2 * 4096 \<le> pt_limit"
    and "frame pa = pa" and "2 ^ 21 dvd unat pa" and "mappable (mem s) va"
  shows "\<exists>s'. map_2mb_page va pa s = Some s' \<and> tables_ok (mem s') (pt_it s') \<and> paging_step s s' \<and>
    unat (pt_it s') \<le> unat (pt_it s) + 2 * 4096 \<and>
    (\<forall>va'. walk (mem s') p4table va' = (if huge_path va' = huge_path va
       then Some (pa OR take_bit 21 va') else walk (mem s) p4table va'))"
proof -
  have "unat (pt_it s) + 8192 \<le> pt_limit" "\<not> huge_page (pte (mem s) [l4_index va])"
    "\<not> huge_page (pte (mem s) [l3_index va, l4_index va])"
    using assms(2,5) by (simp_all add: mappable_def)
  from map_2mb_run [OF assms(1) this(1) assms(3,4) this(2,3)]
  show ?thesis by (elim exE conjE) (intro exI conjI; simp)
qed

theorem map_2mb_page_maps_witness:
  "\<exists>s'. map_2mb_page 0xFFFF900000000000 0x400000 (boot_machine (\<lambda>_. 0)) = Some s' \<and>
    walk (mem s') p4table 0xFFFF900000123456 = Some 0x523456 \<and> walk (mem s') p4table 0xABC = Some 0xABC"
proof -
  let ?s = "boot_machine (\<lambda>_. 0)"
  have room: "unat (pt_it ?s) + 2 * 4096 \<le> pt_limit" and pa: "frame 0x400000 = 0x400000"
    and al: "2 ^ 21 dvd unat (0x400000 :: u64)"
    by (simp_all add: frame_def pt_limit_def dvd_def)
  have free: "mappable (mem ?s) 0xFFFF900000000000"
    unfolding boot_machine_simps by (rule boot_mappable) (simp add: l4_index_def)
  have same: "huge_path 0xFFFF900000123456 = huge_path 0xFFFF900000000000"
    and other: "huge_path 0xABC \<noteq> huge_path 0xFFFF900000000000"
    by (simp_all add: huge_path_def l4_index_def l3_index_def l2_index_def)
  have old: "walk (mem ?s) p4table 0xABC = Some 0xABC"
    using boot_identity [of "0xABC"] by (simp add: p4table_def)
  from map_2mb_page_maps [OF boot_machine_ok room pa al free] obtain s' where
    "map_2mb_page 0xFFFF900000000000 0x400000 ?s = Some s'"
    "\<forall>va'. walk (mem s') p4table va' = (if huge_path va' = huge_path 0xFFFF900000000000
       then Some (0x400000 OR take_bit 21 va') else walk (mem ?s) p4table va')"
    by (elim exE conjE)
  then show ?thesis using same other old by (intro exI [of _ s']) simp
qed

text \<open>The rounding macros: always to the next boundary strictly above.\<close>

lemma round_up:
  fixes n b :: u64
  assumes "0 < unat b" and "unat n + unat b < 2 ^ 64"
  shows "unat (n + b - n mod b) = (unat n div unat b + 1) * unat b"
proof -
  have nb: "unat (n + b) = unat n + unat b" using assms(2) by (subst unat_add_lem [symmetric]) simp
  have m: "unat (n mod b) = unat n mod unat b" by (simp add: unat_mod)
  have "unat n mod unat b \<le> unat (n + b)" using nb by (metis le_add1 mod_less_eq_dividend order_trans)
  then have "unat (n + b - n mod b) = unat n + unat b - unat n mod unat b"
    using nb m by (simp add: unat_diff_le)
  also have "\<dots> = (unat n div unat b + 1) * unat b"
    by (metis add.commute add_diff_assoc2 minus_mod_eq_div_mult mod_less_eq_dividend mult.commute
        mult_Suc_right Suc_eq_plus1)
  finally show ?thesis .
qed

text \<open>The alignment macros round to the next boundary strictly above their argument: an aligned
  value is moved on by a whole page.\<close>

lemma align_up_overshoots:
  assumes "unat n + 2 ^ 30 < 2 ^ 64"
  shows "unat (ALIGN_UP_4KB n) = (unat n div 2 ^ 12 + 1) * 2 ^ 12 \<and>
    unat (ALIGN_UP_2MB n) = (unat n div 2 ^ 21 + 1) * 2 ^ 21 \<and>
    unat (ALIGN_UP_1GB n) = (unat n div 2 ^ 30 + 1) * 2 ^ 30"
  using assms round_up [of "0x1000" n] round_up [of "0x200000" n] round_up [of "0x40000000" n]
  by (simp add: ALIGN_UP_4KB_def ALIGN_UP_2MB_def ALIGN_UP_1GB_def)

theorem align_up_overshoots_witness:
  "unat (ALIGN_UP_4KB 0x1000) = 0x2000"
  using align_up_overshoots [of "0x1000"] by simp

end
