(* ===== verification/PhysicalMap.thy ===== *)
theory PhysicalMap
  imports Startup
begin

text \<open>
  \<open>setup_physical_map\<close> of \<open>src/paging.c\<close>: the window at 0xFFFF800000000000 of 1 GiB pages
  onto physical memory, its self-test, and the size from which the table is linked in the wrong
  slot. \<open>physical_to_virtual_address\<close> is the way into the window.
\<close>

section \<open>The fill loop\<close>

definition giga :: "u64 \<Rightarrow> u64" where
  "giga i = set_huge_page (set_present (set_writable (SET_PTE_ADDRESS (i * 0x40000000) 0)))"

lemma giga_simps [simp]: "present (giga i)" "huge_page (giga i)" "link (giga i) = None"
  by (simp_all add: giga_def link_def)

lemma map_gigs_fold:
  "map_gigs k t i va s = (va + of_nat k * 0x40000000,
     s\<lparr>mem := fold (\<lambda>j m. store64 m (slot t (l3_index (va + of_nat j * 0x40000000))) (giga (i + of_nat j)))
              [0..<k] (mem s)\<rparr>)"
proof (induction k arbitrary: i va s)
  case 0
  then show ?case by simp
next
  case (Suc k)
  have "[0..<Suc k] = 0 # map Suc [0..<k]"
    by (simp add: upt_conv_Cons map_Suc_upt del: upt_Suc)
  moreover have "map_gigs (Suc k) t i va s
      = map_gigs k t (i + 1) (va + 0x40000000) (entry_update t (l3_index va) (\<lambda>_. giga i) s)"
    by (simp add: giga_def Let_def)
  ultimately show ?case
    by (simp add: Suc entry_update_def fold_map o_def algebra_simps del: upt_Suc map_gigs.simps)
qed

lemma unat_index:
  "unat (l3_index va) = unat va div 2 ^ 30 mod 512" "unat (l4_index va) = unat va div 2 ^ 39 mod 512"
  by (simp_all add: l3_index_def l4_index_def unsigned_ucast_eq unat_drop_bit_eq drop_bit_nat_def take_bit_nat_def)

lemma unat_window:
  assumes "j < 2 ^ 17"
  shows "unat ((0xFFFF800000000000 :: u64) + of_nat j * 0x40000000) = 0xFFFF800000000000 + j * 0x40000000"
proof -
  have "(0xFFFF800000000000 :: u64) + of_nat j * 0x40000000 = 0xFFFF800000000000 + of_nat (j * 0x40000000)"
    by simp
  then show ?thesis
    using assms by (simp only: unat_add_of_nat) (subst unat_add_of_nat; simp)
qed

lemma l4_window:
  assumes "j < 2 ^ 17"
  shows "l4_index (0xFFFF800000000000 + of_nat j * 0x40000000) = of_nat (256 + j div 512)"
proof -
  have "(0xFFFF800000000000 + j * 0x40000000) div 2 ^ 39
      = ((0xFFFF800000000000 + j * 0x40000000) div 0x40000000) div 512"
    by (simp only: div_mult2_eq [symmetric]) simp
  also have "(0xFFFF800000000000 + j * 0x40000000) div 0x40000000 = 0x3FFFE0000 + j" by simp
  also have "(0x3FFFE0000 + j) div 512 = 0x1FFFF00 + j div 512"
    using div_mult_self4 [of 512 "0x1FFFF00" j] by simp
  finally have "(0xFFFF800000000000 + j * 0x40000000) div 2 ^ 39 = 0x1FFFF00 + j div 512" .
  then have "unat (l4_index (0xFFFF800000000000 + of_nat j * 0x40000000)) = (0x1FFFF00 + j div 512) mod 512"
    by (simp only: unat_index unat_window [OF assms])
  also have "(0x1FFFF00 :: nat) + j div 512 = 512 * 0xFFFF + (256 + j div 512)" by simp
  also have "\<dots> mod 512 = (256 + j div 512) mod 512" by (rule mod_mult_self4)
  also have "\<dots> = unat (of_nat (256 + j div 512) :: index)" unfolding unat_of_nat by simp
  finally show ?thesis by (simp only: word_unat_eq_iff)
qed

text \<open>
  The loop goes round the table when there are more than 512 GiB: entry \<open>j\<close> keeps the last gigabyte
  that it was given.
\<close>

definition last_gig :: "nat \<Rightarrow> nat \<Rightarrow> nat" where
  "last_gig k j = j + 512 * ((k - 1 - j) div 512)"

lemma last_gig_small: "k \<le> 512 \<Longrightarrow> j < k \<Longrightarrow> last_gig k j = j"
  by (simp add: last_gig_def)

lemma last_gig_Suc:
  assumes "j < 512"
  shows "j < Suc k \<Longrightarrow> last_gig (Suc k) j = (if k mod 512 = j then k else last_gig k j)"
proof -
  assume jk: "j < Suc k"
  show ?thesis
  proof (cases "k mod 512 = j")
    case True
    then have "512 dvd k - j" using jk by (metis dvd_minus_mod)
    then show ?thesis using True jk by (simp add: last_gig_def)
  next
    case False
    then have lt: "j < k" using jk assms by (cases "j = k") auto
    have "\<not> 512 dvd k - j"
    proof
      assume "512 dvd k - j"
      then obtain c where "k = j + 512 * c" using lt by (metis dvd_def le_add_diff_inverse less_imp_le)
      then show False using False assms by simp
    qed
    then have "(k - 1 - j) div 512 = (k - j) div 512"
      using div_Suc [of "k - 1 - j" 512] lt by (simp add: dvd_eq_mod_eq_0 Suc_diff_Suc)
    then show ?thesis using False by (simp add: last_gig_def)
  qed
qed

lemma l3_window_mod:
  assumes "j < 2 ^ 17"
  shows "l3_index (0xFFFF800000000000 + of_nat j * 0x40000000) = of_nat (j mod 512)"
proof -
  have "(0xFFFF800000000000 + j * 0x40000000) div 2 ^ 30 = 512 * 0x1FFFF00 + j" by simp
  then have "(0xFFFF800000000000 + j * 0x40000000) div 2 ^ 30 mod 512 = j mod 512"
    by (simp only: mod_mult_self4)
  then show ?thesis
    using unat_window [OF assms] by (simp add: word_unat_eq_iff unat_index index_of_nat)
qed

lemma map_gigs_entry:
  assumes "k \<le> 2 ^ 17" and t: "2 ^ 12 dvd unat t"
  shows "entry (snd (map_gigs k t 0 0xFFFF800000000000 s)) t j
    = (if unat j < k then giga (of_nat (last_gig k (unat j))) else entry s t j)"
  using assms(1)
proof (induction k)
  case 0
  then show ?case by simp
next
  case (Suc k)
  let ?f = "\<lambda>k. fold (\<lambda>i m. store64 m (slot t (l3_index (0xFFFF800000000000 + of_nat i * 0x40000000)))
    (giga (0 + of_nat i))) [0..<k] (mem s)"
  let ?i = "of_nat (k mod 512) :: index"
  have step: "?f (Suc k) = store64 (?f k) (slot t ?i) (giga (of_nat k))"
    using l3_window_mod [of k] Suc.prems by simp
  have IH: "load64 (?f k) (slot t j) = (if unat j < k then giga (of_nat (last_gig k (unat j))) else entry s t j)"
    using Suc by (simp add: map_gigs_fold)
  have j: "unat j < 512" using unsigned_less [of j] by simp
  have ij: "j = ?i \<longleftrightarrow> unat j = k mod 512" by (simp add: word_unat_eq_iff index_of_nat)
  have "load64 (?f (Suc k)) (slot t j) = (if unat j < Suc k then giga (of_nat (last_gig (Suc k) (unat j))) else entry s t j)"
  proof (cases "j = ?i")
    case True
    then have u: "k mod 512 = unat j" using ij by simp
    then have "unat j \<le> k" by (metis mod_less_eq_dividend)
    then show ?thesis using last_gig_Suc [OF j] u unfolding step by simp
  next
    case False
    then have u: "k mod 512 \<noteq> unat j" using ij by simp
    have "apart64 (slot t ?i) (slot t j)" using False slots_apart [OF t t, of ?i j] by auto
    then have "load64 (?f (Suc k)) (slot t j) = load64 (?f k) (slot t j)"
      unfolding step by (rule qwords.get_put_apart)
    moreover have "unat j \<noteq> k" using u j by auto
    ultimately show ?thesis using IH last_gig_Suc [OF j, of k] u by simp
  qed
  then show ?case by (simp add: map_gigs_fold)
qed

lemma map_gigs_frame:
  fixes k :: nat and t i va :: u64 and s :: machine
  assumes t: "2 ^ 12 dvd unat t"
  defines "s' \<equiv> snd (map_gigs k t i va s)"
  shows "fst (map_gigs k t i va s) = va + of_nat k * 0x40000000" and "s' = s\<lparr>mem := mem s'\<rparr>"
    and "x \<notin> span t 4096 \<Longrightarrow> mem s' x = mem s x"
proof -
  have "store64 m (slot t j) v x = m x" if "x \<notin> span t 4096" for m j v
    using that slot_in_table [OF t, of j] by (intro store64_out) blast
  then have "fold (\<lambda>j m. store64 m (slot t (f j)) (g j)) js m x = m x" if "x \<notin> span t 4096" for f g m
    and js :: "nat list"
    using that by (induction js arbitrary: m) simp_all
  then show "x \<notin> span t 4096 \<Longrightarrow> mem s' x = mem s x"
    unfolding s'_def map_gigs_fold by simp
qed (simp_all add: s'_def map_gigs_fold)

lemma entry_update_entry:
  assumes "2 ^ 12 dvd unat t"
  shows "entry (entry_update t i f s) t j = (if j = i then f (entry s t i) else entry s t j)"
  using slots_apart [OF assms assms, of i j] by (simp add: entry_update_same entry_update_apart)

lemma map_gigs_no_link:
  assumes t: "2 ^ 12 dvd unat t" and "\<And>j. link (entry s t j) = None"
  shows "link (entry (snd (map_gigs k t i va s)) t j) = None"
  using assms(2)
proof (induction k arbitrary: i va s)
  case 0
  then show ?case by simp
next
  case (Suc k)
  have "map_gigs (Suc k) t i va s
      = map_gigs k t (i + 1) (va + 0x40000000) (entry_update t (l3_index va) (\<lambda>_. giga i) s)"
    by (simp add: giga_def Let_def)
  moreover have "link (entry (entry_update t (l3_index va) (\<lambda>_. giga i) s) t j) = None" for j
    using Suc.prems by (simp add: entry_update_entry [OF t])
  ultimately show ?case using Suc.IH by simp
qed

section \<open>The state before the test\<close>

text \<open>The new table is filled with 1 GiB pages before anything links to it.\<close>

lemma filled_run:
  assumes ok: "tables_ok (mem s) (pt_it s)" and room: "unat (pt_it s) + 4096 \<le> pt_limit" and n: "n < 2 ^ 17"
  obtains s1 s2 where "new_page_table s = Some (pt_it s, s1)" "memset (mem s1) (pt_it s) 0 4096 = Some (mem s1)"
    "map_gigs n (pt_it s) 0 0xFFFF800000000000 s1 = (0xFFFF800000000000 + of_nat n * 0x40000000, s2)"
    "paging_step s s2" "tables_ok (mem s2) (pt_it s)" "unat (pt_it s2) = unat (pt_it s) + 4096"
    "\<forall>q. length q \<le> 4 \<longrightarrow> pte (mem s2) q = pte (mem s) q" "\<forall>x. in_tables (mem s2) x \<longleftrightarrow> in_tables (mem s) x"
    "\<forall>j. link (entry s2 (pt_it s) j) = None"
    "\<forall>j. entry s2 (pt_it s) j = (if unat j < n then giga (of_nat (last_gig n (unat j))) else 0)"
proof -
  let ?it = "pt_it s"
  have it: "2 ^ 12 dvd unat ?it" using tables_ok_it [OF ok] by simp
  obtain s1 where s1: "new_page_table s = Some (?it, s1)" "paging_step s s1"
    "unat (pt_it s1) = unat ?it + 4096" "tables_ok (mem s1) ?it"
    "\<forall>q. length q \<le> 4 \<longrightarrow> pte (mem s1) q = pte (mem s) q \<and> table_of (mem s1) q = table_of (mem s) q"
    "\<forall>j. entry s1 ?it j = 0" "mem s1 = (\<lambda>x. if x \<in> span ?it 4096 then 0 else mem s x)"
    by (rule new_page_table_run [OF ok room])
  have twice: "memset (mem s1) ?it 0 4096 = Some (mem s1)"
    using memset_zero [of ?it 4096 "mem s1"] room unat_add_of_nat [of ?it 4096]
    by (auto simp: pt_limit_def s1(7) paint_def span_iff fun_eq_iff)
  define s2 where "s2 = snd (map_gigs n ?it 0 0xFFFF800000000000 s1)"
  note fr = map_gigs_frame [OF it, where k = n and i = 0 and va = "0xFFFF800000000000" and s = s1, folded s2_def]
  have pt: "pt_it s2 = pt_it s1" using arg_cong [OF fr(2), of pt_it] by simp
  have same: "mem s2 x = mem s1 x" if "in_tables (mem s1) x" for x
    using in_tables_below [OF s1(4) that] room by (intro fr(3)) (simp add: span_iff pt_limit_def)
  have in1: "in_tables (mem s1) x \<longleftrightarrow> in_tables (mem s) x" for x
    unfolding in_tables_def using s1(5) by (simp cong: conj_cong)
  have in2: "in_tables (mem s2) x \<longleftrightarrow> in_tables (mem s) x" for x
    using fun_cong [OF tables_frame_ok(2) [OF s1(4) same]] in1 by simp
  have "mem s2 x = mem s x" if "\<not> fresh s s2 x" for x
    using that room s1(3) fr(3) [of x] by (auto simp: pt fresh_def span_iff pt_limit_def s1(7))
  then have "paging_step s s2"
    using s1(2) in2 arg_cong [OF fr(2), of cr3] arg_cong [OF fr(2), of trace] arg_cong [OF fr(2), of column_counter]
      arg_cong [OF fr(2), of foreground] arg_cong [OF fr(2), of background]
    by (simp add: paging_step_def pt)
  moreover have "pte (mem s2) q = pte (mem s) q" if "length q \<le> 4" for q
    using tables_frame(2) [OF s1(4) same that] s1(5) that by simp
  moreover have "link (entry s2 ?it j) = None" for j
    unfolding s2_def using s1(6) by (intro map_gigs_no_link [OF it]) simp
  moreover have "entry s2 ?it j = (if unat j < n then giga (of_nat (last_gig n (unat j))) else 0)" for j
    using map_gigs_entry [OF less_imp_le [OF n] it, of s1 j] s1(6) by (simp add: s2_def)
  moreover have "map_gigs n ?it 0 0xFFFF800000000000 s1 = (0xFFFF800000000000 + of_nat n * 0x40000000, s2)"
    using fr(1) by (simp add: s2_def prod_eq_iff)
  ultimately show ?thesis
    using that [OF s1(1) twice, of s2] tables_frame_ok(1) [OF s1(4) same] s1(3) in2 by (simp add: pt)
qed

text \<open>The entry the window is linked by.\<close>

definition window_link :: "u64 \<Rightarrow> u64" where
  "window_link t = set_writable (set_present (SET_PTE_ADDRESS t 0))"

lemma window_link:
  assumes "tables_ok m t"
  shows "link (window_link t) = Some t" "present (window_link t)" "\<not> huge_page (window_link t)"
proof -
  have "GET_PTE_ADDRESS (window_link t) = GET_PTE_ADDRESS (SET_PTE_ADDRESS t 0)"
    by (rule bit_word_eqI) (auto simp: window_link_def bit_GET bit_flag)
  then show "link (window_link t) = Some t" "present (window_link t)" "\<not> huge_page (window_link t)"
    using frame_watermark [OF assms] by (simp_all add: link_def window_link_def GET_SET)
qed

lemma root_slot: "x \<in> span (slot p4table i) 8 \<Longrightarrow> in_tables m x"
proof -
  assume "x \<in> span (slot p4table i) 8"
  moreover have "2 ^ 12 dvd unat p4table" by (simp add: p4table_def dvd_def)
  then have "span (slot p4table i) 8 \<subseteq> span p4table 4096" by (rule slot_in_table)
  ultimately show ?thesis unfolding in_tables_def by (intro exI [of _ "[]"]) auto
qed

lemma build_run:
  assumes ok: "tables_ok (mem s) (pt_it s)" and room: "unat (pt_it s) + 4096 \<le> pt_limit"
    and n: "n = unat ((size_mem + 0x3fffffff) div 0x40000000)" "n < 2 ^ 17"
  obtains s' where "build_physical_map size_mem s = Some s'" "cr3 s' = p4table"
    "tables_ok (mem s') (pt_it s')" "unat (pt_it s') = unat (pt_it s) + 4096"
    "trace s' = LoadCR3 p4table # trace s" "column_counter s' = column_counter s"
    "foreground s' = foreground s" "background s' = background s"
    "\<forall>x. \<not> in_tables (mem s) x \<and> \<not> fresh s s' x \<longrightarrow> mem s' x = mem s x"
    "\<forall>x. in_tables (mem s') x \<longrightarrow> in_tables (mem s) x \<or> fresh s s' x"
    "\<forall>q. length q \<le> 4 \<and> \<not> suffix [of_nat (256 + n div 512)] q \<longrightarrow> pte (mem s') q = pte (mem s) q"
    "\<forall>j. pte (mem s') [j, of_nat (256 + n div 512)] = (if unat j < n then giga (of_nat (last_gig n (unat j))) else 0)"
    "present (pte (mem s') [of_nat (256 + n div 512)]) \<and> \<not> huge_page (pte (mem s') [of_nat (256 + n div 512)])"
proof -
  let ?it = "pt_it s" and ?i = "of_nat (256 + n div 512) :: index"
  obtain s1 s2 where s2: "new_page_table s = Some (?it, s1)" "memset (mem s1) ?it 0 4096 = Some (mem s1)"
    "map_gigs n ?it 0 0xFFFF800000000000 s1 = (0xFFFF800000000000 + of_nat n * 0x40000000, s2)"
    "paging_step s s2" "tables_ok (mem s2) ?it" "unat (pt_it s2) = unat ?it + 4096"
    "\<forall>q. length q \<le> 4 \<longrightarrow> pte (mem s2) q = pte (mem s) q" "\<forall>x. in_tables (mem s2) x \<longleftrightarrow> in_tables (mem s) x"
    "\<forall>j. link (entry s2 ?it j) = None"
    "\<forall>j. entry s2 ?it j = (if unat j < n then giga (of_nat (last_gig n (unat j))) else 0)"
    by (rule filled_run [OF ok room n(2)])
  define s3 where "s3 = entry_update p4table ?i (\<lambda>_. window_link ?it) s2"
  define s' where "s' = load_newpagetable p4table s3"
  have run: "build_physical_map size_mem s = Some s'"
    using s2(1-3) l4_window [OF n(2)] n(1)
    by (simp add: build_physical_map_def s'_def s3_def window_link_def Let_def)
  have lim: "unat (pt_it s2) \<le> pt_limit" using s2(6) room by simp
  note new = link_table [where f = "\<lambda>_. window_link ?it" and i = ?i and p = "[]" and t = p4table and s = s2,
      OF s2(5) _ _ window_link(1) [OF ok] refl spec [OF s2(9)] s2(6) lim, folded s3_def]
  have s': "mem s' = mem s3" "pt_it s' = pt_it s2" "cr3 s' = p4table" "trace s' = LoadCR3 p4table # trace s"
    "column_counter s' = column_counter s" "foreground s' = foreground s" "background s' = background s"
    using s2(4) by (simp_all add: s'_def load_newpagetable_def s3_def paging_step_def)
  have fresh: "fresh s s' x \<longleftrightarrow> fresh s s2 x" for x by (simp add: fresh_def s'(2))
  show ?thesis
  proof (rule that [of s'])
    show "tables_ok (mem s') (pt_it s')" unfolding s'(1,2) by (rule new(1)) simp_all
    show "unat (pt_it s') = unat (pt_it s) + 4096" unfolding s'(2) by (rule s2(6))
    show "\<forall>x. \<not> in_tables (mem s) x \<and> \<not> fresh s s' x \<longrightarrow> mem s' x = mem s x"
    proof (intro allI impI)
      fix x
      assume x: "\<not> in_tables (mem s) x \<and> \<not> fresh s s' x"
      then have "x \<notin> span (slot p4table ?i) 8" using root_slot by blast
      then have "mem s3 x = mem s2 x" unfolding s3_def by (rule entry_update_out)
      then show "mem s' x = mem s x" using x s2(4) by (simp add: s'(1) fresh paging_step_def)
    qed
    show "\<forall>x. in_tables (mem s') x \<longrightarrow> in_tables (mem s) x \<or> fresh s s' x"
      using new(6) s2(6,8) room unfolding s'(1) by (auto simp: fresh_def s'(2) span_iff pt_limit_def)
    show "\<forall>q. length q \<le> 4 \<and> \<not> suffix [?i] q \<longrightarrow> pte (mem s') q = pte (mem s) q"
      using new(3) s2(7) unfolding s'(1) by simp
    have "pte (mem s3) [j, ?i] = entry s2 ?it j" for j by (rule new(4)) simp_all
    then show "\<forall>j. pte (mem s') [j, ?i] = (if unat j < n then giga (of_nat (last_gig n (unat j))) else 0)"
      using s2(10) unfolding s'(1) by simp
    have "table_of (mem s3) [?i] = Some ?it" by (rule new(2)) simp_all
    from table_of_SomeD(1,2) [OF this]
    show "present (pte (mem s') [?i]) \<and> \<not> huge_page (pte (mem s') [?i])" unfolding s'(1) by simp
  qed (rule run s')+
qed

section \<open>The window\<close>

lemma giga_frame_nat:
  assumes "i < 2 ^ 22"
  shows "giga (of_nat i) AND 0x000FFFFFC0000000 = push_bit 30 (of_nat i)"
proof -
  have m: "(0x000FFFFFC0000000 :: u64) = push_bit 30 (mask 22)" by (simp add: mask_eq_exp_minus_1)
  have p: "of_nat i * (0x40000000 :: u64) = push_bit 30 (of_nat i)" by (simp add: push_bit_eq_mult)
  have "take_bit 22 (of_nat i :: u64) = of_nat i"
    using assms by (simp add: word_unat_eq_iff unsigned_take_bit_eq take_bit_nat_eq_self unat_of_nat)
  then have j: "k < 22" if "bit (of_nat i :: u64) k" for k using that by (metis bit_take_bit_iff)
  show ?thesis
    unfolding m giga_def p
    by (rule bit_word_eqI)
      (auto simp: bit_and_iff bit_push_bit_iff bit_mask_iff bit_flag bit_SET dest: j)
qed

lemma giga_frame: "giga (ucast j) AND 0x000FFFFFC0000000 = push_bit 30 (ucast j)" for j :: index
proof -
  have "unat j < 512" using unsigned_less [of j] by simp
  then have "unat j < 2 ^ 22" by simp
  from giga_frame_nat [OF this] show ?thesis by (simp add: unsigned_ucast_eq)
qed

lemma window_offset: "push_bit 30 (ucast (l3_index va)) OR take_bit 30 va = take_bit 39 va"
  by (rule bit_word_eqI)
    (auto simp: bit_or_iff bit_push_bit_iff bit_take_bit_iff l3_index_def bit_ucast_iff bit_drop_bit_eq)

lemma l3_less_iff: "unat (l3_index va) < n \<longleftrightarrow> unat (take_bit 39 va) < n * 2 ^ 30"
proof -
  have "unat (take_bit 39 va) = unat va mod 2 ^ 39"
    by (simp add: unsigned_take_bit_eq take_bit_nat_def)
  also have "\<dots> = 2 ^ 30 * (unat va div 2 ^ 30 mod 512) + unat va mod 2 ^ 30"
    using mod_mult2_eq [of "unat va" "2 ^ 30" 512] by simp
  finally have "unat (take_bit 39 va) = 2 ^ 30 * unat (l3_index va) + unat va mod 2 ^ 30"
    by (simp only: unat_index)
  moreover have "unat va mod 2 ^ 30 < 2 ^ 30" by simp
  ultimately show ?thesis by auto
qed

lemma window_walk:
  assumes root: "present (f' [256])" "\<not> huge_page (f' [256])"
    and off: "\<And>q. length q \<le> 4 \<Longrightarrow> q \<noteq> [] \<Longrightarrow> \<not> suffix [256] q \<Longrightarrow> f' q = f q"
    and gigs: "\<And>j. f' [j, 256] = (if unat j < n then giga (of_nat (unat j)) else 0)"
  shows "walk_tree f' va = (if l4_index va = 256
      then if unat (take_bit 39 va) < n * 2 ^ 30 then Some (take_bit 39 va) else None
      else walk_tree f va)"
proof (cases "l4_index va = 256")
  case True
  then show ?thesis
    using root gigs [of "l3_index va"] giga_frame [of "l3_index va"] window_offset [of va]
    by (simp add: walk_tree_def Let_def l3_less_iff)
next
  case False
  have "\<not> suffix [256] [l4_index va]" "\<not> suffix [256] [l3_index va, l4_index va]"
    "\<not> suffix [256] [l2_index va, l3_index va, l4_index va]"
    "\<not> suffix [256] [l1_index va, l2_index va, l3_index va, l4_index va]"
    using False by (auto simp: suffix_Cons)
  then show ?thesis using False by (simp add: walk_tree_def Let_def off)
qed

text \<open>The translation when the table is linked at another entry and every one of its pages is present.\<close>

lemma slot_walk:
  assumes root: "present (f' [i])" "\<not> huge_page (f' [i])"
    and off: "\<And>q. length q \<le> 4 \<Longrightarrow> q \<noteq> [] \<Longrightarrow> \<not> suffix [i] q \<Longrightarrow> f' q = f q"
    and gigs: "\<And>j. f' [j, i] = giga (of_nat (g j)) \<and> g j < 2 ^ 22"
  shows "walk_tree f' va = (if l4_index va = i
      then Some (push_bit 30 (of_nat (g (l3_index va))) OR take_bit 30 va) else walk_tree f va)"
proof (cases "l4_index va = i")
  case True
  then show ?thesis using root gigs [of "l3_index va"] by (simp add: walk_tree_def Let_def giga_frame_nat)
next
  case False
  have "\<not> suffix [i] [l4_index va]" "\<not> suffix [i] [l3_index va, l4_index va]"
    "\<not> suffix [i] [l2_index va, l3_index va, l4_index va]"
    "\<not> suffix [i] [l1_index va, l2_index va, l3_index va, l4_index va]"
    using False by (auto simp: suffix_Cons)
  then show ?thesis using False by (simp add: walk_tree_def Let_def off)
qed

definition gigs :: "u64 \<Rightarrow> nat" where
  "gigs size_mem = (unat size_mem + (2 ^ 30 - 1)) div 2 ^ 30"

lemma unat_gigs:
  assumes "unat size_mem \<le> 2 ^ 47"
  shows "unat ((size_mem + 0x3fffffff) div 0x40000000) = gigs size_mem" and "gigs size_mem \<le> 2 ^ 17"
proof -
  have "unat (size_mem + of_nat 0x3fffffff) = unat size_mem + 0x3fffffff"
    using assms by (intro unat_add_of_nat) simp
  then show "unat ((size_mem + 0x3fffffff) div 0x40000000) = gigs size_mem"
    by (simp add: gigs_def unat_div)
  show "gigs size_mem \<le> 2 ^ 17"
    using assms by (simp add: gigs_def) 
qed

lemma mmu_memcmp_same:
  assumes "\<And>j. j < k \<Longrightarrow> \<exists>p. walk m root (a + of_nat j) = Some p \<and> walk m root (b + of_nat j) = Some p"
  shows "mmu_memcmp k m root a b = Inr 0"
  using assms
proof (induction k arbitrary: a b)
  case 0
  then show ?case by simp
next
  case (Suc k)
  obtain p where "walk m root a = Some p" "walk m root b = Some p" using Suc.prems [of 0] by auto
  moreover have "mmu_memcmp k m root (a + 1) (b + 1) = Inr 0"
  proof (rule Suc.IH)
    fix j
    assume "j < k"
    then show "\<exists>p. walk m root (a + 1 + of_nat j) = Some p \<and> walk m root (b + 1 + of_nat j) = Some p"
      using Suc.prems [of "Suc j"] by (simp add: add.assoc)
  qed
  ultimately show ?case by simp
qed

text \<open>Before the test, for at most 511 GiB: the window is in place, the rest as it was.\<close>

lemma build_window:
  assumes ok: "tables_ok (mem s) (pt_it s)" and room: "unat (pt_it s) + 4096 \<le> pt_limit"
    and size: "unat size_mem \<le> 511 * 2 ^ 30"
  obtains s' where "build_physical_map size_mem s = Some s'" "cr3 s' = p4table"
    "tables_ok (mem s') (pt_it s')" "unat (pt_it s') = unat (pt_it s) + 4096"
    "trace s' = LoadCR3 p4table # trace s" "column_counter s' = column_counter s"
    "foreground s' = foreground s" "background s' = background s"
    "\<forall>x. \<not> in_tables (mem s) x \<and> \<not> fresh s s' x \<longrightarrow> mem s' x = mem s x"
    "\<forall>x. in_tables (mem s') x \<longrightarrow> in_tables (mem s) x \<or> fresh s s' x"
    "\<forall>va. walk (mem s') p4table va = (if l4_index va = 256
      then if unat (take_bit 39 va) < gigs size_mem * 2 ^ 30 then Some (take_bit 39 va) else None
      else walk (mem s) p4table va)"
    "\<forall>va. l4_index va \<noteq> 256 \<longrightarrow> mappable (mem s) va \<longrightarrow> mappable (mem s') va"
proof -
  have g: "unat ((size_mem + 0x3fffffff) div 0x40000000) = gigs size_mem" "gigs size_mem \<le> 511"
    using unat_gigs(1) [of size_mem] size by (simp_all add: gigs_def)
  have lt: "gigs size_mem < 2 ^ 17" using g(2) by simp
  have idx: "of_nat (256 + gigs size_mem div 512) = (256 :: index)" using g(2) by simp
  obtain s' where s': "build_physical_map size_mem s = Some s'" "cr3 s' = p4table"
    "tables_ok (mem s') (pt_it s')" "unat (pt_it s') = unat (pt_it s) + 4096"
    "trace s' = LoadCR3 p4table # trace s" "column_counter s' = column_counter s"
    "foreground s' = foreground s" "background s' = background s"
    "\<forall>x. \<not> in_tables (mem s) x \<and> \<not> fresh s s' x \<longrightarrow> mem s' x = mem s x"
    "\<forall>x. in_tables (mem s') x \<longrightarrow> in_tables (mem s) x \<or> fresh s s' x"
    "\<forall>q. length q \<le> 4 \<and> \<not> suffix [256] q \<longrightarrow> pte (mem s') q = pte (mem s) q"
    "\<forall>j. pte (mem s') [j, 256]
        = (if unat j < gigs size_mem then giga (of_nat (last_gig (gigs size_mem) (unat j))) else 0)"
    "present (pte (mem s') [256]) \<and> \<not> huge_page (pte (mem s') [256])"
    by (rule build_run [OF ok room g(1) [symmetric] lt, unfolded idx])
  have "walk (mem s') p4table va = (if l4_index va = 256
      then if unat (take_bit 39 va) < gigs size_mem * 2 ^ 30 then Some (take_bit 39 va) else None
      else walk (mem s) p4table va)" for va
    unfolding walk_pte [OF ok] walk_pte [OF s'(3)]
    by (rule window_walk) (use s'(11,12,13) g(2) in \<open>simp_all add: last_gig_small\<close>)
  moreover have "mappable (mem s') va" if "l4_index va \<noteq> 256" "mappable (mem s) va" for va
  proof -
    have "pte (mem s') q = pte (mem s) q" if "q \<in> {[l4_index va], [l3_index va, l4_index va], huge_path va}" for q
      using that \<open>l4_index va \<noteq> 256\<close> s'(11) by (auto simp: suffix_Cons huge_path_def)
    then show ?thesis using that(2) by (simp add: mappable_def)
  qed
  ultimately show ?thesis using that [OF s'(1-10)] by blast
qed

lemma window_test:
  assumes id: "\<And>va. unat va < 2 ^ 20 \<Longrightarrow> walk m root va = Some va"
    and win: "\<And>va. l4_index va = 256 \<Longrightarrow> unat (take_bit 39 va) < 2 ^ 30 \<Longrightarrow> walk m root va = Some (take_bit 39 va)"
  shows "mmu_memcmp 1048576 m root 0 0xFFFF800000000000 = Inr 0"
proof (rule mmu_memcmp_same)
  fix j :: nat
  assume j: "j < 1048576"
  then have u: "unat (of_nat j :: u64) = j" by (simp add: unat_of_nat)
  have w: "unat ((0xFFFF800000000000 :: u64) + of_nat j) = 0xFFFF800000000000 + j"
    using j by (subst unat_add_of_nat) simp_all
  have "(0xFFFF800000000000 + j) div 2 ^ 39 = 0x1FFFF00" using j by simp
  then have l4: "l4_index (0xFFFF800000000000 + of_nat j) = 256"
    using w by (simp add: word_unat_eq_iff unat_index)
  have t: "unat (take_bit 39 ((0xFFFF800000000000 :: u64) + of_nat j)) = j"
    unfolding unsigned_take_bit_eq w using j mod_mult_self4 [of "2 ^ 39" "0x1FFFF00" j]
    by (simp add: take_bit_nat_def)
  then have "take_bit 39 ((0xFFFF800000000000 :: u64) + of_nat j) = of_nat j"
    using u by (simp only: word_unat_eq_iff)
  then show "\<exists>p. walk m root (0 + of_nat j) = Some p \<and> walk m root (0xFFFF800000000000 + of_nat j) = Some p"
    using id [of "of_nat j"] win [OF l4] t u j by simp
qed

section \<open>Printing leaves the tables alone\<close>

lemma vga_above_tables:
  assumes "tables_ok m it" and "in_tables m x"
  shows "x \<notin> vga_region"
  using in_tables_below [OF assms] tables_ok_it [OF assms(1)]
  by (auto simp: vga_region_def span_iff vga_buffer_def pt_limit_def)

lemma console_same_tables:
  assumes ok: "tables_ok (mem s) (pt_it s)" and same: "console_same s t"
  shows "tables_ok (mem t) (pt_it t)" "walk (mem t) p4table va = walk (mem s) p4table va"
    "length q \<le> 4 \<Longrightarrow> pte (mem t) q = pte (mem s) q" "in_tables (mem t) = in_tables (mem s)"
proof -
  have "mem t x = mem s x" if "in_tables (mem s) x" for x
    using same vga_above_tables [OF ok that] by (simp add: console_same_def)
  note fr = tables_frame_ok [OF ok this] walk_frame [OF ok this] tables_frame(2) [OF ok this]
  show "walk (mem t) p4table va = walk (mem s) p4table va"
    "length q \<le> 4 \<Longrightarrow> pte (mem t) q = pte (mem s) q" "in_tables (mem t) = in_tables (mem s)"
    by (rule fr; simp)+
  have "pt_it t = pt_it s" using same by (simp add: console_same_def)
  then show "tables_ok (mem t) (pt_it t)" using fr(1) by simp
qed

lemma console_same_mappable:
  assumes "tables_ok (mem s) (pt_it s)" and "console_same s t" and "mappable (mem s) va"
  shows "mappable (mem t) va"
  using assms(3) console_same_tables(3) [OF assms(1,2)] by (simp add: mappable_def huge_path_def)

section \<open>setup_physical_map\<close>

lemma self_test_passes:
  assumes window: "\<forall>va. walk m p4table va = (if l4_index va = 256
      then if unat (take_bit 39 va) < g * 2 ^ 30 then Some (take_bit 39 va) else None else w va)"
    and g: "1 \<le> g" and id: "\<forall>va. unat va < 2 ^ 20 \<longrightarrow> w va = Some va"
  shows "mmu_memcmp 1048576 m p4table 0 0xFFFF800000000000 = Inr 0"
proof (rule window_test)
  show "walk m p4table va = Some va" if "unat va < 2 ^ 20" for va
  proof -
    have "l4_index va \<noteq> 256" using that by (auto simp: word_unat_eq_iff unat_index)
    then show ?thesis using window id that by simp
  qed
  show "walk m p4table va = Some (take_bit 39 va)"
    if "l4_index va = 256" "unat (take_bit 39 va) < 2 ^ 30" for va
    using that g window by simp
qed

lemma setup_run:
  assumes live: "serial_live D" and ok: "tables_ok (mem s) (pt_it s)"
    and room: "unat (pt_it s) + 4096 \<le> pt_limit"
    and size: "0 < size_mem" "unat size_mem \<le> 511 * 2 ^ 30"
    and id: "\<forall>va. unat va < 2 ^ 20 \<longrightarrow> walk (mem s) p4table va = Some va"
  obtains s' where "setup_physical_map D size_mem s = Some (Inr s')" "cr3 s' = p4table"
    "tables_ok (mem s') (pt_it s')" "unat (pt_it s') = unat (pt_it s) + 4096"
    "transmitted (trace s') = transmitted (trace s) @ bytes ''Physical Page Table mapping is correct'' @ [nl]"
    "\<forall>va. walk (mem s') p4table va = (if l4_index va = 256
      then if unat (take_bit 39 va) < gigs size_mem * 2 ^ 30 then Some (take_bit 39 va) else None
      else walk (mem s) p4table va)"
    "\<forall>va. l4_index va \<noteq> 256 \<longrightarrow> mappable (mem s) va \<longrightarrow> mappable (mem s') va"
    "\<forall>x. \<not> in_tables (mem s) x \<and> \<not> fresh s s' x \<and> x \<notin> vga_region \<longrightarrow> mem s' x = mem s x"
    "\<forall>x. in_tables (mem s') x \<longrightarrow> in_tables (mem s) x \<or> fresh s s' x"
    "foreground s' = foreground s" "background s' = background s"
    "unat (column_counter s) \<le> VGA_COLS \<longrightarrow> unat (column_counter s') \<le> VGA_COLS"
proof -
  obtain b where b: "build_physical_map size_mem s = Some b" "cr3 b = p4table"
    "tables_ok (mem b) (pt_it b)" "unat (pt_it b) = unat (pt_it s) + 4096"
    "trace b = LoadCR3 p4table # trace s" "column_counter b = column_counter s"
    "foreground b = foreground s" "background b = background s"
    "\<forall>x. \<not> in_tables (mem s) x \<and> \<not> fresh s b x \<longrightarrow> mem b x = mem s x"
    "\<forall>x. in_tables (mem b) x \<longrightarrow> in_tables (mem s) x \<or> fresh s b x"
    "\<forall>va. walk (mem b) p4table va = (if l4_index va = 256
      then if unat (take_bit 39 va) < gigs size_mem * 2 ^ 30 then Some (take_bit 39 va) else None
      else walk (mem s) p4table va)"
    "\<forall>va. l4_index va \<noteq> 256 \<longrightarrow> mappable (mem s) va \<longrightarrow> mappable (mem b) va"
    by (rule build_window [OF ok room size(2)])
  have "0 < unat size_mem" using size(1) by (simp add: word_less_nat_alt)
  then have g: "1 \<le> gigs size_mem" by (simp add: gigs_def)
  have test: "mmu_memcmp 1048576 (mem b) (cr3 b) 0 0xFFFF800000000000 = Inr 0"
    unfolding b(2) by (rule self_test_passes [OF b(11) g id])
  let ?msg = "bytes ''Physical Page Table mapping is correct'' @ [nl]"
  obtain s' where e: "emit (putc D) ?msg b = Some s'" "console_same b s'"
    "transmitted (trace s') = transmitted (trace b) @ ?msg"
    using console.emit_ok [OF live, of ?msg b] by blast
  have "setup_physical_map D size_mem s = Option.bind (emit (putc D) ?msg b) (\<lambda>s. Some (Inr s))"
    using b(1) test by (simp add: setup_physical_map_def) (simp add: console_emit emit_fuse del: emit.simps)
  with e(1) have run: "setup_physical_map D size_mem s = Some (Inr s')" by simp
  note same = console_same_tables [OF b(3) e(2)]
  have pt: "pt_it s' = pt_it b" "cr3 s' = cr3 b" "foreground s' = foreground b" "background s' = background b"
    "unat (column_counter b) \<le> VGA_COLS \<longrightarrow> unat (column_counter s') \<le> VGA_COLS"
    using e(2) by (simp_all add: console_same_def)
  show ?thesis
  proof (rule that [OF run])
    show "\<forall>va. l4_index va \<noteq> 256 \<longrightarrow> mappable (mem s) va \<longrightarrow> mappable (mem s') va"
      using b(12) console_same_mappable [OF b(3) e(2)] by blast
    show "\<forall>x. \<not> in_tables (mem s) x \<and> \<not> fresh s s' x \<and> x \<notin> vga_region \<longrightarrow> mem s' x = mem s x"
      using b(9) e(2) pt(1) by (simp add: console_same_def fresh_def)
    show "\<forall>x. in_tables (mem s') x \<longrightarrow> in_tables (mem s) x \<or> fresh s s' x"
      using b(10) same(4) pt(1) by (simp add: fresh_def)
    show "transmitted (trace s') = transmitted (trace s) @ bytes ''Physical Page Table mapping is correct'' @ [nl]"
      using e(3) b(5) by (simp add: transmitted_append)
  qed (use b pt same in simp_all)
qed

lemma window_address:
  assumes "unat a < 2 ^ 39"
  shows "l4_index (physical_to_virtual_address a) = 256" "take_bit 39 (physical_to_virtual_address a) = a"
proof -
  have m: "(0xFFFF800000000000 :: u64) = push_bit 47 (mask 17)" by (simp add: mask_eq_exp_minus_1)
  have "take_bit 39 a = a"
    using assms by (simp add: word_unat_eq_iff unsigned_take_bit_eq take_bit_nat_eq_self)
  then have a: "bit a k \<Longrightarrow> k < 39" for k by (metis bit_take_bit_iff)
  show "take_bit 39 (physical_to_virtual_address a) = a"
    unfolding physical_to_virtual_address_def m
    by (rule bit_word_eqI) (auto simp: bit_take_bit_iff bit_or_iff bit_push_bit_iff dest: a)
  have i: "(256 :: index) = push_bit 8 1" by simp
  show "l4_index (physical_to_virtual_address a) = 256"
    unfolding physical_to_virtual_address_def l4_index_def m i
    by (rule bit_word_eqI)
      (auto simp: bit_ucast_iff bit_drop_bit_eq bit_or_iff bit_push_bit_iff bit_mask_iff bit_1_iff dest: a
        simp del: push_bit_of_1)
qed

section \<open>Properties\<close>

text \<open>C11. On well-formed tables that map the low megabyte to itself, for a memory of 1 to 511 GiB,
  \<open>setup_physical_map\<close> passes its own test, prints that the mapping is correct and returns with
  well-formed tables, loaded in CR3, that translate the window at 0xFFFF800000000000 to the
  physical addresses below the size rounded up to GiB, and every address outside the window's
  level-4 entry as before.\<close>

theorem physical_map_windows:
  assumes "serial_live D" and "tables_ok (mem s) (pt_it s)" and "unat (pt_it s) + 4096 \<le> pt_limit"
    and "0 < size_mem" and "unat size_mem \<le> 511 * 2 ^ 30"
    and "\<forall>va. unat va < 2 ^ 20 \<longrightarrow> walk (mem s) p4table va = Some va"
  shows "\<exists>s'. setup_physical_map D size_mem s = Some (Inr s') \<and> cr3 s' = p4table \<and>
    tables_ok (mem s') (pt_it s') \<and>
    transmitted (trace s') = transmitted (trace s) @ bytes ''Physical Page Table mapping is correct'' @ [nl] \<and>
    (\<forall>va. walk (mem s') p4table va = (if l4_index va = 256
      then if unat (take_bit 39 va) < gigs size_mem * 2 ^ 30 then Some (take_bit 39 va) else None
      else walk (mem s) p4table va))"
  by (rule setup_run [OF assms]) blast

theorem physical_map_windows_witness:
  "\<exists>s'. setup_physical_map ready_device 0x8000000 (boot_machine (\<lambda>_. 0)) = Some (Inr s') \<and>
    walk (mem s') p4table 0xFFFF800001234567 = Some 0x1234567 \<and> walk (mem s') p4table 0xFFFF800040000000 = None"
proof -
  let ?s = "boot_machine (\<lambda>_. 0)"
  have room: "unat (pt_it ?s) + 4096 \<le> pt_limit" and sz: "(0 :: u64) < 0x8000000"
    "unat (0x8000000 :: u64) \<le> 511 * 2 ^ 30" by (simp_all add: pt_limit_def)
  have id: "\<forall>va. unat va < 2 ^ 20 \<longrightarrow> walk (mem ?s) p4table va = Some va"
    using boot_identity by (simp add: p4table_def)
  from physical_map_windows [OF ready_device_live boot_machine_ok room sz id] obtain s' where
    s': "setup_physical_map ready_device 0x8000000 ?s = Some (Inr s')"
    "\<forall>va. walk (mem s') p4table va = (if l4_index va = 256
      then if unat (take_bit 39 va) < gigs 0x8000000 * 2 ^ 30 then Some (take_bit 39 va) else None
      else walk (mem ?s) p4table va)"
    by (elim exE conjE)
  have "gigs 0x8000000 = 1" by (simp add: gigs_def)
  moreover have "l4_index 0xFFFF800001234567 = 256" "l4_index 0xFFFF800040000000 = 256"
    by (simp_all add: l4_index_def)
  moreover have "take_bit 39 (0xFFFF800001234567 :: u64) = 0x1234567"
    "take_bit 39 (0xFFFF800040000000 :: u64) = 0x40000000" by (simp_all add: take_bit_eq_mod)
  ultimately show ?thesis using s' by (intro exI [of _ s']) simp
qed

text \<open>After \<open>setup_physical_map\<close>, \<open>physical_to_virtual_pointer\<close> reaches physical memory:
  the pointer it makes for an address below the mapped size translates back to that address.\<close>

lemma physical_pointer_roundtrip:
  assumes "serial_live D" and "tables_ok (mem s) (pt_it s)" and "unat (pt_it s) + 4096 \<le> pt_limit"
    and "0 < size_mem" and "unat size_mem \<le> 511 * 2 ^ 30"
    and "\<forall>va. unat va < 2 ^ 20 \<longrightarrow> walk (mem s) p4table va = Some va"
    and "unat a < gigs size_mem * 2 ^ 30"
  shows "\<exists>s'. setup_physical_map D size_mem s = Some (Inr s') \<and>
    walk (mem s') (cr3 s') (physical_to_virtual_pointer a) = Some a"
proof -
  have "gigs size_mem \<le> 511" using assms(5) by (simp add: gigs_def)
  then have "gigs size_mem * 2 ^ 30 \<le> 511 * 2 ^ 30" by (rule mult_le_mono1)
  then have a: "unat a < 2 ^ 39" using assms(7) by simp
  show ?thesis
    by (rule setup_run [OF assms(1-6)])
      (use window_address [OF a] assms(7) in \<open>simp add: physical_to_virtual_pointer_def\<close>)
qed

theorem physical_pointer_roundtrip_witness:
  "\<exists>s'. setup_physical_map ready_device 0x8000000 (boot_machine (\<lambda>_. 0)) = Some (Inr s') \<and>
    walk (mem s') (cr3 s') (physical_to_virtual_pointer 0x100000) = Some 0x100000"
  by (rule physical_pointer_roundtrip [OF ready_device_live boot_machine_ok])
    (use boot_identity in \<open>simp_all add: pt_limit_def gigs_def p4table_def\<close>)

text \<open>C12. From 512 GiB of memory on, the table is linked in a level-4 entry after the window's (the
  index is taken after the loop has moved the address on), by one for every 512 GiB. The 512 GiB of
  addresses there translate to the last gigabytes that the loop wrote into the table, going round it;
  every other address translates as before. When the window's entry was absent before, the window is
  unmapped and the self-test faults at its first byte, with the new table loaded and nothing printed.\<close>

theorem physical_map_wrong_slot:
  assumes "tables_ok (mem s) (pt_it s)" and "unat (pt_it s) + 4096 \<le> pt_limit"
    and "511 * 2 ^ 30 < unat size_mem" and "unat size_mem \<le> 2 ^ 47 - 2 ^ 30"
    and "\<not> present (pte (mem s) [256])" and "walk (mem s) p4table 0 \<noteq> None"
  shows "\<exists>t. setup_physical_map D size_mem s = Some (Inl (PageFault 0xFFFF800000000000, t)) \<and>
    cr3 t = p4table \<and> trace t = LoadCR3 p4table # trace s \<and> tables_ok (mem t) (pt_it t) \<and>
    (\<forall>va. walk (mem t) p4table va = (if l4_index va = of_nat (256 + gigs size_mem div 512)
       then Some (push_bit 30 (of_nat (last_gig (gigs size_mem) (unat (l3_index va)))) OR take_bit 30 va)
       else walk (mem s) p4table va)) \<and>
    (\<forall>va. l4_index va = 256 \<longrightarrow> walk (mem t) p4table va = None)"
proof -
  let ?n = "gigs size_mem" and ?i = "of_nat (256 + gigs size_mem div 512) :: index"
  have g: "unat ((size_mem + 0x3fffffff) div 0x40000000) = ?n" "512 \<le> ?n" "?n < 2 ^ 17"
    using unat_gigs(1) [of size_mem] assms(3,4) by (simp_all add: gigs_def)
  have q: "1 \<le> ?n div 512" "?n div 512 < 256" using g(2,3) by simp_all
  have i: "unat ?i = 256 + ?n div 512" using q by (intro index_of_nat) simp
  then have slot: "?i \<noteq> 256" "?i \<noteq> 0" using q by (auto simp: word_unat_eq_iff)
  obtain b where b: "build_physical_map size_mem s = Some b" "cr3 b = p4table"
    "tables_ok (mem b) (pt_it b)" "trace b = LoadCR3 p4table # trace s"
    "\<forall>q. length q \<le> 4 \<and> \<not> suffix [?i] q \<longrightarrow> pte (mem b) q = pte (mem s) q"
    "\<forall>j. pte (mem b) [j, ?i] = (if unat j < ?n then giga (of_nat (last_gig ?n (unat j))) else 0)"
    "present (pte (mem b) [?i]) \<and> \<not> huge_page (pte (mem b) [?i])"
    by (rule build_run [OF assms(1,2) g(1) [symmetric] g(3)])
  have "unat j < ?n \<and> last_gig ?n (unat j) < 2 ^ 22" for j :: index
  proof -
    have "unat j < 512" using unsigned_less [of j] by simp
    moreover have "512 * ((?n - 1 - unat j) div 512) \<le> ?n" by (rule le_trans [OF times_div_less_eq_dividend]) simp
    ultimately show ?thesis using g(2,3) by (simp add: last_gig_def)
  qed
  then have w: "walk (mem b) p4table va = (if l4_index va = ?i
       then Some (push_bit 30 (of_nat (last_gig ?n (unat (l3_index va)))) OR take_bit 30 va)
       else walk (mem s) p4table va)" for va
    unfolding walk_pte [OF assms(1)] walk_pte [OF b(3)]
    by (intro slot_walk) (use b(5,6,7) in simp_all)
  have none: "walk (mem b) p4table va = None" if "l4_index va = 256" for va
    using w [of va] assms(5) that slot(1) unfolding walk_pte [OF assms(1)] by (simp add: walk_tree_def)
  have "l4_index 0 = 0" "l4_index 0xFFFF800000000000 = 256" by (simp_all add: l4_index_def)
  then have "mmu_memcmp (Suc k) (mem b) (cr3 b) 0 0xFFFF800000000000 = Inl 0xFFFF800000000000" for k
    using w [of 0] none assms(6) slot(2) unfolding b(2) by auto
  from this [of 1048575] have "mmu_memcmp 1048576 (mem b) (cr3 b) 0 0xFFFF800000000000 = Inl 0xFFFF800000000000"
    by simp
  then have "setup_physical_map D size_mem s = Some (Inl (PageFault 0xFFFF800000000000, b))"
    using b(1) by (simp add: setup_physical_map_def)
  then show ?thesis using b(2,3,4) w none by blast
qed

theorem physical_map_wrong_slot_witness:
  "\<exists>t. setup_physical_map ready_device 0x8000000000 (boot_machine (\<lambda>_. 0))
      = Some (Inl (PageFault 0xFFFF800000000000, t)) \<and>
    walk (mem t) p4table 0xFFFF808000001234 = Some 0x1234 \<and> walk (mem t) p4table 0xFFFF800000001234 = None"
proof -
  let ?s = "boot_machine (\<lambda>_. 0)"
  have "pte (setup_paging (\<lambda>_. 0)) [256] = 0"
    using boot_loads(1) [of "\<lambda>_. 0" 256] by (simp add: pte.simps p4table_def)
  then have absent: "\<not> present (pte (mem ?s) [256])" by simp
  have low: "walk (mem ?s) p4table 0 \<noteq> None" using boot_identity [of 0] by (simp add: p4table_def)
  have sz: "unat (pt_it ?s) + 4096 \<le> pt_limit" "511 * 2 ^ 30 < unat (0x8000000000 :: u64)"
    "unat (0x8000000000 :: u64) \<le> 2 ^ 47 - 2 ^ 30" by (simp_all add: pt_limit_def)
  from physical_map_wrong_slot [OF boot_machine_ok sz absent low, of ready_device] obtain t where
    t: "setup_physical_map ready_device 0x8000000000 ?s = Some (Inl (PageFault 0xFFFF800000000000, t))"
    "\<forall>va. walk (mem t) p4table va = (if l4_index va = of_nat (256 + gigs 0x8000000000 div 512)
       then Some (push_bit 30 (of_nat (last_gig (gigs 0x8000000000) (unat (l3_index va)))) OR take_bit 30 va)
       else walk (mem ?s) p4table va)"
    "\<forall>va. l4_index va = 256 \<longrightarrow> walk (mem t) p4table va = None"
    by (elim exE conjE)
  have "gigs 0x8000000000 = 512" by (simp add: gigs_def)
  moreover have "l4_index 0xFFFF808000001234 = 257" "l3_index 0xFFFF808000001234 = 0" "l4_index 0xFFFF800000001234 = 256"
    by (simp_all add: l4_index_def l3_index_def)
  ultimately show ?thesis using t by (intro exI [of _ t]) (simp add: last_gig_def take_bit_eq_mod)
qed

end
