(* ===== verification/Ata.thy ===== *)
theory Ata
  imports Machine
begin

text \<open>
  The ATA disk in PIO mode (\<open>src/ata.c\<close>), and the contract with the drive behind the ports:
  which sector data it returns for the registers last written. The contract is stated about an
  arbitrary device environment.
\<close>

section \<open>Operations\<close>

definition PIO_STATUS_BSY :: u8 where "PIO_STATUS_BSY = 0x80"
definition PIO_STATUS_RDY :: u8 where "PIO_STATUS_RDY = 0x40"

definition not_busy :: "u8 \<Rightarrow> bool" where
  "not_busy v \<longleftrightarrow> v AND PIO_STATUS_BSY = 0"

definition drive_ready :: "u8 \<Rightarrow> bool" where
  "drive_ready v \<longleftrightarrow> v AND PIO_STATUS_RDY \<noteq> 0"

definition ATA_PIO_wait_BSY :: "device \<Rightarrow> machine \<Rightarrow> machine option" where
  "ATA_PIO_wait_BSY D s = poll D 0x1F7 not_busy s"

definition ATA_PIO_wait_DRQ :: "device \<Rightarrow> machine \<Rightarrow> machine option" where
  "ATA_PIO_wait_DRQ D s = poll D 0x1F7 drive_ready s"

text \<open>The six register writes that start a command on \<open>num_sectors\<close> sectors.\<close>

definition ata_command :: "u32 \<Rightarrow> u8 \<Rightarrow> u8 \<Rightarrow> machine \<Rightarrow> machine" where
  "ata_command first_sector num_sectors command s =
     (let s = io_out8 0x1F6 (ucast (0xE0 OR (drop_bit 24 first_sector AND 0xF))) s;
          s = io_out8 0x1F2 num_sectors s;
          s = io_out8 0x1F3 (ucast first_sector) s;
          s = io_out8 0x1F4 (ucast (drop_bit 8 first_sector)) s;
          s = io_out8 0x1F5 (ucast (drop_bit 16 first_sector)) s
      in io_out8 0x1F7 command s)"

definition read_word :: "device \<Rightarrow> u64 \<Rightarrow> nat \<Rightarrow> machine \<Rightarrow> machine" where
  "read_word D dest i s =
     (let (v, s) = io_in16 D 0x1F0 s in s\<lparr>mem := store16 (mem s) (dest + of_nat (2 * i)) v\<rparr>)"

primrec read_sectors_loop :: "nat \<Rightarrow> device \<Rightarrow> u64 \<Rightarrow> machine \<Rightarrow> machine option" where
  "read_sectors_loop 0 D dest s = Some s"
| "read_sectors_loop (Suc k) D dest s = do {
     s \<leftarrow> ATA_PIO_wait_BSY D s;
     s \<leftarrow> ATA_PIO_wait_DRQ D s;
     read_sectors_loop k D (dest + 512) (fold (read_word D dest) [0..<256] s) }"

definition ATA_PIO_read_sectors :: "device \<Rightarrow> u64 \<Rightarrow> u32 \<Rightarrow> u8 \<Rightarrow> machine \<Rightarrow> machine option" where
  "ATA_PIO_read_sectors D dst first_sector num_sectors s = do {
     s \<leftarrow> ATA_PIO_wait_BSY D s;
     read_sectors_loop (unat num_sectors) D dst (ata_command first_sector num_sectors 0x20 s) }"

definition write_long :: "u64 \<Rightarrow> nat \<Rightarrow> machine \<Rightarrow> machine" where
  "write_long data i s = io_out32 0x1F0 (load32 (mem s) (data + of_nat (4 * i))) s"

primrec write_sectors_loop :: "nat \<Rightarrow> device \<Rightarrow> u64 \<Rightarrow> machine \<Rightarrow> machine option" where
  "write_sectors_loop 0 D data s = Some s"
| "write_sectors_loop (Suc k) D data s = do {
     s \<leftarrow> ATA_PIO_wait_BSY D s;
     s \<leftarrow> ATA_PIO_wait_DRQ D s;
     write_sectors_loop k D (data + 1024) (fold (write_long data) [0..<256] s) }"

definition ATA_PIO_write_sectors :: "device \<Rightarrow> u64 \<Rightarrow> u32 \<Rightarrow> u8 \<Rightarrow> machine \<Rightarrow> machine option" where
  "ATA_PIO_write_sectors D src first_sector num_sectors s = do {
     s \<leftarrow> ATA_PIO_wait_BSY D s;
     write_sectors_loop (unat num_sectors) D src (ata_command first_sector num_sectors 0x30 s) }"

section \<open>The contract of the drive\<close>

text \<open>
  What a drive knows after a history: the registers last written, how many data words it has
  delivered since the last read command (\<open>None\<close> when another command was given or a register was
  rewritten), and whether a read of the status register since then, or since the last whole sector,
  has shown that data is offered: not busy, data request, and neither error nor device fault.
\<close>

record ata_regs =
  r_drive :: u8
  r_count :: u8
  r_lba0 :: u8
  r_lba1 :: u8
  r_lba2 :: u8
  r_reading :: "nat option"
  r_ready :: bool

definition data_offered :: "u8 \<Rightarrow> bool" where
  "data_offered v \<longleftrightarrow> \<not> bit v 7 \<and> bit v 3 \<and> \<not> bit v 0 \<and> \<not> bit v 5"

fun ata_event :: "io_event \<Rightarrow> ata_regs \<Rightarrow> ata_regs" where
  "ata_event (Out8 p v) r =
     (if p = 0x1F6 then r\<lparr>r_drive := v, r_reading := None\<rparr>
      else if p = 0x1F2 then r\<lparr>r_count := v, r_reading := None\<rparr>
      else if p = 0x1F3 then r\<lparr>r_lba0 := v, r_reading := None\<rparr>
      else if p = 0x1F4 then r\<lparr>r_lba1 := v, r_reading := None\<rparr>
      else if p = 0x1F5 then r\<lparr>r_lba2 := v, r_reading := None\<rparr>
      else if p = 0x1F7 then r\<lparr>r_reading := (if v = 0x20 then Some 0 else None), r_ready := False\<rparr>
      else r)"
| "ata_event (In8 p v) r =
     (if p = 0x1F7 then r\<lparr>r_ready := r_ready r \<or> data_offered v\<rparr> else r)"
| "ata_event (In16 p v) r =
     (if p = 0x1F0
      then (case r_reading r of
         None \<Rightarrow> r
       | Some k \<Rightarrow> r\<lparr>r_reading := Some (Suc k), r_ready := r_ready r \<and> Suc k mod 256 \<noteq> 0\<rparr>)
      else r)"
| "ata_event _ r = r"

primrec ata_after :: "history \<Rightarrow> ata_regs" where
  "ata_after [] = \<lparr>r_drive = 0, r_count = 0, r_lba0 = 0, r_lba1 = 0, r_lba2 = 0, r_reading = None, r_ready = False\<rparr>"
| "ata_after (e # h) = ata_event e (ata_after h)"

text \<open>The 28-bit block address and the number of sectors of a command (0 stands for 256).\<close>

definition ata_lba :: "ata_regs \<Rightarrow> nat" where
  "ata_lba r = unat (r_lba0 r) + 2 ^ 8 * unat (r_lba1 r) + 2 ^ 16 * unat (r_lba2 r)
     + 2 ^ 24 * (unat (r_drive r) mod 16)"

definition ata_sectors :: "ata_regs \<Rightarrow> nat" where
  "ata_sectors r = (if r_count r = 0 then 256 else unat (r_count r))"

text \<open>
  A drive with contents \<open>disk\<close> (bytes by absolute offset) that answers without errors: the status
  register eventually shows not busy and ready; while words of a read are outstanding, a status that
  is not busy offers data (BSY = 0 and DRQ = 1, as the ATA standard has it); and only when a status
  read has offered the sector does the data register deliver its words, in order. Nothing is promised
  of the data register before.

  The code waits for the ready bit where the standard has the host wait for DRQ. It is the second
  promise, and the wait for BSY, that make its reads correct.
\<close>

type_synonym disk = "nat \<Rightarrow> u8"

definition outstanding :: "ata_regs \<Rightarrow> bool" where
  "outstanding r = (case r_reading r of None \<Rightarrow> False | Some k \<Rightarrow> k < 256 * ata_sectors r)"

definition ata_drive :: "device \<Rightarrow> disk \<Rightarrow> bool" where
  "ata_drive D disk \<longleftrightarrow>
     (\<forall>h. answers D 0x1F7 not_busy h) \<and> (\<forall>h. answers D 0x1F7 drive_ready h) \<and>
     (\<forall>h. outstanding (ata_after h) \<and> \<not> bit (status D 0x1F7 h) 7 \<longrightarrow> data_offered (status D 0x1F7 h)) \<and>
     (\<forall>h k. outstanding (ata_after h) \<and> r_ready (ata_after h) \<and> r_reading (ata_after h) = Some k \<longrightarrow>
        ucast (D h 0x1F0) = (word_of_bytes [disk (512 * ata_lba (ata_after h) + 2 * k),
                                            disk (512 * ata_lba (ata_after h) + 2 * k + 1)] :: u16))"

lemma ata_driveD:
  assumes "ata_drive D disk"
  shows "answers D 0x1F7 not_busy h" "answers D 0x1F7 drive_ready h"
    "outstanding (ata_after h) \<Longrightarrow> \<not> bit (status D 0x1F7 h) 7 \<Longrightarrow> data_offered (status D 0x1F7 h)"
    "outstanding (ata_after h) \<Longrightarrow> r_ready (ata_after h) \<Longrightarrow> r_reading (ata_after h) = Some k \<Longrightarrow>
      ucast (D h 0x1F0) = (word_of_bytes [disk (512 * ata_lba (ata_after h) + 2 * k),
                                          disk (512 * ata_lba (ata_after h) + 2 * k + 1)] :: u16)"
  using assms unfolding ata_drive_def by blast+

text \<open>The events that reading causes, and what a read may change.\<close>

fun disk_event :: "io_event \<Rightarrow> bool" where
  "disk_event (In8 p v) \<longleftrightarrow> p = 0x1F7"
| "disk_event (Out8 p v) \<longleftrightarrow> p \<in> {0x1F2, 0x1F3, 0x1F4, 0x1F5, 0x1F6, 0x1F7}"
| "disk_event (In16 p v) \<longleftrightarrow> p = 0x1F0"
| "disk_event _ \<longleftrightarrow> False"

definition disk_same :: "machine \<Rightarrow> machine \<Rightarrow> bool" where
  "disk_same s s' \<longleftrightarrow>
     (\<exists>m es. s' = s\<lparr>mem := m, trace := es @ trace s\<rparr> \<and> (\<forall>e \<in> set es. disk_event e))"

lemma disk_sameI:
  "t = s\<lparr>mem := m, trace := es @ trace s\<rparr> \<Longrightarrow> \<forall>e \<in> set es. disk_event e \<Longrightarrow> disk_same s t"
  by (auto simp: disk_same_def)

lemma disk_same_refl [intro!, simp]: "disk_same s s"
  by (rule disk_sameI [where m = "mem s" and es = "[]"]) simp_all

lemma disk_same_trans: "disk_same s t \<Longrightarrow> disk_same t u \<Longrightarrow> disk_same s u"
  unfolding disk_same_def
  apply (elim exE conjE)
  subgoal for m m' es es' by (rule exI [of _ m'], rule exI [of _ "es' @ es"]) auto
  done

lemma disk_same_frame:
  assumes "disk_same s t"
  shows "column_counter t = column_counter s" "foreground t = foreground s"
    "background t = background s" "pt_it t = pt_it s" "cr3 t = cr3 s"
  using assms by (auto simp: disk_same_def)

text \<open>Reads of the status register change at most whether data has been offered.\<close>

definition regs_kept :: "ata_regs \<Rightarrow> ata_regs \<Rightarrow> bool" where
  "regs_kept r r' \<longleftrightarrow> r' = r\<lparr>r_ready := r_ready r'\<rparr>"

lemma regs_kept_refl [simp]: "regs_kept r r"
  by (simp add: regs_kept_def)

lemma regs_kept_ready [simp]: "regs_kept r (r\<lparr>r_ready := b\<rparr>)"
  by (simp add: regs_kept_def)

lemma regs_kept_trans: "regs_kept r r' \<Longrightarrow> regs_kept r' r'' \<Longrightarrow> regs_kept r r''"
  unfolding regs_kept_def by (metis ata_regs.surjective ata_regs.update_convs(7))

lemma regs_keptD:
  assumes "regs_kept r r'"
  shows "ata_lba r' = ata_lba r" "ata_sectors r' = ata_sectors r" "r_reading r' = r_reading r" "r_count r' = r_count r"
    "outstanding r' = outstanding r"
proof -
  obtain b where "r' = r\<lparr>r_ready := b\<rparr>" using assms unfolding regs_kept_def by blast
  then show "ata_lba r' = ata_lba r" "ata_sectors r' = ata_sectors r" "r_reading r' = r_reading r" "r_count r' = r_count r"
    "outstanding r' = outstanding r"
    by (simp_all add: ata_lba_def ata_sectors_def outstanding_def split: option.splits)
qed

lemma ata_after_reads8:
  "\<forall>e \<in> set es. \<exists>v. e = In8 p v \<Longrightarrow>
     regs_kept (ata_after h) (ata_after (es @ h)) \<and> (r_ready (ata_after h) \<longrightarrow> r_ready (ata_after (es @ h)))"
proof (induction es)
  case (Cons e es)
  then obtain v where "e = In8 p v" by auto
  then have "regs_kept (ata_after (es @ h)) (ata_after ((e # es) @ h)) \<and>
      (r_ready (ata_after (es @ h)) \<longrightarrow> r_ready (ata_after ((e # es) @ h)))" by simp
  then show ?case using Cons regs_kept_trans by fastforce
qed simp

lemma wait_run:
  assumes "answers D 0x1F7 ok (trace s)"
  obtains t where "poll D 0x1F7 ok s = Some t" "disk_same s t" "mem t = mem s"
    "regs_kept (ata_after (trace s)) (ata_after (trace t))"
    "r_ready (ata_after (trace s)) \<longrightarrow> r_ready (ata_after (trace t))"
proof -
  obtain es where es: "poll D 0x1F7 ok s = Some (s\<lparr>trace := es @ trace s\<rparr>)"
    "\<forall>e \<in> set es. \<exists>v. e = In8 0x1F7 v"
    using poll_run [OF assms] by blast
  have "disk_same s (s\<lparr>trace := es @ trace s\<rparr>)"
    using es(2) by (intro disk_sameI [where m = "mem s" and es = es]) auto
  from that [OF es(1) this] show ?thesis using ata_after_reads8 [OF es(2)] by simp
qed

lemma not_busy_bit: "not_busy v \<longleftrightarrow> \<not> bit v 7"
  by (simp add: not_busy_def PIO_STATUS_BSY_def bit_iff_and_push_bit_not_eq_0 push_bit_of_1)

text \<open>While words are outstanding, the wait for the end of BSY ends with the sector offered.\<close>

lemma wait_BSY_offers:
  assumes D: "ata_drive D disk" and out: "outstanding (ata_after (trace s))"
  obtains t where "ATA_PIO_wait_BSY D s = Some t" "disk_same s t" "mem t = mem s"
    "regs_kept (ata_after (trace s)) (ata_after (trace t))" "r_ready (ata_after (trace t))"
proof -
  obtain k where k: "first_answer D 0x1F7 not_busy (trace s) k"
    using ata_driveD(1) [OF D] unfolding answers_first by blast
  let ?h = "polls D 0x1F7 k (trace s)"
  obtain t where t: "ATA_PIO_wait_BSY D s = Some t" "disk_same s t" "mem t = mem s"
    "regs_kept (ata_after (trace s)) (ata_after (trace t))"
    using wait_run [OF ata_driveD(1) [OF D]] unfolding ATA_PIO_wait_BSY_def by metis
  have "t = s\<lparr>trace := polls D 0x1F7 (Suc k) (trace s)\<rparr>"
    using poll_first [OF k] t(1) by (simp add: ATA_PIO_wait_BSY_def)
  then have tr: "trace t = In8 0x1F7 (status D 0x1F7 ?h) # ?h" by (simp add: polls_Suc del: polls.simps)
  obtain es where "?h = es @ trace s" "\<forall>e \<in> set es. \<exists>v. e = In8 0x1F7 v" using polls_suffix by blast
  then have "outstanding (ata_after ?h)" using ata_after_reads8 regs_keptD(5) out by metis
  moreover have "\<not> bit (status D 0x1F7 ?h) 7" using k by (simp add: first_answer_def not_busy_bit)
  ultimately have "r_ready (ata_after (trace t))" unfolding tr using ata_driveD(3) [OF D] by simp
  with that t show ?thesis by blast
qed

section \<open>Reading\<close>

text \<open>\<open>deposit m a n f\<close>: the \<open>n\<close> bytes from \<open>a\<close> on (modulo \<open>2 ^ 64\<close>) are \<open>f 0, f 1, \<dots>\<close>.\<close>

definition deposit :: "mem \<Rightarrow> u64 \<Rightarrow> nat \<Rightarrow> view \<Rightarrow> mem" where
  "deposit m a n f = (\<lambda>x. if x \<in> span a n then f (unat (x - a)) else m x)"

lemma deposit_0 [simp]: "deposit m a 0 f = m"
  by (simp add: deposit_def)

lemma offset_iff: "j < 2 ^ 64 \<Longrightarrow> x = a + of_nat j \<longleftrightarrow> unat (x - a) = j" for x a :: u64
proof -
  assume "j < 2 ^ 64"
  then have "unat (of_nat j :: u64) = j" by (simp add: unat_of_nat)
  moreover have "x = a + of_nat j \<longleftrightarrow> x - a = of_nat j" by (auto simp: algebra_simps)
  ultimately show ?thesis by (simp add: word_unat_eq_iff)
qed

lemma deposit_word:
  assumes "2 * n + 2 \<le> 2 ^ 64"
  shows "store16 (deposit m a (2 * n) f) (a + of_nat (2 * n))
       (word_of_bytes [f (2 * n), f (2 * n + 1)]) = deposit m a (2 * Suc n) f"
proof (rule ext)
  fix x
  let ?w = "word_of_bytes [f (2 * n), f (2 * n + 1)] :: u16"
  have w: "bytes_of 2 ?w = [f (2 * n), f (2 * n + 1)]"
    by (rule bytes_of_word_of_bytes) simp_all
  then have w0: "ucast ?w = f (2 * n)" and w1: "ucast (drop_bit 8 ?w) = f (2 * n + 1)"
    by (simp_all add: bytes_of_def upt_rec numeral_2_eq_2)
  have x0: "x = a + of_nat (2 * n) \<longleftrightarrow> unat (x - a) = 2 * n"
    using assms by (intro offset_iff) linarith
  have "a + of_nat (2 * n) + 1 = a + of_nat (2 * n + 1)" by simp
  then have x1: "x = a + of_nat (2 * n) + 1 \<longleftrightarrow> unat (x - a) = 2 * n + 1"
    using offset_iff [of "2 * n + 1" x a] assms by (metis Suc_1 add_2_eq_Suc' Suc_eq_plus1 Suc_le_lessD)
  show "store16 (deposit m a (2 * n) f) (a + of_nat (2 * n)) ?w x = deposit m a (2 * Suc n) f x"
    unfolding store16_apply x0 x1 w0 w1 deposit_def in_span by auto
qed

lemma deposit_deposit:
  assumes "n + k \<le> 2 ^ 64"
  shows "deposit (deposit m a n f) (a + of_nat n) k (\<lambda>i. f (n + i)) = deposit m a (n + k) f"
proof (rule ext)
  fix x
  show "deposit (deposit m a n f) (a + of_nat n) k (\<lambda>i. f (n + i)) x = deposit m a (n + k) f x"
  proof (cases "k = 0 \<or> n = 2 ^ 64")
    case True
    then show ?thesis using assms by auto
  next
    case False
    then have "n < 2 ^ 64" using assms by linarith
    then have n: "unat (of_nat n :: u64) = n" by (simp add: unat_of_nat)
    have "x - (a + of_nat n) = (x - a) - of_nat n" by simp
    then have "unat (x - (a + of_nat n))
        = (if n \<le> unat (x - a) then unat (x - a) - n else unat (x - a) + 2 ^ 64 - n)"
      unfolding \<open>x - (a + of_nat n) = (x - a) - of_nat n\<close>
      using unat_sub_if' [of "x - a" "of_nat n"] n by simp
    then show ?thesis using assms unat_lt_64 [of "x - a"] by (auto simp: deposit_def in_span)
  qed
qed

text \<open>
  One sector buffer: reading \<open>n\<close> words deposits the next \<open>2 * n\<close> bytes of the transfer.
  \<open>k\<close> words were read before.
\<close>

definition transfer :: "disk \<Rightarrow> ata_regs \<Rightarrow> nat \<Rightarrow> view" where
  "transfer disk r k i = disk (512 * ata_lba r + 2 * k + i)"

lemma ata_lba_reading [simp]: "ata_lba (r\<lparr>r_reading := x, r_ready := b\<rparr>) = ata_lba r"
  by (simp add: ata_lba_def)

lemma ata_sectors_reading [simp]: "ata_sectors (r\<lparr>r_reading := x, r_ready := b\<rparr>) = ata_sectors r"
  by (simp add: ata_sectors_def)

lemma transfer_reading [simp]: "transfer disk (r\<lparr>r_reading := x, r_ready := b\<rparr>) k = transfer disk r k"
  by (simp add: transfer_def fun_eq_iff)

lemma read_words_run:
  assumes D: "ata_drive D disk" and r: "r_reading (ata_after (trace s)) = Some k" "r_ready (ata_after (trace s))"
    and k: "k mod 256 = 0" "k + n \<le> 256 * ata_sectors (ata_after (trace s))" and n: "n \<le> 256"
  shows "let t = fold (read_word D dest) [0..<n] s in
    disk_same s t \<and> mem t = deposit (mem s) dest (2 * n) (transfer disk (ata_after (trace s)) k) \<and>
    ata_after (trace t) = (ata_after (trace s))\<lparr>r_reading := Some (k + n), r_ready := n < 256\<rparr>"
  using k(2) n
proof (induction n)
  case 0
  then show ?case using r by simp
next
  case (Suc n)
  let ?r = "ata_after (trace s)"
  define t where "t = fold (read_word D dest) [0..<n] s"
  have t: "disk_same s t" "mem t = deposit (mem s) dest (2 * n) (transfer disk ?r k)"
    "ata_after (trace t) = ?r\<lparr>r_reading := Some (k + n), r_ready := n < 256\<rparr>"
    using Suc by (simp_all add: Let_def t_def)
  have "r_reading (ata_after (trace t)) = Some (k + n)" "r_ready (ata_after (trace t))"
    "outstanding (ata_after (trace t))" using t(3) Suc.prems by (simp_all add: outstanding_def)
  then have "ucast (D (trace t) 0x1F0) = (word_of_bytes
      [disk (512 * ata_lba (ata_after (trace t)) + 2 * (k + n)),
       disk (512 * ata_lba (ata_after (trace t)) + 2 * (k + n) + 1)] :: u16)"
    by (intro ata_driveD(4) [OF D])
  then have v: "ucast (D (trace t) 0x1F0)
      = (word_of_bytes [transfer disk ?r k (2 * n), transfer disk ?r k (2 * n + 1)] :: u16)"
    using t(3) by (simp add: transfer_def algebra_simps)
  let ?v = "ucast (D (trace t) 0x1F0) :: u16"
  have step: "fold (read_word D dest) [0..<Suc n] s
      = t\<lparr>mem := store16 (mem t) (dest + of_nat (2 * n)) ?v, trace := In16 0x1F0 ?v # trace t\<rparr>"
    by (simp add: t_def read_word_def io_in16_def Let_def)
  have "store16 (mem t) (dest + of_nat (2 * n)) ?v
      = deposit (mem s) dest (2 * Suc n) (transfer disk ?r k)"
    unfolding v t(2) using Suc.prems(2) by (intro deposit_word) simp
  moreover have "disk_same t (fold (read_word D dest) [0..<Suc n] s)"
    unfolding step
    by (rule disk_sameI [where es = "[In16 0x1F0 ?v]" and m = "store16 (mem t) (dest + of_nat (2 * n)) ?v"]) simp_all
  moreover have "Suc (k + n) mod 256 \<noteq> 0 \<longleftrightarrow> Suc n < 256"
    using k(1) Suc.prems(2) by (auto simp: mod_Suc mod_add_eq [of k 256 n, symmetric])
  then have "ata_after (trace (fold (read_word D dest) [0..<Suc n] s))
      = ?r\<lparr>r_reading := Some (k + Suc n), r_ready := Suc n < 256\<rparr>"
    unfolding step using t(3) Suc.prems(2) by simp
  ultimately show ?case
    using disk_same_trans [OF t(1)] step by (simp add: Let_def)
qed

lemma read_sectors_loop_run:
  assumes D: "ata_drive D disk" and "r_reading (ata_after (trace s)) = Some k" and "k mod 256 = 0"
    and "k + 256 * j \<le> 256 * ata_sectors (ata_after (trace s))" and "512 * j \<le> 2 ^ 64"
  shows "\<exists>t. read_sectors_loop j D dest s = Some t \<and> disk_same s t \<and>
    mem t = deposit (mem s) dest (512 * j) (transfer disk (ata_after (trace s)) k)"
  using assms(2-)
proof (induction j arbitrary: s k dest)
  case 0
  then show ?case by simp
next
  case (Suc j)
  let ?r = "ata_after (trace s)"
  have "outstanding ?r" using Suc.prems(1,3) by (simp add: outstanding_def)
  then obtain t where t: "ATA_PIO_wait_BSY D s = Some t" "disk_same s t" "mem t = mem s"
    "regs_kept ?r (ata_after (trace t))" "r_ready (ata_after (trace t))"
    using wait_BSY_offers [OF D] by metis
  obtain u where u: "ATA_PIO_wait_DRQ D t = Some u" "disk_same t u" "mem u = mem t"
    "regs_kept (ata_after (trace t)) (ata_after (trace u))" "r_ready (ata_after (trace u))"
    using wait_run [OF ata_driveD(2) [OF D]] t(5) unfolding ATA_PIO_wait_DRQ_def by metis
  note kept = regs_keptD [OF regs_kept_trans [OF t(4) u(4)]]
  have tr: "transfer disk (ata_after (trace u)) k = transfer disk ?r k"
    using kept(1) by (simp add: transfer_def fun_eq_iff)
  define v where "v = fold (read_word D dest) [0..<256] u"
  have v: "disk_same u v" "mem v = deposit (mem s) dest 512 (transfer disk ?r k)"
    "ata_after (trace v) = (ata_after (trace u))\<lparr>r_reading := Some (k + 256), r_ready := False\<rparr>"
    using read_words_run [OF D _ u(5), of k 256 dest] Suc.prems t u kept tr by (simp_all add: Let_def v_def)
  have "r_reading (ata_after (trace v)) = Some (k + 256)" "(k + 256) mod 256 = 0"
    "k + 256 + 256 * j \<le> 256 * ata_sectors (ata_after (trace v))" "512 * j \<le> 2 ^ 64"
    using v(3) Suc.prems kept by simp_all
  from Suc.IH [OF this, of "dest + 512"] obtain w where
    w: "read_sectors_loop j D (dest + 512) v = Some w" "disk_same v w"
    "mem w = deposit (mem v) (dest + 512) (512 * j) (transfer disk (ata_after (trace v)) (k + 256))"
    by (elim exE conjE)
  have "transfer disk (ata_after (trace v)) (k + 256) = (\<lambda>i. transfer disk ?r k (512 + i))"
    using v(3) kept(1) by (simp add: transfer_def fun_eq_iff algebra_simps)
  then have "mem w = deposit (mem s) dest (512 * Suc j) (transfer disk ?r k)"
    using deposit_deposit [of 512 "512 * j" "mem s" dest "transfer disk ?r k"] w(3) v(2) Suc.prems
    by simp
  moreover have "read_sectors_loop (Suc j) D dest s = Some w"
    using t(1) u(1) w(1) by (simp add: v_def)
  moreover have "disk_same s w"
    using t(2) u(2) v(1) w(2) disk_same_trans by metis
  ultimately show ?case by blast
qed

text \<open>The registers after a command: the low 28 bits of the sector number, the count, the command.\<close>

lemma ata_after_command:
  "ata_after (trace (ata_command f n c s))
     = \<lparr>r_drive = ucast (0xE0 OR (drop_bit 24 f AND 0xF)), r_count = n, r_lba0 = ucast f,
        r_lba1 = ucast (drop_bit 8 f), r_lba2 = ucast (drop_bit 16 f),
        r_reading = (if c = 0x20 then Some 0 else None), r_ready = False\<rparr>"
  by (simp add: ata_command_def Let_def io_out8_def)

lemma ata_lba_command: "ata_lba (ata_after (trace (ata_command f n c s))) = unat f mod 2 ^ 28"
proof -
  have "unat (ucast (0xE0 OR (drop_bit 24 f AND 0xF)) :: u8) mod 16
      = unat (take_bit 4 (ucast (0xE0 OR (drop_bit 24 f AND 0xF)) :: u8))"
    by (simp add: unsigned_take_bit_eq take_bit_nat_def)
  also have "take_bit 4 (ucast (0xE0 OR (drop_bit 24 f AND 0xF)) :: u8) = ucast (take_bit 4 (drop_bit 24 f))"
    by (rule bit_word_eqI)
      (auto simp: bit_take_bit_iff bit_ucast_iff bit_or_iff bit_and_iff bit_drop_bit_eq
        less_Suc_eq numeral_eq_Suc)
  also have "unat (ucast (take_bit 4 (drop_bit 24 f)) :: u8) = unat f div 2 ^ 24 mod 2 ^ 4"
    by (simp add: unsigned_ucast_eq unsigned_take_bit_eq unat_drop_bit_eq drop_bit_nat_def
        take_bit_nat_def mod_mod_cancel)
  finally have d: "unat (ucast (0xE0 OR (drop_bit 24 f AND 0xF)) :: u8) mod 16
      = unat f div 2 ^ 24 mod 16" by simp
  have b: "unat (ucast f :: u8) = unat f mod 256"
    "unat (ucast (drop_bit 8 f) :: u8) = unat f div 256 mod 256"
    "unat (ucast (drop_bit 16 f) :: u8) = unat f div 65536 mod 256"
    by (simp_all add: unsigned_ucast_eq unat_drop_bit_eq drop_bit_nat_def take_bit_nat_def)
  have arith: "x mod 256 + 256 * (x div 256 mod 256) + 65536 * (x div 65536 mod 256)
      + 16777216 * (x div 16777216 mod 16) = x mod 268435456" for x :: nat
    using mod_mult2_eq [of x 256 1048576] mod_mult2_eq [of "x div 256" 256 4096]
      mod_mult2_eq [of "x div 65536" 256 16]
    by (simp add: div_mult2_eq [symmetric])
  show ?thesis
    unfolding ata_lba_def ata_after_command by (simp add: d b arith)
qed

lemma ata_command_same: "disk_same s (ata_command f n c s)" "mem (ata_command f n c s) = mem s"
proof -
  let ?es = "[Out8 0x1F7 c, Out8 0x1F5 (ucast (drop_bit 16 f)), Out8 0x1F4 (ucast (drop_bit 8 f)),
    Out8 0x1F3 (ucast f), Out8 0x1F2 n, Out8 0x1F6 (ucast (0xE0 OR (drop_bit 24 f AND 0xF)))]"
  have "ata_command f n c s = s\<lparr>mem := mem s, trace := ?es @ trace s\<rparr>"
    by (simp add: ata_command_def Let_def io_out8_def)
  moreover have "\<forall>e \<in> set ?es. disk_event e" by simp
  ultimately show "disk_same s (ata_command f n c s)" by (rule disk_sameI)
  show "mem (ata_command f n c s) = mem s"
    by (simp add: ata_command_def Let_def io_out8_def)
qed

lemma read_sectors_run:
  assumes D: "ata_drive D disk"
  shows "\<exists>t. ATA_PIO_read_sectors D dst f n s = Some t \<and> disk_same s t \<and>
    mem t = deposit (mem s) dst (512 * unat n) (\<lambda>i. disk (512 * (unat f mod 2 ^ 28) + i))"
proof -
  obtain t where t: "ATA_PIO_wait_BSY D s = Some t" "disk_same s t" "mem t = mem s"
    using wait_run [OF ata_driveD(1) [OF D]] unfolding ATA_PIO_wait_BSY_def by metis
  let ?c = "ata_command f n 0x20 t"
  have sec: "unat n \<le> ata_sectors (ata_after (trace ?c))"
    by (simp add: ata_after_command ata_sectors_def)
  have "unat n < 256" using unsigned_less [of n] by simp
  then have "0 + 256 * unat n \<le> 256 * ata_sectors (ata_after (trace ?c))"
    "512 * unat n \<le> 2 ^ 64" "r_reading (ata_after (trace ?c)) = Some 0"
    using sec by (simp_all add: ata_after_command)
  from read_sectors_loop_run [OF D this(3) mod_0 this(1,2), of dst] obtain u where
    u: "read_sectors_loop (unat n) D dst ?c = Some u" "disk_same ?c u"
    "mem u = deposit (mem ?c) dst (512 * unat n) (transfer disk (ata_after (trace ?c)) 0)"
    by (elim exE conjE)
  have "transfer disk (ata_after (trace ?c)) 0 = (\<lambda>i. disk (512 * (unat f mod 2 ^ 28) + i))"
    by (simp add: transfer_def ata_lba_command fun_eq_iff)
  then have "mem u = deposit (mem s) dst (512 * unat n) (\<lambda>i. disk (512 * (unat f mod 2 ^ 28) + i))"
    using u(3) t(3) by (simp add: ata_command_same(2))
  moreover have "ATA_PIO_read_sectors D dst f n s = Some u"
    using t(1) u(1) by (simp add: ATA_PIO_read_sectors_def)
  moreover have "disk_same s u"
    using t(2) u(2) ata_command_same(1) disk_same_trans by metis
  ultimately show ?thesis by blast
qed

section \<open>A drive that meets the contract\<close>

text \<open>
  \<open>with_drive disk D\<close> puts a drive with the contents \<open>disk\<close> behind the ports of the first ATA channel
  of the device environment \<open>D\<close>. It raises DRQ during a read, and its data register is idle (all
  ones) until the sector has been offered.
\<close>

definition with_drive :: "disk \<Rightarrow> device \<Rightarrow> device" where
  "with_drive disk D h p =
     (if p = 0x1F7 then (if outstanding (ata_after h) then 0x58 else 0x50)
      else if p = 0x1F0 then
        (case r_reading (ata_after h) of
           None \<Rightarrow> 0xFFFF
         | Some k \<Rightarrow> if r_ready (ata_after h)
             then ucast (word_of_bytes (map (transfer disk (ata_after h) k) [0, 1]) :: u16) else 0xFFFF)
      else D h p)"

lemma with_drive_ata [simp]: "ata_drive (with_drive disk D) disk"
proof -
  have st: "status (with_drive disk D) 0x1F7 h = (if outstanding (ata_after h) then 0x58 else 0x50)" for h
    by (simp add: status_def with_drive_def)
  have "answers (with_drive disk D) 0x1F7 ok h" if "ok 0x50" "ok 0x58" for ok h
    unfolding answers_def by (rule exI [of _ 0]) (use that st [of h] in simp)
  moreover have "data_offered 0x58" by (simp add: data_offered_def bit_iff_odd)
  ultimately show ?thesis
    unfolding ata_drive_def st
    by (auto simp: not_busy_def drive_ready_def PIO_STATUS_BSY_def PIO_STATUS_RDY_def with_drive_def
        transfer_def)
qed

section \<open>Writing\<close>

text \<open>The 32-bit words sent to the data register, oldest first.\<close>

primrec data_out :: "history \<Rightarrow> u32 list" where
  "data_out [] = []"
| "data_out (e # h) = data_out h @ (case e of Out32 p v \<Rightarrow> if p = 0x1F0 then [v] else [] | _ \<Rightarrow> [])"

lemma data_out_polls: "\<forall>e \<in> set es. \<exists>v. e = In8 p v \<Longrightarrow> data_out (es @ h) = data_out h"
  by (induction es) auto

lemma wait_sends_nothing:
  assumes "answers D 0x1F7 ok (trace s)"
  obtains t where "poll D 0x1F7 ok s = Some t" "mem t = mem s"
    "data_out (trace t) = data_out (trace s)" "regs_kept (ata_after (trace s)) (ata_after (trace t))"
proof -
  obtain es where es: "poll D 0x1F7 ok s = Some (s\<lparr>trace := es @ trace s\<rparr>)"
    "\<forall>e \<in> set es. \<exists>v. e = In8 0x1F7 v"
    using poll_run [OF assms] by blast
  from that [OF es(1)] show ?thesis
    using data_out_polls [OF es(2)] ata_after_reads8 [OF es(2)] by simp
qed

lemma write_longs_run:
  "let t = fold (write_long a) [0..<n] s in
    mem t = mem s \<and> ata_after (trace t) = ata_after (trace s) \<and>
    data_out (trace t) = data_out (trace s) @ map (\<lambda>i. load32 (mem s) (a + of_nat (4 * i))) [0..<n]"
  by (induction n) (simp_all add: Let_def write_long_def io_out32_def)

lemma write_sectors_loop_run:
  assumes D: "ata_drive D disk"
  shows "\<exists>t. write_sectors_loop j D a s = Some t \<and> mem t = mem s \<and>
    regs_kept (ata_after (trace s)) (ata_after (trace t)) \<and> data_out (trace t)
      = data_out (trace s) @ map (\<lambda>i. load32 (mem s) (a + of_nat (4 * i))) [0..<256 * j]"
proof (induction j arbitrary: s a)
  case 0
  then show ?case by simp
next
  case (Suc j)
  obtain t where t: "ATA_PIO_wait_BSY D s = Some t" "mem t = mem s"
    "data_out (trace t) = data_out (trace s)" "regs_kept (ata_after (trace s)) (ata_after (trace t))"
    using wait_sends_nothing [OF ata_driveD(1) [OF D]] unfolding ATA_PIO_wait_BSY_def by metis
  obtain u where u: "ATA_PIO_wait_DRQ D t = Some u" "mem u = mem t"
    "data_out (trace u) = data_out (trace t)" "regs_kept (ata_after (trace t)) (ata_after (trace u))"
    using wait_sends_nothing [OF ata_driveD(2) [OF D]] unfolding ATA_PIO_wait_DRQ_def by metis
  let ?g = "\<lambda>a i. load32 (mem s) (a + of_nat (4 * i))"
  define v where "v = fold (write_long a) [0..<256] u"
  have v: "mem v = mem s" "regs_kept (ata_after (trace s)) (ata_after (trace v))"
    "data_out (trace v) = data_out (trace s) @ map (?g a) [0..<256]"
    using write_longs_run [of a 256 u] t u regs_kept_trans [OF t(4) u(4)] by (simp_all add: Let_def v_def)
  from Suc [of "a + 1024" v] obtain w where
    w: "write_sectors_loop j D (a + 1024) v = Some w" "mem w = mem v"
    "regs_kept (ata_after (trace v)) (ata_after (trace w))"
    "data_out (trace w) = data_out (trace v) @ map (?g (a + 1024)) [0..<256 * j]"
    using v(1) by auto
  have "map (?g (a + 1024)) [0..<256 * j] = map (?g a) [256..<256 * Suc j]"
    by (rule nth_equalityI) (simp_all add: algebra_simps)
  moreover have "[0..<256 * Suc j] = [0..<256] @ [256..<256 * Suc j]"
    using upt_add_eq_append [of 0 256 "256 * j"] by simp
  ultimately have "data_out (trace w) = data_out (trace s) @ map (?g a) [0..<256 * Suc j]"
    using w(4) v(3) by (simp only: map_append append_assoc)
  moreover have "write_sectors_loop (Suc j) D a s = Some w"
    using t(1) u(1) w(1) by (simp add: v_def)
  ultimately show ?case using w(2) v(1) regs_kept_trans [OF v(2) w(3)] by (intro exI [of _ w]) simp
qed

section \<open>Properties\<close>

text \<open>C38. On a drive that delivers a sector only after its status has been read not busy with data
  requested, \<open>ATA_PIO_read_sectors\<close> returns; the
  \<open>512 * num\<close> bytes from \<open>dst\<close> on are then the bytes of the disk from the 28-bit sector
  number on, every other byte of memory and every other part of the state is unchanged, and only
  the registers of the drive were accessed.\<close>

theorem read_sectors_reads:
  assumes "ata_drive D disk"
  shows "\<exists>t. ATA_PIO_read_sectors D dst first num s = Some t \<and> disk_same s t \<and>
    mem t = (\<lambda>x. if x \<in> span dst (512 * unat num)
                 then disk (512 * (unat first mod 2 ^ 28) + unat (x - dst)) else mem s x)"
  by (rule read_sectors_run [OF assms, unfolded deposit_def])

theorem read_sectors_reads_witness:
  "\<exists>t. ATA_PIO_read_sectors (with_drive of_nat (\<lambda>_ _. 0)) 0x9000 7 2
      \<lparr>mem = (\<lambda>_. 0), column_counter = 0, foreground = 0, background = 0, pt_it = 0, cr3 = 0,
        trace = []\<rparr> = Some t \<and> mem t 0x9201 = 1"
  using read_sectors_reads [OF with_drive_ata [of of_nat "\<lambda>_ _. 0"], where dst = "0x9000"
      and first = 7 and num = 2 and s = "\<lparr>mem = (\<lambda>_. 0), column_counter = 0, foreground = 0, background = 0, pt_it = 0, cr3 = 0,
        trace = []\<rparr>"]
  by (elim exE conjE) (simp add: in_span)

text \<open>C39. On such a drive \<open>ATA_PIO_write_sectors\<close> returns, leaves the memory alone, selects
  the 28-bit sector number and the count, and sends 256 32-bit words (1024 bytes, two sectors)
  from \<open>src\<close> on for every sector.\<close>

theorem write_sectors_sends_twice:
  assumes "ata_drive D disk"
  shows "\<exists>t. ATA_PIO_write_sectors D src first num s = Some t \<and> mem t = mem s \<and>
    ata_lba (ata_after (trace t)) = unat first mod 2 ^ 28 \<and> r_count (ata_after (trace t)) = num \<and>
    data_out (trace t) = data_out (trace s)
      @ map (\<lambda>i. load32 (mem s) (src + of_nat (4 * i))) [0..<256 * unat num]"
proof -
  obtain t where t: "ATA_PIO_wait_BSY D s = Some t" "mem t = mem s"
    "data_out (trace t) = data_out (trace s)"
    using wait_sends_nothing [OF ata_driveD(1) [OF assms]] unfolding ATA_PIO_wait_BSY_def by metis
  let ?c = "ata_command first num 0x30 t"
  have c: "mem ?c = mem s" "data_out (trace ?c) = data_out (trace s)"
    using t by (simp_all add: ata_command_def Let_def io_out8_def)
  from write_sectors_loop_run [OF assms, of "unat num" src ?c] obtain u where
    u: "write_sectors_loop (unat num) D src ?c = Some u" "mem u = mem ?c"
    "regs_kept (ata_after (trace ?c)) (ata_after (trace u))"
    "data_out (trace u) = data_out (trace ?c)
      @ map (\<lambda>i. load32 (mem ?c) (src + of_nat (4 * i))) [0..<256 * unat num]"
    by (elim exE conjE)
  have "ATA_PIO_write_sectors D src first num s = Some u"
    using t(1) u(1) by (simp add: ATA_PIO_write_sectors_def)
  moreover have "ata_lba (ata_after (trace u)) = unat first mod 2 ^ 28"
    "r_count (ata_after (trace u)) = num"
    unfolding regs_keptD(1,4) [OF u(3)] ata_lba_command by (simp_all add: ata_after_command)
  ultimately show ?thesis using u(2,4) c by (intro exI [of _ u]) simp
qed

theorem write_sectors_sends_twice_witness:
  "\<exists>t. ATA_PIO_write_sectors (with_drive of_nat (\<lambda>_ _. 0)) 0x9000 7 1
      \<lparr>mem = (\<lambda>_. 1), column_counter = 0, foreground = 0, background = 0, pt_it = 0, cr3 = 0,
        trace = []\<rparr> = Some t \<and> length (data_out (trace t)) = 256"
  using write_sectors_sends_twice [OF with_drive_ata [of of_nat "\<lambda>_ _. 0"], where src = "0x9000" and first = 7 and num = 1 and s = "\<lparr>mem = (\<lambda>_. 1), column_counter = 0, foreground = 0, background = 0, pt_it = 0, cr3 = 0,
        trace = []\<rparr>"]
  by (elim exE conjE) simp

end
