(* ===== verification/Gpt.thy ===== *)
theory Gpt
  imports Ata Print
begin

text \<open>
  Finding the system partition in the GUID partition table (\<open>include/gpt.h\<close>,
  \<open>find_partition_by_name\<close> of \<open>src/main.c\<close>). The sector buffer of the function is an array in its
  stack frame, at the address \<open>buf\<close>; the arrays that only the function itself reads and writes
  (\<open>nullbuf\<close>, \<open>part_name\<close>, the entry found) are values.
\<close>

section \<open>What console and disk together may change\<close>

definition io_step :: "u64 set \<Rightarrow> machine \<Rightarrow> machine \<Rightarrow> bool" where
  "io_step R s s' \<longleftrightarrow>
     (\<forall>a. a \<notin> R \<and> a \<notin> vga_region \<longrightarrow> mem s' a = mem s a) \<and>
     foreground s' = foreground s \<and> background s' = background s \<and>
     pt_it s' = pt_it s \<and> cr3 s' = cr3 s \<and>
     (unat (column_counter s) \<le> VGA_COLS \<longrightarrow> unat (column_counter s') \<le> VGA_COLS) \<and>
     (\<exists>es. trace s' = es @ trace s \<and> (\<forall>e \<in> set es. serial_event e \<or> disk_event e))"

lemma io_step_refl [simp]: "io_step R s s"
  by (simp add: io_step_def)

lemma io_step_trans:
  assumes "io_step R s t" and "io_step R t u"
  shows "io_step R s u"
proof -
  obtain es fs where "trace t = es @ trace s" "\<forall>e \<in> set es. serial_event e \<or> disk_event e"
    "trace u = fs @ trace t" "\<forall>e \<in> set fs. serial_event e \<or> disk_event e"
    using assms unfolding io_step_def by blast
  then have "\<exists>es. trace u = es @ trace s \<and> (\<forall>e \<in> set es. serial_event e \<or> disk_event e)"
    by (intro exI [of _ "fs @ es"]) auto
  then show ?thesis using assms unfolding io_step_def by simp
qed

lemma io_step_mono: "io_step R s t \<Longrightarrow> R \<subseteq> R' \<Longrightarrow> io_step R' s t"
  by (auto simp: io_step_def)

lemma console_io_step: "console_same s t \<Longrightarrow> io_step R s t"
  by (auto simp: console_same_def io_step_def)

lemma disk_io_step:
  assumes "disk_same s t" and "\<And>x. x \<notin> R \<Longrightarrow> mem t x = mem s x"
  shows "io_step R s t"
  using assms by (auto simp: disk_same_def io_step_def)

lemma mem_io_step:
  assumes "\<And>x. x \<notin> R \<Longrightarrow> m x = mem s x"
  shows "io_step R s (s\<lparr>mem := m\<rparr>)"
  using assms by (simp add: io_step_def)

lemma read_io_step:
  assumes "ata_drive D disk"
  obtains t where "ATA_PIO_read_sectors D dst f n s = Some t" "io_step (span dst (512 * unat n)) s t"
    "mem t = deposit (mem s) dst (512 * unat n) (\<lambda>i. disk (512 * (unat f mod 2 ^ 28) + i))"
proof -
  obtain t where t: "ATA_PIO_read_sectors D dst f n s = Some t" "disk_same s t"
    "mem t = deposit (mem s) dst (512 * unat n) (\<lambda>i. disk (512 * (unat f mod 2 ^ 28) + i))"
    using read_sectors_run [OF assms] by blast
  have "io_step (span dst (512 * unat n)) s t"
    using t(2,3) by (intro disk_io_step) (simp_all add: deposit_def)
  from that [OF t(1) this t(3)] show ?thesis .
qed

section \<open>The table\<close>

record GPTEntry =
  partition_type_guid :: "u8 list"
  unique_partition_guid :: "u8 list"
  starting_lba :: u64
  ending_lba :: u64
  attribute :: u64
  partition_name :: "u16 list"

text \<open>The packed structures behind a pointer: an entry of 120 bytes and the header.\<close>

definition field :: "view \<Rightarrow> nat \<Rightarrow> nat \<Rightarrow> u8 list" where
  "field v off n = map v [off..<off + n]"

definition gpt_entry :: "view \<Rightarrow> GPTEntry" where
  "gpt_entry v = \<lparr>partition_type_guid = field v 0 16, unique_partition_guid = field v 16 16,
     starting_lba = word_of_bytes (field v 32 8), ending_lba = word_of_bytes (field v 40 8),
     attribute = word_of_bytes (field v 48 8),
     partition_name = map (\<lambda>i. word_of_bytes (field v (56 + 2 * i) 2)) [0..<32]\<rparr>"

record GPTHeader =
  signature :: "u8 list"
  revision :: u32
  header_size :: u32
  crc32_of_header :: u32
  header_reserved :: u32
  lba_of_header :: u64
  lba_of_alternate :: u64
  first_usable_block :: u64
  last_usable_block :: u64
  guid :: "u8 list"
  partition_array_lba :: u64
  number_of_entries :: u32
  sizeof_partition_entry :: u32
  crc32_of_partition_array :: u32

definition gpt_header :: "view \<Rightarrow> GPTHeader" where
  "gpt_header v = \<lparr>signature = field v 0 8, revision = word_of_bytes (field v 8 4),
     header_size = word_of_bytes (field v 12 4), crc32_of_header = word_of_bytes (field v 16 4),
     header_reserved = word_of_bytes (field v 20 4), lba_of_header = word_of_bytes (field v 24 8),
     lba_of_alternate = word_of_bytes (field v 32 8), first_usable_block = word_of_bytes (field v 40 8),
     last_usable_block = word_of_bytes (field v 48 8), guid = field v 56 16,
     partition_array_lba = word_of_bytes (field v 72 8),
     number_of_entries = word_of_bytes (field v 80 4),
     sizeof_partition_entry = word_of_bytes (field v 84 4),
     crc32_of_partition_array = word_of_bytes (field v 88 4)\<rparr>"

text \<open>\<open>memset(&gpte_found, 0, sizeof(GPTEntry))\<close>.\<close>

definition empty_entry :: GPTEntry where
  "empty_entry = \<lparr>partition_type_guid = replicate 16 0, unique_partition_guid = replicate 16 0,
     starting_lba = 0, ending_lba = 0, attribute = 0, partition_name = replicate 32 0\<rparr>"

text \<open>The loop that prints the signature, and the copy of the UTF-16 name into 33 zeroed bytes.\<close>

primrec print_signature :: "nat \<Rightarrow> device \<Rightarrow> u64 \<Rightarrow> nat \<Rightarrow> machine \<Rightarrow> machine option" where
  "print_signature 0 D gpt i s = Some s"
| "print_signature (Suc k) D gpt i s = do {
     s \<leftarrow> putc D (mem s (gpt + of_nat i)) s;
     print_signature k D gpt (Suc i) s }"

definition part_name :: "GPTEntry \<Rightarrow> u8 list" where
  "part_name gpte = map ucast (partition_name gpte) @ [0]"

text \<open>
  The loop over the entries up to the first with a null type, which only the table itself bounds:
  \<open>found\<close> holds the entry found so far.
\<close>

partial_function (option) partition_loop ::
    "device \<Rightarrow> view \<Rightarrow> u64 \<Rightarrow> u64 \<Rightarrow> GPTEntry option \<Rightarrow> machine \<Rightarrow> (GPTEntry \<times> machine) option" where
  "partition_loop D name gpte_size gpte_ptr found s =
     (if memcmp (lit (replicate 16 0)) (at (mem s) gpte_ptr) 16 \<noteq> 0
      then do {
        let name' = part_name (gpt_entry (at (mem s) gpte_ptr));
        s \<leftarrow> putl D ''Partition Detected: '' s;
        s \<leftarrow> puts D (lit name') s;
        s \<leftarrow> putc D nl s;
        let result = strncmp name (lit name') 32;
        if result = 0 \<and> found = None
        then do {
          let gpte_found = gpt_entry (at (mem s) gpte_ptr);
          s \<leftarrow> putl D ''System Partition Found :)'' s;
          s \<leftarrow> putc D nl s;
          partition_loop D name gpte_size (gpte_ptr + gpte_size) (Some gpte_found) s }
        else partition_loop D name gpte_size (gpte_ptr + gpte_size) found s }
      else Some (case found of None \<Rightarrow> empty_entry | Some gpte \<Rightarrow> gpte, s))"

definition find_partition_by_name ::
    "device \<Rightarrow> u64 \<Rightarrow> view \<Rightarrow> machine \<Rightarrow> (GPTEntry \<times> machine) option" where
  "find_partition_by_name D buf name s = do {
     s \<leftarrow> ATA_PIO_read_sectors D buf 1 1 s;
     s \<leftarrow> putl D ''GPT Signature: '' s;
     s \<leftarrow> print_signature 8 D buf 0 s;
     s \<leftarrow> putc D nl s;
     let gpte_size = ucast (sizeof_partition_entry (gpt_header (at (mem s) buf)));
     s \<leftarrow> ATA_PIO_read_sectors D buf 2 8 s;
     s \<leftarrow> putl D ''Looking For Partition: '' s;
     s \<leftarrow> puts D name s;
     s \<leftarrow> putc D nl s;
     partition_loop D name gpte_size buf None s }"

section \<open>The table as a list of entries\<close>

text \<open>
  \<open>w\<close> is the window of 4096 bytes loaded from sector 2 on; entry \<open>k\<close> is at offset \<open>k * size\<close>.
\<close>

definition shift :: "view \<Rightarrow> nat \<Rightarrow> view" where
  "shift v k i = v (k + i)"

definition null_entry :: "view \<Rightarrow> bool" where
  "null_entry v \<longleftrightarrow> (\<forall>i < 16. v i = 0)"

definition table_entries :: "view \<Rightarrow> nat \<Rightarrow> nat \<Rightarrow> GPTEntry list" where
  "table_entries w sz n = map (\<lambda>k. gpt_entry (shift w (k * sz))) [0..<n]"

text \<open>The entries before the first null one, all within the window.\<close>

definition gpt_table :: "view \<Rightarrow> nat \<Rightarrow> nat \<Rightarrow> bool" where
  "gpt_table w sz n \<longleftrightarrow> (\<forall>k < n. \<not> null_entry (shift w (k * sz))) \<and> null_entry (shift w (n * sz)) \<and>
     n * sz + 120 \<le> 4096"

definition named :: "view \<Rightarrow> GPTEntry \<Rightarrow> bool" where
  "named name gpte \<longleftrightarrow> cstr 32 name = cstr 32 (lit (part_name gpte))"

lemma field_cong: "(\<And>i. i < off + n \<Longrightarrow> v i = v' i) \<Longrightarrow> field v off n = field v' off n"
  by (simp add: field_def)

lemma gpt_entry_cong: "(\<And>i. i < 120 \<Longrightarrow> v i = v' i) \<Longrightarrow> gpt_entry v = gpt_entry v'"
proof -
  assume v: "\<And>i. i < 120 \<Longrightarrow> v i = v' i"
  have "field v off n = field v' off n" if "off + n \<le> 120" for off n
    using that by (intro field_cong v) simp
  then show ?thesis by (simp add: gpt_entry_def)
qed

lemma length_part_name: "length (part_name (gpt_entry v)) = 33"
  by (simp add: part_name_def gpt_entry_def)

section \<open>Output on a live console\<close>

lemma put_run:
  assumes "serial_live D"
  obtains t where "putc D c s = Some t" "console_same s t"
  using console.out_ok [OF assms] by blast

lemma puts_run:
  assumes "serial_live D" and "str n = 0"
  obtains t where "puts D str s = Some t" "console_same s t"
  using console.emit_ok [OF assms(1), of "cstr n str" s] unfolding puts_view [of str n, OF assms(2)]
  by blast

lemma putl_run:
  assumes "serial_live D"
  obtains t where "puts D (lit cs) s = Some t" "console_same s t"
  by (rule puts_run [OF assms, of "lit cs" "length cs"]) (simp_all add: lit_def)

text \<open>A window of memory off the screen, and what the console leaves of it.\<close>

definition holds :: "u64 \<Rightarrow> nat \<Rightarrow> view \<Rightarrow> machine \<Rightarrow> bool" where
  "holds a n w s \<longleftrightarrow> (\<forall>i < n. mem s (a + of_nat i) = w i)"

lemma holds_console:
  assumes "console_same s t" and "span a n \<inter> vga_region = {}" and "n \<le> 2 ^ 64"
  shows "holds a n w t \<longleftrightarrow> holds a n w s"
proof -
  have "mem t (a + of_nat i) = mem s (a + of_nat i)" if "i < n" for i
    using assms that span_add [of i n a] unfolding console_same_def by blast
  then show ?thesis by (simp add: holds_def)
qed

lemma holds_deposit: "n \<le> k \<Longrightarrow> k \<le> 2 ^ 64 \<Longrightarrow> mem s = deposit m a k w \<Longrightarrow> holds a n w s"
  by (auto simp: holds_def deposit_def in_span unat_of_nat)

lemma holds_view: "holds a n w s \<Longrightarrow> k + i < n \<Longrightarrow> at (mem s) (a + of_nat k) i = shift w k i"
  by (simp add: holds_def at_def shift_def add.assoc flip: of_nat_add)

section \<open>The search\<close>

lemma null_entry_memcmp:
  assumes "\<And>i. i < 16 \<Longrightarrow> v i = v' i"
  shows "memcmp (lit (replicate 16 0)) v 16 = 0 \<longleftrightarrow> null_entry v'"
  using assms by (auto simp: memcmp_0_iff null_entry_def lit_def)

text \<open>The partition found so far wins; otherwise the first entry left that has the name.\<close>

definition found_in :: "view \<Rightarrow> GPTEntry option \<Rightarrow> GPTEntry list \<Rightarrow> GPTEntry" where
  "found_in name found gptes = (case found of Some g \<Rightarrow> g
     | None \<Rightarrow> case find (named name) gptes of Some g \<Rightarrow> g | None \<Rightarrow> empty_entry)"

lemma found_in_simps:
  "found_in name found [] = (case found of None \<Rightarrow> empty_entry | Some g \<Rightarrow> g)"
  "found_in name found (g # gs) =
     (if named name g \<and> found = None then found_in name (Some g) gs else found_in name found gs)"
  by (auto simp: found_in_def split: option.splits)

lemma gpt_table_window:
  assumes "gpt_table w sz n" and "k \<le> n"
  shows "k * sz + 120 \<le> 4096"
proof -
  have "k * sz \<le> n * sz" using assms(2) by (rule mult_le_mono1)
  moreover have "n * sz + 120 \<le> 4096" using assms(1) by (simp add: gpt_table_def)
  ultimately show ?thesis by linarith
qed

text \<open>One round of the loop on an entry that is in use.\<close>

lemma partition_round:
  fixes buf :: u64 and w :: "nat \<Rightarrow> u8"
  assumes live: "serial_live D" and off: "span buf 4096 \<inter> vga_region = {}" and h: "holds buf 4096 w s"
    and i: "i + 120 \<le> 4096" and used: "\<not> null_entry (shift w i)"
  defines "g \<equiv> gpt_entry (shift w i)"
  shows "\<exists>t. partition_loop D name sz (buf + of_nat i) found s
      = partition_loop D name sz (buf + of_nat i + sz) (if named name g \<and> found = None then Some g else found) t \<and>
    console_same s t"
proof -
  have more: "memcmp (lit (replicate 16 0)) (at (mem s) (buf + of_nat i)) 16 \<noteq> 0"
    using used i by (subst null_entry_memcmp [OF holds_view [OF h]]) simp_all
  have g: "gpt_entry (at (mem u) (buf + of_nat i)) = g" if "holds buf 4096 w u" for u
    unfolding g_def using i by (intro gpt_entry_cong holds_view [OF that]) simp
  obtain t1 where t1: "putl D ''Partition Detected: '' s = Some t1" "console_same s t1"
    by (rule putl_run [OF live])
  obtain t2 where t2: "puts D (lit (part_name g)) t1 = Some t2" "console_same t1 t2"
    by (rule putl_run [OF live])
  obtain t3 where t3: "putc D nl t2 = Some t3" "console_same t2 t3" by (rule put_run [OF live])
  obtain t4 where t4: "putl D ''System Partition Found :)'' t3 = Some t4" "console_same t3 t4"
    by (rule putl_run [OF live])
  obtain t5 where t5: "putc D nl t4 = Some t5" "console_same t4 t5" by (rule put_run [OF live])
  have same: "console_same s t3" "console_same s t5" using t1(2) t2(2) t3(2) t4(2) t5(2) console_same_trans by blast+
  have h3: "holds buf 4096 w t3" using h holds_console [OF same(1) off] by simp
  have "strncmp name (lit (part_name g)) 32 = 0 \<longleftrightarrow> named name g"
    by (simp add: strncmp_0_iff named_def)
  then have "partition_loop D name sz (buf + of_nat i) found s
      = (if named name g \<and> found = None then partition_loop D name sz (buf + of_nat i + sz) (Some g) t5
         else partition_loop D name sz (buf + of_nat i + sz) found t3)"
    by (subst partition_loop.simps)
      (simp add: more g [OF h] g [OF h3] t1(1) t2(1) t3(1) [simplified] t4(1) t5(1) [simplified] Let_def del: of_nat_mult)
  then show ?thesis using same by (cases "named name g \<and> found = None") auto
qed

lemma partition_loop_run:
  assumes live: "serial_live D" and off: "span buf 4096 \<inter> vga_region = {}"
    and tbl: "gpt_table w (unat sz) n" and "k \<le> n" and "holds buf 4096 w s"
  shows "\<exists>t. partition_loop D name sz (buf + of_nat (k * unat sz)) found s =
      Some (found_in name found (map (\<lambda>k. gpt_entry (shift w (k * unat sz))) [k..<n]), t) \<and> console_same s t"
  using assms(4,5)
proof (induction "n - k" arbitrary: k found s)
  case 0
  then have k: "k = n" by simp
  have "memcmp (lit (replicate 16 0)) (at (mem s) (buf + of_nat (n * unat sz))) 16 = 0 \<longleftrightarrow>
      null_entry (shift w (n * unat sz))"
    using gpt_table_window [OF tbl order_refl] by (intro null_entry_memcmp holds_view [OF 0(3)]) simp
  then have "memcmp (lit (replicate 16 0)) (at (mem s) (buf + of_nat (n * unat sz))) 16 = 0"
    using tbl by (simp add: gpt_table_def)
  then have "partition_loop D name sz (buf + of_nat (n * unat sz)) found s
      = Some (case found of None \<Rightarrow> empty_entry | Some gpte \<Rightarrow> gpte, s)"
    by (subst partition_loop.simps) simp
  then show ?case unfolding k by (simp add: found_in_simps console_same_refl)
next
  case (Suc j)
  let ?g = "gpt_entry (shift w (k * unat sz))"
  let ?found = "if named name ?g \<and> found = None then Some ?g else found"
  have kn: "k < n" "Suc k \<le> n" and j: "j = n - Suc k" using Suc.hyps(2) by simp_all
  have "\<not> null_entry (shift w (k * unat sz))" using tbl kn(1) by (simp add: gpt_table_def)
  then obtain t where t: "partition_loop D name sz (buf + of_nat (k * unat sz)) found s
      = partition_loop D name sz (buf + of_nat (Suc k * unat sz)) ?found t" "console_same s t"
    using partition_round [OF live off Suc.prems(2) gpt_table_window [OF tbl Suc.prems(1)], of name sz found]
    by (auto simp: algebra_simps)
  then have "holds buf 4096 w t" using Suc.prems(2) holds_console [OF t(2) off] by simp
  from Suc.hyps(1) [OF j kn(2) this, of ?found]
  obtain u where u: "partition_loop D name sz (buf + of_nat (Suc k * unat sz)) ?found t = Some (found_in name ?found
      (map (\<lambda>k. gpt_entry (shift w (k * unat sz))) [Suc k..<n]), u)" "console_same t u" by blast
  have "[k..<n] = k # [Suc k..<n]" using kn(1) by (rule upt_conv_Cons)
  then have "found_in name found (map (\<lambda>k. gpt_entry (shift w (k * unat sz))) [k..<n])
      = found_in name ?found (map (\<lambda>k. gpt_entry (shift w (k * unat sz))) [Suc k..<n])"
    by (auto simp: found_in_simps)
  then show ?case using t u console_same_trans by auto
qed

lemma print_signature_run:
  assumes "serial_live D"
  shows "\<exists>t. print_signature k D gpt i s = Some t \<and> console_same s t"
proof (induction k arbitrary: i s)
  case 0
  show ?case by (simp add: console_same_refl)
next
  case (Suc k)
  obtain t where t: "putc D (mem s (gpt + of_nat i)) s = Some t" "console_same s t"
    by (rule put_run [OF assms])
  obtain u where "print_signature k D gpt (Suc i) t = Some u" "console_same t u" using Suc.IH by blast
  then show ?case using t console_same_trans by auto
qed

lemma ready_serial: "serial_live (with_drive disk (\<lambda>_ _. 0x20))"
proof -
  have "answers (with_drive disk (\<lambda>_ _. 0x20)) 0x3FD is_transmit_empty h" for h
    unfolding answers_def
    by (rule exI [of _ 0]) (simp add: status_def with_drive_def is_transmit_empty_def)
  then show ?thesis by (simp add: serial_live_def PORT_def)
qed

section \<open>The whole procedure\<close>

lemma find_partition_run:
  assumes "ata_drive D disk" and "serial_live D" and "name l = 0"
    and "span buf 4096 \<inter> vga_region = {}"
    and "sz = unat (word_of_bytes (map disk [596..<600]) :: u32)"
    and "gpt_table (\<lambda>i. disk (1024 + i)) sz n"
  shows "\<exists>t. find_partition_by_name D buf name s =
      Some (case find (named name) (table_entries (\<lambda>i. disk (1024 + i)) sz n) of
              None \<Rightarrow> empty_entry | Some gpte \<Rightarrow> gpte, t) \<and> io_step (span buf 4096) s t"
proof -
  let ?R = "span buf 4096" and ?w = "\<lambda>i. disk (1024 + i)"
  note put = put_run [OF assms(2)] and putl = putl_run [OF assms(2)]
  obtain s1 where s1: "ATA_PIO_read_sectors D buf 1 1 s = Some s1" "io_step (span buf 512) s s1"
    "mem s1 = deposit (mem s) buf 512 (\<lambda>i. disk (512 + i))"
    by (rule read_io_step [OF assms(1), of buf 1 1 s]) simp
  obtain s2 where s2: "putl D ''GPT Signature: '' s1 = Some s2" "console_same s1 s2" by (rule putl)
  obtain s3 where s3: "print_signature 8 D buf 0 s2 = Some s3" "console_same s2 s3"
    using print_signature_run [OF assms(2)] by blast
  obtain s4 where s4: "putc D nl s3 = Some s4" "console_same s3 s4" by (rule put)
  have same14: "console_same s1 s4" using s2 s3 s4 console_same_trans by blast
  have "span buf 512 \<subseteq> ?R" by (rule span_mono) simp
  then have "span buf 512 \<inter> vga_region = {}" using assms(4) by blast
  moreover have "holds buf 512 (\<lambda>i. disk (512 + i)) s1" by (rule holds_deposit [OF _ _ s1(3)]) simp_all
  ultimately have "holds buf 512 (\<lambda>i. disk (512 + i)) s4" using holds_console [OF same14] by simp
  from holds_view [OF this, of 0] have "sizeof_partition_entry (gpt_header (at (mem s4) buf))
      = word_of_bytes (field (\<lambda>i. disk (512 + i)) 84 4)"
    unfolding gpt_header_def GPTHeader.select_convs
    by (intro arg_cong [where f = word_of_bytes] field_cong) (simp add: shift_def)
  also have "field (\<lambda>i. disk (512 + i)) 84 4 = map disk [596..<600]"
    by (simp add: field_def upt_rec)
  finally have size: "unat (ucast (sizeof_partition_entry (gpt_header (at (mem s4) buf))) :: u64) = sz"
    using assms(5) by (simp add: unat_ucast_up)
  obtain s5 where s5: "ATA_PIO_read_sectors D buf 2 8 s4 = Some s5" "io_step ?R s4 s5"
    "mem s5 = deposit (mem s4) buf 4096 ?w"
    by (rule read_io_step [OF assms(1), of buf 2 8 s4]) simp
  obtain s6 where s6: "putl D ''Looking For Partition: '' s5 = Some s6" "console_same s5 s6"
    by (rule putl)
  obtain s7 where s7: "puts D name s6 = Some s7" "console_same s6 s7"
    by (rule puts_run [where str = name and n = l, OF assms(2,3)])
  obtain s8 where s8: "putc D nl s7 = Some s8" "console_same s7 s8" by (rule put)
  have same58: "console_same s5 s8" using s6 s7 s8 console_same_trans by blast
  have "holds buf 4096 ?w s5" by (rule holds_deposit [OF _ _ s5(3)]) simp_all
  then have "holds buf 4096 ?w s8" using holds_console [OF same58 assms(4)] by simp
  from partition_loop_run [OF assms(2,4), of ?w "ucast (sizeof_partition_entry (gpt_header (at (mem s4) buf)))" n 0,
    unfolded size, OF assms(6) _ this, of name None]
  obtain t where t: "partition_loop D name (ucast (sizeof_partition_entry (gpt_header (at (mem s4) buf)))) buf None s8
      = Some (found_in name None (table_entries ?w sz n), t)" "console_same s8 t"
    by (auto simp: table_entries_def)
  have "io_step ?R s s1" using s1(2) by (rule io_step_mono) (rule span_mono, simp)
  then have "io_step ?R s t"
    using same14 s5(2) same58 t(2) console_io_step io_step_trans by meson
  moreover have "find_partition_by_name D buf name s = Some (found_in name None (table_entries ?w sz n), t)"
    by (simp add: find_partition_by_name_def s1(1) s2(1) s3(1) s4(1) [simplified] s5(1) s6(1) s7(1) s8(1) [simplified] t(1) Let_def)
  ultimately show ?thesis unfolding found_in_def by (intro exI [of _ t]) simp
qed

section \<open>Properties\<close>

text \<open>C18. On a disk whose entries from sector 2 on, at the size the header in sector 1 gives, end
  with a null entry within the eight sectors read, \<open>find_partition_by_name\<close> returns the first
  entry with the name (32 characters are compared), or the empty entry when there is none; only the
  sector buffer, the screen and the devices change.\<close>

theorem find_partition_finds:
  assumes "ata_drive D disk" and "serial_live D" and "name l = 0"
    and "span buf 4096 \<inter> vga_region = {}"
    and "sz = unat (word_of_bytes (map disk [596..<600]) :: u32)"
    and "gpt_table (\<lambda>i. disk (1024 + i)) sz n"
  shows "\<exists>t. find_partition_by_name D buf name s =
      Some (case find (named name) (table_entries (\<lambda>i. disk (1024 + i)) sz n) of
              None \<Rightarrow> empty_entry | Some gpte \<Rightarrow> gpte, t) \<and> io_step (span buf 4096) s t"
  by (rule find_partition_run [where name = name and l = l, OF assms])

text \<open>A disk with two partitions, entries of 128 bytes: \<open>sys\<close> of type 1 at block 34, \<open>data\<close> at
  block 100.\<close>

definition two_partitions :: disk where
  "two_partitions i = (if i = 596 then 128 else if i = 1024 \<or> i = 1152 then 1
     else if i = 1024 + 32 then 34 else if i = 1152 + 32 then 100
     else if i \<in> {1080, 1084} then 0x73 else if i = 1082 then 0x79
     else if i = 1208 then 0x64 else if i \<in> {1210, 1214} then 0x61 else if i = 1212 then 0x74 else 0)"

text \<open>A machine with zeroed memory and cleared registers, the usual state to run examples from.\<close>

definition blank_machine :: machine where
  "blank_machine = \<lparr>mem = (\<lambda>_. 0), column_counter = 0, foreground = 0, background = 0, pt_it = 0, cr3 = 0, trace = []\<rparr>"

lemma two_partitions_table: "gpt_table (\<lambda>i. two_partitions (1024 + i)) 128 2"
proof -
  have "\<not> null_entry (shift (\<lambda>i. two_partitions (1024 + i)) 0)"
    "\<not> null_entry (shift (\<lambda>i. two_partitions (1024 + i)) 128)"
    unfolding null_entry_def not_all by (rule exI [of _ 0], simp add: shift_def two_partitions_def)+
  moreover have "null_entry (shift (\<lambda>i. two_partitions (1024 + i)) 256)"
    by (simp add: null_entry_def shift_def two_partitions_def)
  ultimately show ?thesis by (simp add: gpt_table_def less_2_cases_iff)
qed

lemma find_partition_finds_witness:
  "\<exists>t gpte. find_partition_by_name (with_drive two_partitions (\<lambda>_ _. 0x20)) 0x7000 (lit (bytes ''data'')) blank_machine
      = Some (gpte, t) \<and> starting_lba gpte = 100"
proof -
  have "span 0x7000 4096 \<inter> vga_region = {}" by (auto simp: vga_region_def span_iff vga_buffer_def)
  moreover have "128 = unat (word_of_bytes (map two_partitions [596..<600]) :: u32)"
    by (simp add: two_partitions_def upt_rec)
  moreover have "lit (bytes ''data'') 4 = 0" by (simp add: lit_def)
  moreover have "(case find (named (lit (bytes ''data''))) (table_entries (\<lambda>i. two_partitions (1024 + i)) 128 2) of
      None \<Rightarrow> empty_entry | Some gpte \<Rightarrow> gpte) = gpt_entry (shift (\<lambda>i. two_partitions (1024 + i)) 128)"
    by (simp add: table_entries_def upt_rec named_def part_name_def gpt_entry_def field_def
        shift_def two_partitions_def bytes_def cstr_takeWhile lit_def)
  moreover have "starting_lba (gpt_entry (shift (\<lambda>i. two_partitions (1024 + i)) 128)) = 100"
    by (simp add: gpt_entry_def field_def shift_def two_partitions_def upt_rec)
  ultimately show ?thesis
    using find_partition_finds [OF with_drive_ata ready_serial _ _ _ two_partitions_table] by metis
qed

end
