(* ===== verification/Elf.thy ===== *)
theory Elf
  imports PhysicalMap Gpt
begin

text \<open>
  Loading the kernel's segments (\<open>include/elf64.h\<close>, \<open>map_kernel\<close> of \<open>src/main.c\<close>): every program
  header of type LOAD is copied out of the file and mapped at its virtual address. The file and the
  buffer are in the window onto physical memory, the page tables below it.
\<close>

section \<open>Headers\<close>

record ELF64FileHeader =
  elf_magic :: "u8 list"
  elf_version8 :: u8
  endianess :: u8
  header_version :: u8
  os_abi :: u8
  elf_unused :: "u8 list"
  resc :: u16
  instruction_set :: u16
  elf_version :: u32
  entry_point :: u64
  program_header_table_position :: u64
  section_header_table_position :: u64
  elf_flags :: u32
  elf_header_size :: u16
  program_header_table_entry_size :: u16
  program_header_table_entry_count :: u16
  section_header_table_entry_size :: u16
  section_header_table_entry_count :: u16
  index_section_header_table :: u16

record ELF64ProgramHeader =
  phdr_type :: u32
  phdr_flags :: u32
  offset :: u64
  vaddr :: u64
  paddr :: u64
  filesz :: u64
  memsz :: u64
  align :: u64

definition elf_file_header :: "view \<Rightarrow> ELF64FileHeader" where
  "elf_file_header v = \<lparr>elf_magic = field v 0 4, elf_version8 = v 4, endianess = v 5,
     header_version = v 6, os_abi = v 7, elf_unused = field v 8 8,
     resc = word_of_bytes (field v 16 2), instruction_set = word_of_bytes (field v 18 2),
     elf_version = word_of_bytes (field v 20 4), entry_point = word_of_bytes (field v 24 8),
     program_header_table_position = word_of_bytes (field v 32 8),
     section_header_table_position = word_of_bytes (field v 40 8),
     elf_flags = word_of_bytes (field v 48 4), elf_header_size = word_of_bytes (field v 52 2),
     program_header_table_entry_size = word_of_bytes (field v 54 2),
     program_header_table_entry_count = word_of_bytes (field v 56 2),
     section_header_table_entry_size = word_of_bytes (field v 58 2),
     section_header_table_entry_count = word_of_bytes (field v 60 2),
     index_section_header_table = word_of_bytes (field v 62 2)\<rparr>"

definition elf_program_header :: "view \<Rightarrow> ELF64ProgramHeader" where
  "elf_program_header v = \<lparr>phdr_type = word_of_bytes (field v 0 4),
     phdr_flags = word_of_bytes (field v 4 4), offset = word_of_bytes (field v 8 8),
     vaddr = word_of_bytes (field v 16 8), paddr = word_of_bytes (field v 24 8),
     filesz = word_of_bytes (field v 32 8), memsz = word_of_bytes (field v 40 8),
     align = word_of_bytes (field v 48 8)\<rparr>"

section \<open>map_kernel\<close>

text \<open>Where a segment goes in the buffer, and the frame that \<^emph>\<open>each\<close> of its pages is mapped to.\<close>

definition segment_dst :: "u64 \<Rightarrow> ELF64ProgramHeader \<Rightarrow> u64" where
  "segment_dst code_buffer ph = code_buffer + offset ph - align ph"

definition segment_frame :: "u64 \<Rightarrow> ELF64ProgramHeader \<Rightarrow> u64" where
  "segment_frame code_buffer ph = segment_dst code_buffer ph AND NOT 0xFFFFE00000000FFF"

definition num_pages :: "ELF64ProgramHeader \<Rightarrow> u64" where
  "num_pages ph = ALIGN_UP_4KB (memsz ph) div 0x1000"

text \<open>The loop over the pages; the first argument is the iterations that remain.\<close>

primrec map_pages :: "nat \<Rightarrow> u64 \<Rightarrow> u64 \<Rightarrow> u64 \<Rightarrow> machine \<Rightarrow> machine option" where
  "map_pages 0 code_buffer elf_phdr i s = Some s"
| "map_pages (Suc k) code_buffer elf_phdr i s = do {
     let ph = elf_program_header (at (mem s) elf_phdr);
     s \<leftarrow> map_4kb_page (vaddr ph + 0x1000 * i) (segment_frame code_buffer ph) s;
     map_pages k code_buffer elf_phdr (i + 1) s }"

definition print_segment :: "device \<Rightarrow> u64 \<Rightarrow> machine \<Rightarrow> machine option" where
  "print_segment D elf_phdr s = do {
     s \<leftarrow> putl D ''  LOAD           0x'' s;
     s \<leftarrow> putx64 D (offset (elf_program_header (at (mem s) elf_phdr))) s;
     s \<leftarrow> putl D '' 0x'' s;
     s \<leftarrow> putx64 D (vaddr (elf_program_header (at (mem s) elf_phdr))) s;
     s \<leftarrow> putl D '' 0x'' s;
     s \<leftarrow> putx64 D (paddr (elf_program_header (at (mem s) elf_phdr))) s;
     s \<leftarrow> putc D nl s;
     s \<leftarrow> putl D ''                 0x'' s;
     s \<leftarrow> putx64 D (filesz (elf_program_header (at (mem s) elf_phdr))) s;
     s \<leftarrow> putl D '' 0x'' s;
     s \<leftarrow> putx64 D (memsz (elf_program_header (at (mem s) elf_phdr))) s;
     s \<leftarrow> putl D ''         0x'' s;
     s \<leftarrow> putx16 D (ucast (align (elf_program_header (at (mem s) elf_phdr)))) s;
     putc D nl s }"

text \<open>\<open>kernel_size\<close> points to a field of the structure handed to the kernel.\<close>

definition load_segment :: "device \<Rightarrow> u64 \<Rightarrow> u64 \<Rightarrow> u64 \<Rightarrow> u64 \<Rightarrow> machine \<Rightarrow> machine option" where
  "load_segment D elf_file code_buffer kernel_size elf_phdr s = do {
     s \<leftarrow> print_segment D elf_phdr s;
     let ph = elf_program_header (at (mem s) elf_phdr);
     m \<leftarrow> memcpy (mem s) (segment_dst code_buffer ph) (elf_file + offset ph) (filesz ph);
     let s = s\<lparr>mem := m\<rparr>;
     let ph = elf_program_header (at (mem s) elf_phdr);
     s \<leftarrow> map_pages (unat (num_pages ph)) code_buffer elf_phdr 0 s;
     let ph = elf_program_header (at (mem s) elf_phdr);
     Some (s\<lparr>mem := store64 (mem s) kernel_size (load64 (mem s) kernel_size + memsz ph)\<rparr>) }"

text \<open>The do-while loop: one header is looked at even when the file has none.\<close>

partial_function (option) map_headers ::
    "device \<Rightarrow> u64 \<Rightarrow> u64 \<Rightarrow> u64 \<Rightarrow> u64 \<Rightarrow> u64 \<Rightarrow> machine \<Rightarrow> machine option" where
  "map_headers D elf_file code_buffer kernel_size phdr_it phdr_counter s = do {
     s \<leftarrow> (if phdr_type (elf_program_header (at (mem s) phdr_it)) = 1
          then load_segment D elf_file code_buffer kernel_size phdr_it s else Some s);
     let hdr = elf_file_header (at (mem s) elf_file);
     if phdr_counter + 1 < ucast (program_header_table_entry_count hdr)
     then map_headers D elf_file code_buffer kernel_size
            (phdr_it + ucast (program_header_table_entry_size hdr)) (phdr_counter + 1) s
     else Some s }"

definition print_headings :: "device \<Rightarrow> machine \<Rightarrow> machine option" where
  "print_headings D s = do {
     s \<leftarrow> putln D ''Program Headers:'' s;
     s \<leftarrow> putln D ''  Type           Offset             VirtAddr           PhysAddr'' s;
     putln D ''                 FileSiz            MemSiz              Flags  Align'' s }"

definition map_kernel :: "device \<Rightarrow> u64 \<Rightarrow> u64 \<Rightarrow> u64 \<Rightarrow> machine \<Rightarrow> (u64 \<times> machine) option" where
  "map_kernel D elf_file code_buffer kernel_size s = do {
     let phdr_it = elf_file + program_header_table_position (elf_file_header (at (mem s) elf_file));
     s \<leftarrow> print_headings D s;
     s \<leftarrow> map_headers D elf_file code_buffer kernel_size phdr_it 0 s;
     Some (entry_point (elf_file_header (at (mem s) elf_file)), s) }"

end
