(* ===== verification/Effects.thy ===== *)
theory Effects
  imports PhysicalMap Gpt
begin

text \<open>
  What a stretch of the boot procedure does, in terms that compose: the translation as a function of
  the one before, the memory off the tables and the screen as a function of the one before, and how
  many bytes of tables it needed. Each kind of step (output, disk input, writes off the tables,
  mappings) has one rule, and \<open>effect_trans\<close> puts them in sequence.
\<close>

type_synonym translation = "u64 \<Rightarrow> u64 option"

text \<open>
  \<open>P\<close> are the addresses whose mappability is kept, \<open>R\<close> is scratch memory, of which nothing is said.
\<close>

definition effect ::
    "(u64 \<Rightarrow> bool) \<Rightarrow> u64 set \<Rightarrow> nat \<Rightarrow> (translation \<Rightarrow> translation) \<Rightarrow> (mem \<Rightarrow> mem) \<Rightarrow> machine \<Rightarrow> machine \<Rightarrow> bool"
  where
  "effect P R n f g s t \<longleftrightarrow>
     tables_ok (mem t) (pt_it t) \<and> cr3 t = cr3 s \<and>
     unat (pt_it s) \<le> unat (pt_it t) \<and> unat (pt_it t) \<le> unat (pt_it s) + n \<and>
     walk (mem t) p4table = f (walk (mem s) p4table) \<and>
     (\<forall>va. P va \<and> mappable (mem s) va \<longrightarrow> mappable (mem t) va) \<and>
     (\<forall>x. in_tables (mem t) x \<longrightarrow> in_tables (mem s) x \<or> fresh s t x) \<and>
     (\<forall>x. \<not> in_tables (mem s) x \<and> \<not> fresh s t x \<and> x \<notin> vga_region \<and> x \<notin> R \<longrightarrow> mem t x = g (mem s) x)"

text \<open>A memory function whose value at an address depends on that address only.\<close>

definition pointwise :: "(mem \<Rightarrow> mem) \<Rightarrow> bool" where
  "pointwise g \<longleftrightarrow> (\<forall>m m' x. m x = m' x \<longrightarrow> g m x = g m' x)"

lemma pointwise_id [simp]: "pointwise (\<lambda>m. m)"
  by (simp add: pointwise_def)

lemma pointwise_comp: "pointwise g \<Longrightarrow> pointwise h \<Longrightarrow> pointwise (\<lambda>m. h (g m))"
  unfolding pointwise_def by blast

lemma pointwise_fold: "(\<And>a. a \<in> set as \<Longrightarrow> pointwise (g a)) \<Longrightarrow> pointwise (fold g as)"
  by (induction as) (simp_all add: pointwise_comp comp_def id_def)

lemma effectD:
  assumes "effect P R n f g s t"
  shows "tables_ok (mem t) (pt_it t)" "cr3 t = cr3 s" "unat (pt_it t) \<le> unat (pt_it s) + n"
    "walk (mem t) p4table = f (walk (mem s) p4table)"
    "P va \<Longrightarrow> mappable (mem s) va \<Longrightarrow> mappable (mem t) va"
    "\<not> in_tables (mem s) x \<Longrightarrow> \<not> fresh s t x \<Longrightarrow> x \<notin> vga_region \<Longrightarrow> x \<notin> R \<Longrightarrow> mem t x = g (mem s) x"
    "in_tables (mem t) x \<Longrightarrow> in_tables (mem s) x \<or> fresh s t x"
  using assms by (simp_all add: effect_def)

lemma effect_cong:
  "f = f' \<Longrightarrow> g = g' \<Longrightarrow> n = n' \<Longrightarrow> effect P R n f g s t = effect P R n' f' g' s t"
  by simp

lemma effect_mono: "effect P R n f g s t \<Longrightarrow> R \<subseteq> R' \<Longrightarrow> n \<le> n' \<Longrightarrow> effect P R' n' f g s t"
  unfolding effect_def by auto

lemma effect_restrict: "effect P R n f g s t \<Longrightarrow> (\<And>va. P' va \<Longrightarrow> P va) \<Longrightarrow> effect P' R n f g s t"
  unfolding effect_def by auto

lemma effect_trans:
  assumes st: "effect P R n f g s t" and tu: "effect P R n' f' g' t u" and g': "pointwise g'"
  shows "effect P R (n + n') (\<lambda>w. f' (f w)) (\<lambda>m. g' (g m)) s u"
proof -
  have fr: "fresh s u x \<longleftrightarrow> fresh s t x \<or> fresh t u x" for x
    using st tu unfolding effect_def fresh_def by auto
  show ?thesis
    unfolding effect_def
  proof (intro conjI allI impI)
    show "in_tables (mem s) x \<or> fresh s u x" if "in_tables (mem u) x" for x
      using that effectD(7) [OF st] effectD(7) [OF tu] fr by blast
    fix x
    assume x: "\<not> in_tables (mem s) x \<and> \<not> fresh s u x \<and> x \<notin> vga_region \<and> x \<notin> R"
    then have "\<not> in_tables (mem t) x" "\<not> fresh s t x" "\<not> fresh t u x" using effectD(7) [OF st] fr by blast+
    with x have "mem t x = g (mem s) x" "mem u x = g' (mem t) x"
      by (blast intro: effectD(6) [OF st], blast intro: effectD(6) [OF tu])
    with g' show "mem u x = g' (g (mem s)) x" unfolding pointwise_def by metis
  next
    show "tables_ok (mem u) (pt_it u)" by (rule effectD(1) [OF tu])
    show "cr3 u = cr3 s" using effectD(2) [OF st] effectD(2) [OF tu] by simp
    show "unat (pt_it s) \<le> unat (pt_it u)" using st tu unfolding effect_def by linarith
    show "unat (pt_it u) \<le> unat (pt_it s) + (n + n')" using effectD(3) [OF st] effectD(3) [OF tu] by linarith
    show "walk (mem u) p4table = f' (f (walk (mem s) p4table))" using effectD(4) [OF st] effectD(4) [OF tu] by simp
    show "mappable (mem u) va" if "P va \<and> mappable (mem s) va" for va
      using that effectD(5) [OF st] effectD(5) [OF tu] by blast
  qed
qed

section \<open>Above the pool\<close>

lemma above_pool_tables: "tables_ok m it \<Longrightarrow> pt_limit \<le> unat x \<Longrightarrow> \<not> in_tables m x"
  using in_tables_below(2) tables_ok_it by fastforce

lemma paging_step_above:
  assumes "tables_ok (mem s) (pt_it s)" and "tables_ok (mem s') (pt_it s')" and "paging_step s s'"
    and "pt_limit \<le> unat x"
  shows "mem s' x = mem s x"
proof -
  have "\<not> in_tables (mem s) x"
    using in_tables_below(2) [OF assms(1), of x] tables_ok_it [OF assms(1)] assms(4) by linarith
  moreover have "\<not> fresh s s' x" using tables_ok_it [OF assms(2)] assms(4) by (simp add: fresh_def)
  ultimately show ?thesis using assms(3) by (simp add: paging_step_def)
qed

lemma effect_above:
  assumes "tables_ok (mem s) (pt_it s)" and "effect P R n f g s t"
    and "pt_limit \<le> unat x" and "x \<notin> vga_region" and "x \<notin> R"
  shows "mem t x = g (mem s) x"
proof -
  have "\<not> fresh s t x" using tables_ok_it [OF effectD(1) [OF assms(2)]] assms(3) by (simp add: fresh_def)
  then show ?thesis using effectD(6) [OF assms(2)] above_pool_tables [OF assms(1,3)] assms(4,5) by blast
qed

text \<open>A window above the table pool, and one that the screen does not occupy either.\<close>

definition above_pool :: "u64 \<Rightarrow> nat \<Rightarrow> bool" where
  "above_pool a n \<longleftrightarrow> n \<le> 2 ^ 64 \<and> (\<forall>x \<in> span a n. pt_limit \<le> unat x)"

definition clear :: "u64 \<Rightarrow> nat \<Rightarrow> bool" where
  "clear a n \<longleftrightarrow> above_pool a n \<and> span a n \<inter> vga_region = {}"

lemma clearD: "clear a n \<Longrightarrow> x \<in> span a n \<Longrightarrow> pt_limit \<le> unat x \<and> x \<notin> vga_region"
  by (auto simp: clear_def above_pool_def)

lemma holds_clear:
  assumes "clear a n" and "\<And>x. x \<in> span a n \<Longrightarrow> mem t x = mem s x"
  shows "holds a n w t \<longleftrightarrow> holds a n w s"
  using assms by (simp add: holds_def clear_def above_pool_def)

section \<open>The steps\<close>

lemma effect_still:
  assumes ok: "tables_ok (mem s) (pt_it s)"
    and same: "\<And>x. in_tables (mem s) x \<Longrightarrow> mem t x = mem s x" and "pt_it t = pt_it s" "cr3 t = cr3 s"
    and "\<And>x. x \<notin> R \<Longrightarrow> x \<notin> vga_region \<Longrightarrow> mem t x = g (mem s) x"
  shows "effect P R 0 (\<lambda>w. w) g s t"
proof -
  have "walk (mem t) p4table = walk (mem s) p4table" using walk_frame [OF ok same] by (rule ext)
  moreover have "mappable (mem t) va \<longleftrightarrow> mappable (mem s) va" for va
    using tables_frame(2) [OF ok same] by (simp add: mappable_def huge_path_def)
  ultimately show ?thesis
    using tables_frame_ok [OF ok same] assms(3-) by (simp add: effect_def)
qed

lemma effect_memory:
  assumes "tables_ok (mem s) (pt_it s)"
    and "\<And>x. in_tables (mem s) x \<Longrightarrow> m x = mem s x" and "\<And>x. x \<notin> R \<Longrightarrow> m x = g (mem s) x"
  shows "effect P R 0 (\<lambda>w. w) g s (s\<lparr>mem := m\<rparr>)"
  using assms by (intro effect_still) simp_all

text \<open>A step that touches neither tables nor other memory than \<open>R\<close>.\<close>

abbreviation quiet :: "u64 set \<Rightarrow> machine \<Rightarrow> machine \<Rightarrow> bool" where
  "quiet R \<equiv> effect (\<lambda>_. True) R 0 (\<lambda>w. w) (\<lambda>m. m)"

lemma quiet_refl: "tables_ok (mem s) (pt_it s) \<Longrightarrow> quiet R s s"
  by (simp add: effect_def fresh_def)

lemma effect_quiet:
  assumes "effect P R n f g s t" and "quiet R' t u" and "R' \<subseteq> R"
  shows "effect P R n f g s u"
proof -
  have "effect P R 0 (\<lambda>w. w) (\<lambda>m. m) t u"
    using effect_restrict [OF effect_mono [OF assms(2,3) order_refl]] by simp
  from effect_trans [OF assms(1) this pointwise_id] show ?thesis by simp
qed

lemma quiet_effect:
  assumes "quiet R' s t" and "effect P R n f g t u" and "R' \<subseteq> R" and "pointwise g"
  shows "effect P R n f g s u"
proof -
  have "effect P R 0 (\<lambda>w. w) (\<lambda>m. m) s t"
    using effect_restrict [OF effect_mono [OF assms(1,3) order_refl]] by simp
  from effect_trans [OF this assms(2,4)] show ?thesis by simp
qed

lemma quiet_trans:
  assumes "quiet R s t" and "quiet R' t u"
  shows "quiet (R \<union> R') s u"
  using effect_quiet [OF effect_mono [OF assms(1), of "R \<union> R'"] assms(2)] by simp

lemma effect_io:
  assumes ok: "tables_ok (mem s) (pt_it s)" and io: "io_step R s t"
    and R: "\<And>x. x \<in> R \<Longrightarrow> \<not> in_tables (mem s) x"
  shows "effect P R 0 (\<lambda>w. w) (\<lambda>m. m) s t"
proof (rule effect_still [OF ok])
  fix x
  show "in_tables (mem s) x \<Longrightarrow> mem t x = mem s x"
    using R [of x] io vga_above_tables [OF ok, of x] unfolding io_step_def by blast
qed (use io in \<open>simp_all add: io_step_def\<close>)

lemma effect_console:
  assumes "tables_ok (mem s) (pt_it s)" and "console_same s t"
  shows "effect P R 0 (\<lambda>w. w) (\<lambda>m. m) s t"
  using assms(2) vga_above_tables [OF assms(1)]
  by (intro effect_still [OF assms(1)]) (auto simp: console_same_def)

lemma effect_paging:
  assumes "tables_ok (mem t) (pt_it t)" and "paging_step s t"
    and "unat (pt_it t) \<le> unat (pt_it s) + n" and "walk (mem t) p4table = f (walk (mem s) p4table)"
    and "\<And>va. P va \<Longrightarrow> mappable (mem s) va \<Longrightarrow> mappable (mem t) va"
  shows "effect P R n f (\<lambda>m. m) s t"
  using assms by (simp add: effect_def paging_step_def)

end
