(* ===== verification/KernelMap.thy ===== *)
theory KernelMap
  imports Elf Effects
begin

text \<open>
  What \<open>map_kernel\<close> leaves behind: the bytes of every segment in the buffer, and the translation of
  every page of every segment.
\<close>

section \<open>The pages of a segment\<close>

text \<open>Page \<open>i\<close> of a segment, and the 2 MiB regions (level-1 tables) that its first \<open>n\<close> pages need.\<close>

abbreviation page_va :: "ELF64ProgramHeader \<Rightarrow> nat \<Rightarrow> u64" where
  "page_va ph i \<equiv> vaddr ph + 0x1000 * of_nat i"

definition regions :: "ELF64ProgramHeader \<Rightarrow> nat \<Rightarrow> index list set" where
  "regions ph n = (\<lambda>i. huge_path (page_va ph i)) ` {..<n}"

text \<open>How many of them the pages from \<open>i\<close> on add.\<close>

definition needed :: "ELF64ProgramHeader \<Rightarrow> nat \<Rightarrow> nat \<Rightarrow> nat" where
  "needed ph n i = card (regions ph n - regions ph i)"

lemma regions_Suc: "regions ph (Suc n) = insert (huge_path (page_va ph n)) (regions ph n)"
  by (simp add: regions_def lessThan_Suc)

lemma finite_regions [simp]: "finite (regions ph n)"
  by (simp add: regions_def)

lemma regions_mem: "i < n \<Longrightarrow> huge_path (page_va ph i) \<in> regions ph n"
  by (simp add: regions_def)

lemma needed_old: "huge_path (page_va ph i) \<in> regions ph i \<Longrightarrow> needed ph n (Suc i) = needed ph n i"
  by (simp add: needed_def regions_Suc insert_absorb)

lemma insert_rest: "x \<in> A \<Longrightarrow> x \<notin> B \<Longrightarrow> A - B = insert x (A - insert x B)"
  by blast

lemma needed_new:
  assumes "i < n" and "huge_path (page_va ph i) \<notin> regions ph i"
  shows "needed ph n i = Suc (needed ph n (Suc i))"
proof -
  have "needed ph n i = card (insert (huge_path (page_va ph i)) (regions ph n - regions ph (Suc i)))"
    using insert_rest [OF regions_mem [OF assms(1)] assms(2)] by (simp only: needed_def regions_Suc)
  then show ?thesis by (simp add: needed_def regions_Suc)
qed

lemma walk_table:
  assumes "tables_ok m it" and "mappable m va" and "walk m p4table va \<noteq> None"
  shows "\<exists>t. table_of m (huge_path va) = Some t"
proof -
  have "walk_tree (pte m) va \<noteq> None" using assms(1,3) walk_pte by metis
  then have "present (pte m (huge_path va))" "\<not> huge_page (pte m (huge_path va))"
    using assms(2) by (auto simp: walk_tree_def mappable_def huge_path_def Let_def split: if_splits)
  then show ?thesis by (simp add: huge_path_def table_of_pte link_def)
qed

definition map_one :: "u64 \<Rightarrow> u64 \<Rightarrow> translation \<Rightarrow> translation" where
  "map_one va pa w a = (if page_path a = page_path va then Some (pa OR take_bit 12 a) else w a)"

lemma effect_map_one:
  assumes "\<exists>t. map_4kb_page va pa s = Some t \<and> tables_ok (mem t) (pt_it t) \<and> paging_step s t \<and>
    unat (pt_it t) \<le> unat (pt_it s) + n \<and> (\<forall>va'. mappable (mem s) va' \<longrightarrow> mappable (mem t) va') \<and>
    (\<forall>va'. walk (mem t) p4table va' = (if page_path va' = page_path va
       then Some (pa OR take_bit 12 va') else walk (mem s) p4table va'))"
  shows "\<exists>t. map_4kb_page va pa s = Some t \<and> effect (\<lambda>_. True) {} n (map_one va pa) (\<lambda>m. m) s t"
proof -
  from assms obtain t where t: "map_4kb_page va pa s = Some t" "tables_ok (mem t) (pt_it t)" "paging_step s t"
    "unat (pt_it t) \<le> unat (pt_it s) + n" "\<forall>va'. mappable (mem s) va' \<longrightarrow> mappable (mem t) va'"
    "\<forall>va'. walk (mem t) p4table va' = (if page_path va' = page_path va
       then Some (pa OR take_bit 12 va') else walk (mem s) p4table va')" by (elim exE conjE)
  have "walk (mem t) p4table = map_one va pa (walk (mem s) p4table)" using t(6) by (simp add: map_one_def fun_eq_iff)
  with t show ?thesis by (intro exI [of _ t]) (simp add: effect_paging)
qed

lemma map_page_step:
  assumes ok: "tables_ok (mem s) (pt_it s)" and pa: "frame pa = pa" and i: "i < n"
    and free: "\<forall>j < n. mappable (mem s) (page_va ph j)"
    and before: "\<forall>j < i. walk (mem s) p4table (page_va ph j) \<noteq> None"
    and room: "unat (pt_it s) + 12288 * needed ph n i \<le> pt_limit"
  shows "\<exists>t k. map_4kb_page (page_va ph i) pa s = Some t \<and> k + needed ph n (Suc i) = needed ph n i \<and>
    effect (\<lambda>_. True) {} (12288 * k) (map_one (page_va ph i) pa) (\<lambda>m. m) s t"
proof (cases "huge_path (page_va ph i) \<in> regions ph i")
  case True
  then obtain j where j: "j < i" "huge_path (page_va ph i) = huge_path (page_va ph j)"
    by (auto simp: regions_def)
  then have "mappable (mem s) (page_va ph j)" "walk (mem s) p4table (page_va ph j) \<noteq> None"
    using free before i by simp_all
  from walk_table [OF ok this] obtain u where "table_of (mem s) (huge_path (page_va ph i)) = Some u"
    unfolding j(2) by blast
  from map_4kb_reuse [OF ok pa this] obtain t where t: "map_4kb_page (page_va ph i) pa s = Some t"
    "tables_ok (mem t) (pt_it t)" "paging_step s t" "pt_it t = pt_it s"
    "\<forall>va'. mappable (mem s) va' \<longrightarrow> mappable (mem t) va'"
    "\<forall>va'. walk (mem t) p4table va' = (if page_path va' = page_path (page_va ph i)
       then Some (pa OR take_bit 12 va') else walk (mem s) p4table va')" by (elim exE conjE)
  have "effect (\<lambda>_. True) {} 0 (map_one (page_va ph i) pa) (\<lambda>m. m) s t"
    by (rule effect_paging [OF t(2,3)]) (use t(4-6) in \<open>simp_all add: map_one_def fun_eq_iff\<close>)
  with t(1) have "map_4kb_page (page_va ph i) pa s = Some t \<and>
    effect (\<lambda>_. True) {} 0 (map_one (page_va ph i) pa) (\<lambda>m. m) s t" by blast
  then show ?thesis using needed_old [OF True] by (intro exI [of _ t] exI [of _ 0]) simp
next
  case False
  note new = needed_new [OF i False]
  then have "unat (pt_it s) + 12288 \<le> pt_limit" using room by simp
  from effect_map_one [OF map_4kb_run [OF ok this pa free [rule_format, OF i]]]
  obtain t where t: "map_4kb_page (page_va ph i) pa s = Some t"
    "effect (\<lambda>_. True) {} 12288 (map_one (page_va ph i) pa) (\<lambda>m. m) s t" by blast
  then show ?thesis using new by (intro exI [of _ t] exI [of _ 1]) simp
qed

lemma span_sub: "k + n \<le> N \<Longrightarrow> N \<le> 2 ^ 64 \<Longrightarrow> 0 < n \<Longrightarrow> span (a + of_nat k) n \<subseteq> span a N"
  using in_span_offset [of k n _ a] by (auto simp: in_span)

lemma effect_holds:
  assumes "tables_ok (mem s) (pt_it s)" and "effect P R k f g s t" and "clear a n" and "span a n \<inter> R = {}"
    and "\<And>x. x \<in> span a n \<Longrightarrow> g (mem s) x = mem s x" and "holds a n w s"
  shows "holds a n w t"
proof -
  have "mem t x = mem s x" if "x \<in> span a n" for x
    using effect_above [OF assms(1,2)] clearD [OF assms(3) that] assms(4,5) that by fastforce
  then show ?thesis using holds_clear [OF assms(3)] assms(6) by blast
qed

lemma phdr_holds:
  assumes "holds a 56 v s"
  shows "elf_program_header (at (mem s) a) = elf_program_header v"
proof -
  have "field (at (mem s) a) off n = field v off n" if "off + n \<le> 56" for off n
    using that assms by (intro field_cong) (simp add: holds_def at_def)
  then show ?thesis by (simp add: elf_program_header_def)
qed

text \<open>Pages \<open>i\<close> to \<open>n - 1\<close>.\<close>

definition map_range :: "ELF64ProgramHeader \<Rightarrow> u64 \<Rightarrow> nat \<Rightarrow> nat \<Rightarrow> translation \<Rightarrow> translation" where
  "map_range ph pa i n w va = (if \<exists>j. i \<le> j \<and> j < n \<and> page_path va = page_path (page_va ph j)
     then Some (pa OR take_bit 12 va) else w va)"

lemma range_step: "i < n \<Longrightarrow> (\<exists>j. i \<le> j \<and> j < n \<and> P j) \<longleftrightarrow> P i \<or> (\<exists>j. Suc i \<le> j \<and> j < n \<and> P j)"
  for i n :: nat
  by (metis Suc_leD Suc_leI le_eq_less_or_eq)

lemma map_range_step: "i < n \<Longrightarrow> map_range ph pa i n w = map_range ph pa (Suc i) n (map_one (page_va ph i) pa w)"
proof
  fix va
  assume "i < n"
  from range_step [OF this, of "\<lambda>j. page_path va = page_path (page_va ph j)"]
  show "map_range ph pa i n w va = map_range ph pa (Suc i) n (map_one (page_va ph i) pa w) va"
    unfolding map_range_def map_one_def by auto
qed

lemma map_pages_run:
  assumes pa: "pa = segment_frame cb ph" "frame pa = pa" and hdr: "ph = elf_program_header v" "clear a 56"
    and "tables_ok (mem s) (pt_it s)" and "holds a 56 v s" and "i + k = n"
    and "\<forall>j < n. mappable (mem s) (page_va ph j)"
    and "\<forall>j < i. walk (mem s) p4table (page_va ph j) \<noteq> None"
    and "unat (pt_it s) + 12288 * needed ph n i \<le> pt_limit"
  shows "\<exists>t. map_pages k cb a (of_nat i) s = Some t \<and>
    effect (\<lambda>_. True) {} (12288 * needed ph n i) (map_range ph pa i n) (\<lambda>m. m) s t"
  using assms(5-)
proof (induction k arbitrary: i s)
  case 0
  then have "effect (\<lambda>_. True) {} 0 (\<lambda>w. w) (\<lambda>m. m) s s" by (simp add: effect_def fresh_def)
  then have "effect (\<lambda>_. True) {} (12288 * needed ph n i) (\<lambda>w. w) (\<lambda>m. m) s s" by (rule effect_mono) simp_all
  moreover have "map_range ph pa i n = (\<lambda>w. w)" using 0(3) by (auto simp: map_range_def fun_eq_iff)
  ultimately show ?case by simp
next
  case (Suc k)
  note ok = Suc.prems(1)
  have i: "i < n" and k: "Suc i + k = n" using Suc.prems(3) by simp_all
  obtain t m where t: "map_4kb_page (page_va ph i) pa s = Some t" "m + needed ph n (Suc i) = needed ph n i"
    "effect (\<lambda>_. True) {} (12288 * m) (map_one (page_va ph i) pa) (\<lambda>m. m) s t"
    using map_page_step [OF ok pa(2) i Suc.prems(4-6)] by blast
  have h: "holds a 56 v t" by (rule effect_holds [OF ok t(3) hdr(2) _ _ Suc.prems(2)]) simp_all
  have "\<forall>j < n. mappable (mem t) (page_va ph j)" using effectD(5) [OF t(3)] Suc.prems(4) by blast
  moreover have "\<forall>j < Suc i. walk (mem t) p4table (page_va ph j) \<noteq> None"
    using effectD(4) [OF t(3)] Suc.prems(5) by (auto simp: less_Suc_eq map_one_def)
  moreover have "unat (pt_it t) + 12288 * needed ph n (Suc i) \<le> pt_limit"
    using effectD(3) [OF t(3)] t(2) Suc.prems(6) by (simp flip: t(2))
  ultimately obtain u where u: "map_pages k cb a (of_nat (Suc i)) t = Some u"
    "effect (\<lambda>_. True) {} (12288 * needed ph n (Suc i)) (map_range ph pa (Suc i) n) (\<lambda>m. m) t u"
    using Suc.IH [OF effectD(1) [OF t(3)] h k] by blast
  have need: "12288 * m + 12288 * needed ph n (Suc i) = 12288 * needed ph n i" using t(2) by linarith
  have "map_pages (Suc k) cb a (of_nat i) s = Some u"
    using t(1) u(1) by (simp add: phdr_holds [OF Suc.prems(2)] hdr(1) [symmetric] pa(1) [symmetric] Let_def add.commute)
  moreover have "map_range ph pa i n = (\<lambda>w. map_range ph pa (Suc i) n (map_one (page_va ph i) pa w))"
    using map_range_step [OF i] by (rule ext)
  then have "effect (\<lambda>_. True) {} (12288 * needed ph n i) (map_range ph pa i n) (\<lambda>m. m) s u"
    using effect_trans [OF t(3) u(2) pointwise_id] need by simp
  ultimately show ?case by blast
qed

section \<open>One segment\<close>

lemma bind_console:
  assumes "\<exists>t. f = Some t \<and> console_same s t"
    and "\<And>t. console_same s t \<Longrightarrow> \<exists>u. g t = Some u \<and> console_same t u"
  shows "\<exists>u. Option.bind f g = Some u \<and> console_same s u"
  using assms console_same_trans by fastforce

lemma prints:
  assumes "serial_live D"
  shows "\<exists>t. puts D (lit cs) s = Some t \<and> console_same s t" "\<exists>t. putc D c s = Some t \<and> console_same s t"
    "\<exists>t. putx16 D v16 s = Some t \<and> console_same s t" "\<exists>t. putx64 D v64 s = Some t \<and> console_same s t"
    "\<exists>t. putd D v64 s = Some t \<and> console_same s t"
proof -
  have e: "\<exists>t. emit (putc D) cs s = Some t \<and> console_same s t" for cs
    using console.emit_ok [OF assms] by blast
  show "\<exists>t. puts D (lit cs) s = Some t \<and> console_same s t" "\<exists>t. putx16 D v16 s = Some t \<and> console_same s t"
    "\<exists>t. putx64 D v64 s = Some t \<and> console_same s t" "\<exists>t. putd D v64 s = Some t \<and> console_same s t"
    unfolding puts_lit output_emit by (rule e)+
  show "\<exists>t. putc D c s = Some t \<and> console_same s t" using console.out_ok [OF assms] by blast
qed

lemma print_segment_run: "serial_live D \<Longrightarrow> \<exists>t. print_segment D a s = Some t \<and> console_same s t"
  unfolding print_segment_def by (intro bind_console prints)

lemma bit_segment_frame: "bit (segment_frame cb ph) k \<longleftrightarrow> 12 \<le> k \<and> k < 45 \<and> bit (segment_dst cb ph) k"
proof -
  have m: "(0xFFFFE00000000FFF :: u64) = mask 12 OR push_bit 45 (mask 19)" by (simp add: mask_eq_exp_minus_1)
  show ?thesis
    unfolding segment_frame_def m by (auto simp: bit_simps dest: bit_lt_64)
qed

lemma frame_segment: "frame (segment_frame cb ph) = segment_frame cb ph"
  unfolding frame_fixed_bits by (simp add: bit_segment_frame)

text \<open>The specification: copying a segment's bytes of the file \<open>v\<close>, and mapping its pages.\<close>

definition copy_segment :: "u64 \<Rightarrow> view \<Rightarrow> ELF64ProgramHeader \<Rightarrow> mem \<Rightarrow> mem" where
  "copy_segment cb v ph m x = (if x \<in> span (segment_dst cb ph) (unat (filesz ph))
     then v (unat (offset ph) + unat (x - segment_dst cb ph)) else m x)"

definition map_segment :: "u64 \<Rightarrow> ELF64ProgramHeader \<Rightarrow> translation \<Rightarrow> translation" where
  "map_segment cb ph w va = (if \<exists>j < unat (num_pages ph). page_path va = page_path (page_va ph j)
     then Some (segment_frame cb ph OR take_bit 12 va) else w va)"

lemma pointwise_copy [simp]: "pointwise (copy_segment cb v ph)"
  by (simp add: pointwise_def copy_segment_def)

lemma pointwise_copies [simp]: "pointwise (fold (copy_segment cb v) phs)"
  by (simp add: pointwise_fold)

lemma map_segment_range: "map_range ph (segment_frame cb ph) 0 (unat (num_pages ph)) = map_segment cb ph"
  by (simp add: map_range_def map_segment_def fun_eq_iff)

definition segment_ok :: "view \<Rightarrow> nat \<Rightarrow> u64 \<Rightarrow> u64 \<Rightarrow> u64 \<Rightarrow> ELF64ProgramHeader \<Rightarrow> bool" where
  "segment_ok v N elf cb ks ph \<longleftrightarrow>
     unat (offset ph) + unat (filesz ph) \<le> N \<and>
     copy_ok (segment_dst cb ph) (elf + offset ph) (unat (filesz ph)) \<and>
     clear (segment_dst cb ph) (unat (filesz ph)) \<and>
     span (segment_dst cb ph) (unat (filesz ph)) \<inter> span elf N = {} \<and>
     span (segment_dst cb ph) (unat (filesz ph)) \<inter> span ks 8 = {}"

text \<open>What a segment needs of the tables.\<close>

definition pages_mappable :: "mem \<Rightarrow> ELF64ProgramHeader \<Rightarrow> bool" where
  "pages_mappable m ph \<longleftrightarrow> (\<forall>j < unat (num_pages ph). mappable m (page_va ph j))"

definition room_for :: "ELF64ProgramHeader \<Rightarrow> nat" where
  "room_for ph = 12288 * card (regions ph (unat (num_pages ph)))"

lemma room_needed: "12288 * needed ph (unat (num_pages ph)) 0 = room_for ph"
  by (simp add: room_for_def needed_def regions_def)

text \<open>
  The effect of loading segments, as far as the rest of the loader can see. The field that
  \<open>kernel_size\<close> points to is the only memory that is neither a table, nor the screen, nor a segment.
\<close>

definition loaded :: "u64 \<Rightarrow> u64 \<Rightarrow> view \<Rightarrow> ELF64ProgramHeader list \<Rightarrow> machine \<Rightarrow> machine \<Rightarrow> bool" where
  "loaded cb ks v phs s s' \<longleftrightarrow>
     effect (\<lambda>_. True) (span ks 8) (sum_list (map room_for phs))
       (fold (map_segment cb) phs) (fold (copy_segment cb v) phs) s s' \<and>
     load64 (mem s') ks = load64 (mem s) ks + sum_list (map memsz phs)"

lemma loaded_refl: "tables_ok (mem s) (pt_it s) \<Longrightarrow> loaded cb ks v [] s s"
  by (simp add: loaded_def effect_def fresh_def id_def)

lemma loaded_trans:
  assumes "loaded cb ks v phs s t" and "loaded cb ks v phs' t u"
  shows "loaded cb ks v (phs @ phs') s u"
  using assms effect_trans [of "\<lambda>_. True" "span ks 8" _ _ _ s t _ _ _ u, OF _ _ pointwise_copies]
  unfolding loaded_def by (simp add: comp_def add.assoc)

lemma console_clear: "console_same s t \<Longrightarrow> clear a n \<Longrightarrow> x \<in> span a n \<Longrightarrow> mem t x = mem s x"
  using clearD by (auto simp: console_same_def)

text \<open>The bytes of a segment, copied out of the file in memory.\<close>

lemma copy_segment_run:
  assumes ok: "tables_ok (mem s) (pt_it s)" and img: "holds elf N v s" and ph: "segment_ok v N elf cb ks ph"
  shows "\<exists>m. memcpy (mem s) (segment_dst cb ph) (elf + offset ph) (filesz ph) = Some m \<and>
    effect P {} 0 (\<lambda>w. w) (copy_segment cb v ph) s (s\<lparr>mem := m\<rparr>)"
proof -
  let ?d = "segment_dst cb ph" and ?n = "unat (filesz ph)"
  define m where "m = (\<lambda>x. if x \<in> span ?d ?n then mem s (elf + offset ph + (x - ?d)) else mem s x)"
  have cp: "memcpy (mem s) ?d (elf + offset ph) (filesz ph) = Some m"
    using memcpy_copy [of ?d "elf + offset ph" "filesz ph" "mem s"] ph
    by (auto simp: segment_ok_def m_def)
  have m: "m x = copy_segment cb v ph (mem s) x" for x
  proof (cases "x \<in> span ?d ?n")
    case True
    then have j: "unat (offset ph) + unat (x - ?d) < N" using ph by (auto simp: segment_ok_def in_span)
    have "elf + offset ph + (x - ?d) = elf + of_nat (unat (offset ph) + unat (x - ?d))" by simp
    then have "mem s (elf + offset ph + (x - ?d)) = v (unat (offset ph) + unat (x - ?d))"
      using img j unfolding holds_def by metis
    then show ?thesis using True by (simp add: m_def copy_segment_def)
  qed (simp add: m_def copy_segment_def)
  have "m x = mem s x" if "in_tables (mem s) x" for x
  proof -
    have "unat x < pt_limit" using above_pool_tables [OF ok, of x] that by fastforce
    then show ?thesis using clearD [of ?d ?n x] ph by (auto simp: m_def segment_ok_def)
  qed
  then have "effect P {} 0 (\<lambda>w. w) (copy_segment cb v ph) s (s\<lparr>mem := m\<rparr>)"
    by (rule effect_memory [OF ok]) (simp_all add: m)
  with cp show ?thesis by blast
qed

lemma load_segment_run:
  assumes live: "serial_live D" and ok: "tables_ok (mem s) (pt_it s)"
    and image: "clear elf N" "holds elf N v s" and k: "k + 56 \<le> N"
    and ks: "clear ks 8" "span ks 8 \<inter> span elf N = {}"
    and ph: "ph = elf_program_header (shift v k)" "segment_ok v N elf cb ks ph"
    and free: "pages_mappable (mem s) ph" and room: "unat (pt_it s) + room_for ph \<le> pt_limit"
  shows "\<exists>s'. load_segment D elf cb ks (elf + of_nat k) s = Some s' \<and> loaded cb ks v [ph] s s'"
proof -
  let ?a = "elf + of_nat k" and ?T = "\<lambda>_ :: u64. True"
  have hdr: "holds ?a 56 (shift v k) u" if "holds elf N v u" for u
    using that k by (simp add: holds_def shift_def add.assoc flip: of_nat_add)
  have rd: "elf_program_header (at (mem u) ?a) = ph" if "holds elf N v u" for u
    unfolding ph(1) by (rule phdr_holds [OF hdr [OF that]])
  have "span ?a 56 \<subseteq> span elf N" using span_sub [OF k] image(1) by (simp add: clear_def above_pool_def)
  then have a_clear: "clear ?a 56" using image(1) unfolding clear_def above_pool_def by auto
  have keep: "copy_segment cb v ph m x = m x" if "x \<in> span elf N \<or> x \<in> span ks 8" for m x
    using ph(2) that by (auto simp: segment_ok_def copy_segment_def)
  obtain t where t: "print_segment D ?a s = Some t" "console_same s t"
    using print_segment_run [OF live] by blast
  have e1: "effect ?T {} 0 (\<lambda>w. w) (\<lambda>m. m) s t" by (rule effect_console [OF ok t(2)])
  have img_t: "holds elf N v t" by (rule effect_holds [OF ok e1 image(1) _ _ image(2)]) simp_all
  obtain m where m: "memcpy (mem t) (segment_dst cb ph) (elf + offset ph) (filesz ph) = Some m"
    "effect ?T {} 0 (\<lambda>w. w) (copy_segment cb v ph) t (t\<lparr>mem := m\<rparr>)"
    using copy_segment_run [OF effectD(1) [OF e1] img_t ph(2)] by blast
  let ?t = "t\<lparr>mem := m\<rparr>"
  have e2: "effect ?T {} 0 (\<lambda>w. w) (copy_segment cb v ph) s ?t"
    using effect_trans [OF e1 m(2)] by simp
  note ok2 = effectD(1) [OF e2]
  have img_m: "holds elf N v ?t"
    by (rule effect_holds [OF ok e2 image(1) _ _ image(2)]) (simp_all add: keep)
  have "\<forall>j < unat (num_pages ph). mappable (mem ?t) (page_va ph j)"
    using free effectD(5) [OF e2] unfolding pages_mappable_def by blast
  moreover have "unat (pt_it ?t) + 12288 * needed ph (unat (num_pages ph)) 0 \<le> pt_limit"
    using room effectD(3) [OF e2] unfolding room_needed by linarith
  ultimately obtain u where u: "map_pages (unat (num_pages ph)) cb ?a 0 ?t = Some u"
    "effect ?T {} (room_for ph) (map_segment cb ph) (\<lambda>m. m) ?t u"
    using map_pages_run [OF refl frame_segment ph(1) a_clear ok2 hdr [OF img_m] add_0, of "unat (num_pages ph)" cb]
    unfolding room_needed by (auto simp: room_needed map_segment_range)
  have e3: "effect ?T {} (room_for ph) (map_segment cb ph) (copy_segment cb v ph) s u"
    using effect_trans [OF e2 u(2)] by simp
  have img_u: "holds elf N v u"
    by (rule effect_holds [OF ok e3 image(1) _ _ image(2)]) (simp_all add: keep)
  have "load64 (mem u) ks = load64 (mem s) ks"
    using effect_above [OF ok e3] clearD [OF ks(1)] keep by (intro load64_cong) simp
  note size = this
  define s' where "s' = u\<lparr>mem := store64 (mem u) ks (load64 (mem u) ks + memsz ph)\<rparr>"
  have run: "load_segment D elf cb ks ?a s = Some s'"
    using rd [OF img_t] rd [OF img_m] rd [OF img_u]
    by (simp add: load_segment_def t(1) m(1) u(1) s'_def Let_def)
  have "effect ?T (span ks 8) 0 (\<lambda>w. w) (\<lambda>m. m) u s'"
    unfolding s'_def
  proof (rule effect_memory [OF effectD(1) [OF e3]])
    fix x assume "in_tables (mem u) x"
    then have "x \<notin> span ks 8"
      using above_pool_tables [OF effectD(1) [OF e3], of x] clearD [OF ks(1), of x] by blast
    then show "store64 (mem u) ks (load64 (mem u) ks + memsz ph) x = mem u x" by (simp add: store64_out)
  qed (simp add: store64_out)
  from effect_trans [OF effect_mono [OF e3] this] size run show ?thesis
    by (simp add: loaded_def s'_def)
qed

section \<open>All headers\<close>

text \<open>The program headers that \<open>map_kernel\<close> looks at, in a file that holds the bytes \<open>v\<close>.\<close>

definition header_at :: "view \<Rightarrow> nat \<Rightarrow> nat" where
  "header_at v j = unat (program_header_table_position (elf_file_header v))
     + j * unat (program_header_table_entry_size (elf_file_header v))"

definition headers_read :: "view \<Rightarrow> nat" where
  "headers_read v = max 1 (unat (program_header_table_entry_count (elf_file_header v)))"

definition phdr :: "view \<Rightarrow> nat \<Rightarrow> ELF64ProgramHeader" where
  "phdr v j = elf_program_header (shift v (header_at v j))"

definition segments :: "view \<Rightarrow> nat \<Rightarrow> ELF64ProgramHeader list" where
  "segments v j = filter (\<lambda>ph. phdr_type ph = 1) (map (phdr v) [j..<headers_read v])"

lemma segments_step: "j < headers_read v \<Longrightarrow>
  segments v j = (if phdr_type (phdr v j) = 1 then [phdr v j] else []) @ segments v (Suc j)"
  by (simp add: segments_def upt_conv_Cons)

lemma segments_end: "headers_read v \<le> j \<Longrightarrow> segments v j = []"
  by (simp add: segments_def)

lemma segments_sub: "set (segments v j) \<subseteq> set (segments v 0)"
  by (auto simp: segments_def)

lemma file_header_holds:
  assumes "holds elf N v s" and "64 \<le> N"
  shows "elf_file_header (at (mem s) elf) = elf_file_header v"
proof -
  have at: "at (mem s) elf i = v i" if "i < 64" for i
    using assms that by (simp add: holds_def at_def)
  have "field (at (mem s) elf) off n = field v off n" if "off + n \<le> 64" for off n
    using that by (intro field_cong) (simp add: at)
  then show ?thesis using at by (simp add: elf_file_header_def)
qed

text \<open>The counter and the pointer of the loop.\<close>

lemma header_count:
  assumes "j < headers_read v"
  shows "of_nat j + 1 < (ucast (program_header_table_entry_count (elf_file_header v)) :: u64) \<longleftrightarrow> Suc j < headers_read v"
proof -
  let ?n = "program_header_table_entry_count (elf_file_header v)"
  have "unat ?n < 65536" using unsigned_less [of ?n] by simp
  then have "Suc j < 2 ^ 64" using assms by (simp add: headers_read_def)
  then have "unat (of_nat (Suc j) :: u64) = Suc j" by (simp add: unat_of_nat del: of_nat_Suc)
  moreover have "of_nat j + 1 = (of_nat (Suc j) :: u64)" by simp
  ultimately have "unat (of_nat j + 1 :: u64) = Suc j" by metis
  then show ?thesis by (auto simp: word_less_nat_alt unat_ucast_up headers_read_def)
qed

lemma header_next: "elf + of_nat (header_at v j) + ucast (program_header_table_entry_size (elf_file_header v))
  = elf + of_nat (header_at v (Suc j))"
proof -
  have "(ucast (program_header_table_entry_size (elf_file_header v)) :: u64)
      = of_nat (unat (program_header_table_entry_size (elf_file_header v)))"
    by (simp add: unsigned_def)
  then show ?thesis by (simp add: header_at_def algebra_simps)
qed

text \<open>The conditions on an image in memory, none of which a step for one segment changes.\<close>

definition kernel_ok :: "view \<Rightarrow> nat \<Rightarrow> u64 \<Rightarrow> u64 \<Rightarrow> u64 \<Rightarrow> bool" where
  "kernel_ok v N elf cb ks \<longleftrightarrow> 64 \<le> N \<and> clear elf N \<and> clear ks 8 \<and> span ks 8 \<inter> span elf N = {} \<and>
     (\<forall>j < headers_read v. header_at v j + 56 \<le> N) \<and>
     (\<forall>ph \<in> set (segments v 0). segment_ok v N elf cb ks ph)"

lemma kernel_okD:
  assumes "kernel_ok v N elf cb ks"
  shows "64 \<le> N" "clear elf N" "clear ks 8" "span ks 8 \<inter> span elf N = {}"
    "j < headers_read v \<Longrightarrow> header_at v j + 56 \<le> N"
    "ph \<in> set (segments v j) \<Longrightarrow> segment_ok v N elf cb ks ph"
  using assms segments_sub [of v j] by (auto simp: kernel_ok_def)

lemma copies_out:
  assumes "\<forall>ph \<in> set phs. x \<notin> span (segment_dst cb ph) (unat (filesz ph))"
  shows "fold (copy_segment cb v) phs m x = m x"
  using assms by (induction phs arbitrary: m) (simp_all add: copy_segment_def)

lemma loaded_image:
  assumes ok: "tables_ok (mem s) (pt_it s)" and "loaded cb ks v phs s t" and K: "kernel_ok v N elf cb ks"
    and phs: "set phs \<subseteq> set (segments v 0)" and "holds elf N v s"
  shows "holds elf N v t"
proof (rule effect_holds [OF ok])
  show "effect (\<lambda>_. True) (span ks 8) (sum_list (map room_for phs)) (fold (map_segment cb) phs)
    (fold (copy_segment cb v) phs) s t" using assms(2) by (simp add: loaded_def)
  show "fold (copy_segment cb v) phs (mem s) x = mem s x" if "x \<in> span elf N" for x
    using kernel_okD(6) [OF K, of _ 0] phs that by (intro copies_out) (auto simp: segment_ok_def)
  show "span elf N \<inter> span ks 8 = {}" using kernel_okD(4) [OF K] by blast
qed (use kernel_okD(2) [OF K] assms(5) in simp_all)

text \<open>One header, loaded or skipped.\<close>

lemma map_header_run:
  assumes live: "serial_live D" and K: "kernel_ok v N elf cb ks"
    and ok: "tables_ok (mem s) (pt_it s)" and img: "holds elf N v s" and j: "j < headers_read v"
    and phs: "phs = (if phdr_type (phdr v j) = 1 then [phdr v j] else [])"
    and free: "\<forall>ph \<in> set phs. pages_mappable (mem s) ph"
    and room: "unat (pt_it s) + sum_list (map room_for phs) \<le> pt_limit"
  shows "\<exists>t. (if phdr_type (elf_program_header (at (mem s) (elf + of_nat (header_at v j)))) = 1
      then load_segment D elf cb ks (elf + of_nat (header_at v j)) s else Some s) = Some t \<and> loaded cb ks v phs s t"
proof -
  note k = kernel_okD(5) [OF K j]
  have "holds (elf + of_nat (header_at v j)) 56 (shift v (header_at v j)) s"
    using img k by (simp add: holds_def shift_def add.assoc flip: of_nat_add)
  note rd = phdr_holds [OF this, folded phdr_def]
  show ?thesis
  proof (cases "phdr_type (phdr v j) = 1")
    case True
    then have p: "phs = [phdr v j]" and "phdr v j \<in> set (segments v j)"
      using phs segments_step [OF j] by simp_all
    with free room have "segment_ok v N elf cb ks (phdr v j)" "pages_mappable (mem s) (phdr v j)"
      "unat (pt_it s) + room_for (phdr v j) \<le> pt_limit" using kernel_okD(6) [OF K] by simp_all
    from load_segment_run [OF live ok kernel_okD(2) [OF K] img k kernel_okD(3,4) [OF K] phdr_def this]
    show ?thesis unfolding rd p using True by simp
  next
    case False
    then show ?thesis using loaded_refl [OF ok] by (simp add: rd phs)
  qed
qed

lemma map_headers_run:
  assumes live: "serial_live D" and K: "kernel_ok v N elf cb ks"
    and "tables_ok (mem s) (pt_it s)" and "holds elf N v s" and "j < headers_read v"
    and "\<forall>ph \<in> set (segments v j). pages_mappable (mem s) ph"
    and "unat (pt_it s) + sum_list (map room_for (segments v j)) \<le> pt_limit"
  shows "\<exists>t. map_headers D elf cb ks (elf + of_nat (header_at v j)) (of_nat j) s = Some t \<and>
    loaded cb ks v (segments v j) s t"
  using assms(3-)
proof (induction "headers_read v - j" arbitrary: j s)
  case 0
  then show ?case by simp
next
  case (Suc n)
  note ok = Suc.prems(1) and j = Suc.prems(3)
  define phs where "phs = (if phdr_type (phdr v j) = 1 then [phdr v j] else [])"
  have split: "segments v j = phs @ segments v (Suc j)"
    using segments_step [OF j] by (simp add: phs_def)
  have "\<forall>ph \<in> set phs. pages_mappable (mem s) ph" "unat (pt_it s) + sum_list (map room_for phs) \<le> pt_limit"
    using Suc.prems(4,5) unfolding split by simp_all
  from map_header_run [OF live K ok Suc.prems(2) j phs_def this] obtain t where
    t: "(if phdr_type (elf_program_header (at (mem s) (elf + of_nat (header_at v j)))) = 1
      then load_segment D elf cb ks (elf + of_nat (header_at v j)) s else Some s) = Some t"
      "loaded cb ks v phs s t" by blast
  note e = t(2) [unfolded loaded_def, THEN conjunct1]
  have img_t: "holds elf N v t"
    by (rule loaded_image [OF ok t(2) K _ Suc.prems(2)]) (use segments_sub [of v j] in \<open>simp add: split\<close>)
  have step: "map_headers D elf cb ks (elf + of_nat (header_at v j)) (of_nat j) s =
      (if Suc j < headers_read v then map_headers D elf cb ks (elf + of_nat (header_at v (Suc j))) (of_nat j + 1) t
       else Some t)"
    by (subst map_headers.simps) (simp only: t(1) Option.bind.simps Let_def
        file_header_holds [OF img_t kernel_okD(1) [OF K]] header_count [OF j] header_next)
  show ?case
  proof (cases "Suc j < headers_read v")
    case True
    have "\<forall>ph \<in> set (segments v (Suc j)). pages_mappable (mem t) ph"
      using Suc.prems(4) effectD(5) [OF e] unfolding split pages_mappable_def by auto
    moreover have "unat (pt_it t) + sum_list (map room_for (segments v (Suc j))) \<le> pt_limit"
      using Suc.prems(5) effectD(3) [OF e] unfolding split by simp
    moreover have "n = headers_read v - Suc j" using Suc.hyps(2) by linarith
    ultimately obtain u where
      "map_headers D elf cb ks (elf + of_nat (header_at v (Suc j))) (of_nat (Suc j)) t = Some u"
      "loaded cb ks v (segments v (Suc j)) t u"
      using Suc.hyps(1) [OF _ effectD(1) [OF e] img_t True] by blast
    then show ?thesis using True step loaded_trans [OF t(2)] unfolding split by (simp add: add.commute)
  next
    case False
    then show ?thesis using step t(2) segments_end [of v "Suc j"] unfolding split by simp
  qed
qed

lemma map_kernel_run:
  assumes live: "serial_live D" and K: "kernel_ok v N elf cb ks"
    and ok: "tables_ok (mem s) (pt_it s)" and img: "holds elf N v s"
    and free: "\<forall>ph \<in> set (segments v 0). pages_mappable (mem s) ph"
    and room: "unat (pt_it s) + sum_list (map room_for (segments v 0)) \<le> pt_limit"
  shows "\<exists>t. map_kernel D elf cb ks s = Some (entry_point (elf_file_header v), t) \<and>
    loaded cb ks v (segments v 0) s t"
proof -
  note N = kernel_okD(1) [OF K]
  have h0: "0 < headers_read v" by (simp add: headers_read_def)
  have "\<exists>t. print_headings D s = Some t \<and> console_same s t"
    unfolding print_headings_def by (intro bind_console prints live)
  then obtain t where t: "print_headings D s = Some t" "console_same s t" by blast
  note e = effect_console [OF ok t(2), of "\<lambda>_. True"]
  have "load64 (mem t) ks = load64 (mem s) ks"
    using console_clear [OF t(2) kernel_okD(3) [OF K]] by (rule load64_cong)
  then have "loaded cb ks v [] s t" using e by (simp add: loaded_def id_def)
  note l = loaded_image [OF ok this K _ img] loaded_trans [OF this]
  have "\<forall>ph \<in> set (segments v 0). pages_mappable (mem t) ph"
    using free effectD(5) [OF e] by (simp add: pages_mappable_def)
  moreover have "unat (pt_it t) + sum_list (map room_for (segments v 0)) \<le> pt_limit"
    using room t(2) by (simp add: console_same_def)
  ultimately obtain u where u: "map_headers D elf cb ks (elf + of_nat (header_at v 0)) 0 t = Some u"
    "loaded cb ks v (segments v 0) t u"
    using map_headers_run [OF live K effectD(1) [OF e] l(1), of 0] h0 by auto
  have img_u: "holds elf N v u"
    by (rule loaded_image [OF effectD(1) [OF e] u(2) K order_refl l(1)]) simp
  have "map_kernel D elf cb ks s = Some (entry_point (elf_file_header v), u)"
    using u(1) file_header_holds [OF img N] file_header_holds [OF img_u N]
    by (simp add: map_kernel_def Let_def t(1) header_at_def)
  with l(2) [OF u(2)] show ?thesis by simp
qed

lemma take_bit_word_add: "take_bit n (a + b) = take_bit n (take_bit n a + take_bit n b)" for a b :: "'a::len word"
  by transfer (simp add: take_bit_eq_mod mod_simps min_def mod_mod_cancel le_imp_power_dvd)

section \<open>An example kernel\<close>

text \<open>
  One segment of 8 bytes at offset 0x1000 of the file, 0x1800 bytes in memory, at the address of the
  kernel's map, which is also the entry point.
\<close>

definition sample_elf :: view where
  "sample_elf i =
     (if i = 0 then 0x7F else if i = 1 then 0x45 else if i = 2 then 0x4C else if i = 3 then 0x46
      else if i \<in> {29, 85} then 0x90 else if i \<in> {30, 31, 86, 87} then 0xFF
      else if i = 32 then 64 else if i = 54 then 56 else if i \<in> {56, 64} then 1
      else if i \<in> {73, 113} then 0x10 else if i = 96 then 8 else if i = 105 then 0x18
      else if 0x1000 \<le> i \<and> i < 0x1008 then 0xAB else 0)"

definition elf_base :: u64 where "elf_base = 0xFFFF80000A100000"
definition exe_base :: u64 where "exe_base = 0xFFFF800000100000"

definition sample_kernel :: machine where
  "sample_kernel = boot_machine (\<lambda>x. if x \<in> span elf_base 0x1008 then sample_elf (unat (x - elf_base)) else 0)"

lemma sample_file_header:
  "entry_point (elf_file_header sample_elf) = 0xFFFF900000000000"
  "header_at sample_elf 0 = 64" "headers_read sample_elf = 1"
  by (simp_all add: elf_file_header_def field_def sample_elf_def upt_rec header_at_def headers_read_def)

lemma sample_phdr:
  "phdr_type (phdr sample_elf 0) = 1" "offset (phdr sample_elf 0) = 0x1000"
  "vaddr (phdr sample_elf 0) = 0xFFFF900000000000" "filesz (phdr sample_elf 0) = 8"
  "memsz (phdr sample_elf 0) = 0x1800" "align (phdr sample_elf 0) = 0x1000"
  by (simp_all add: phdr_def sample_file_header elf_program_header_def field_def shift_def sample_elf_def upt_rec)

lemma sample_segments: "segments sample_elf 0 = [phdr sample_elf 0]"
  by (simp add: segments_def sample_file_header sample_phdr upt_rec)

lemma sample_pages: "unat (num_pages (phdr sample_elf 0)) = 2"
  by (simp add: num_pages_def ALIGN_UP_4KB_def sample_phdr)

lemma sample_translated: "map_segment exe_base (phdr sample_elf 0) w 0xFFFF900000000123 = Some 0x100123"
proof -
  have "page_path 0xFFFF900000000123 = page_path (page_va (phdr sample_elf 0) 0)"
    by (simp add: sample_phdr page_path_def l1_index_def l2_index_def l3_index_def l4_index_def)
  then have "\<exists>j < unat (num_pages (phdr sample_elf 0)).
      page_path 0xFFFF900000000123 = page_path (page_va (phdr sample_elf 0) j)"
    unfolding sample_pages by (intro exI [of _ 0]) simp
  moreover have "segment_frame exe_base (phdr sample_elf 0) = 0x100000"
    by (simp add: segment_frame_def segment_dst_def sample_phdr exe_base_def)
  ultimately show ?thesis by (simp add: map_segment_def)
qed

lemma sample_copied: "copy_segment exe_base sample_elf (phdr sample_elf 0) m 0xFFFF800000100003 = 0xAB"
  by (simp add: copy_segment_def segment_dst_def sample_phdr exe_base_def in_span sample_elf_def)

lemma clear_high:
  assumes "0x100000 \<le> unat a" and "unat a + n \<le> 2 ^ 64"
  shows "clear a n"
  using assms by (auto simp: clear_def above_pool_def span_iff pt_limit_def vga_region_def vga_buffer_def)

lemma sample_kernel_ok:
  assumes "0x1008 \<le> N" and "N \<le> 0x6000000" and "clear ks 8" and "unat ks < 0x100000"
  shows "kernel_ok sample_elf N elf_base exe_base ks"
proof -
  have "span ks 8 \<inter> span elf_base N = {}" "span exe_base 8 \<inter> span elf_base N = {}"
    "span ks 8 \<inter> span exe_base 8 = {}"
    by (rule span_disjoint; use assms in \<open>simp add: elf_base_def exe_base_def\<close>)+
  moreover have "clear elf_base N" "clear exe_base 8"
    by (rule clear_high; use assms in \<open>simp add: elf_base_def exe_base_def\<close>)+
  ultimately show ?thesis
    using assms
    by (auto simp: kernel_ok_def segment_ok_def sample_segments sample_phdr sample_file_header segment_dst_def
        copy_ok_def) (simp_all add: elf_base_def exe_base_def)
qed

lemma sample_ks: "kernel_ok sample_elf 0x1008 elf_base exe_base 0x6FF00"
  by (rule sample_kernel_ok)
    (auto simp: clear_def above_pool_def span_iff pt_limit_def vga_region_def vga_buffer_def)

lemma sample_image: "holds elf_base 0x1008 sample_elf sample_kernel"
proof -
  have "elf_base + of_nat i \<notin> span 0x1000 (4 * 4096)" if "i < 0x1008" for i
  proof -
    have "unat (elf_base + of_nat i) = unat elf_base + i"
      using that by (intro unat_add_of_nat) (simp add: elf_base_def)
    then show ?thesis by (simp add: span_iff elf_base_def)
  qed
  then show ?thesis
    by (simp add: holds_def sample_kernel_def setup_paging_out in_span unat_of_nat)
qed

lemma sample_mappable: "\<forall>ph \<in> set (segments sample_elf 0). pages_mappable (mem sample_kernel) ph"
proof -
  have "mappable (mem sample_kernel) (page_va (phdr sample_elf 0) j)" if "j < 2" for j
    unfolding sample_kernel_def boot_machine_simps
    by (rule boot_mappable) (use that in \<open>auto simp: sample_phdr l4_index_def less_2_cases_iff\<close>)
  then show ?thesis by (simp add: sample_segments pages_mappable_def sample_pages)
qed

lemma sample_room: "unat (pt_it sample_kernel) + sum_list (map room_for (segments sample_elf 0)) \<le> pt_limit"
proof -
  have "card (regions (phdr sample_elf 0) 2) \<le> card {..<2 :: nat}"
    unfolding regions_def by (rule card_image_le) simp
  then show ?thesis
    by (simp add: sample_kernel_def sample_segments room_for_def sample_pages pt_limit_def)
qed

lemma sample_tables: "tables_ok (mem sample_kernel) (pt_it sample_kernel)"
  unfolding sample_kernel_def by (rule boot_machine_ok)

section \<open>Properties\<close>

text \<open>C3. For a file in memory whose segments stay apart from the file, the page tables and the screen,
  \<open>map_kernel\<close> terminates with the entry point; the translation is the one before with the pages of
  every segment mapped in order, the buffer holds the bytes of every segment, the size handed to the
  kernel has grown by the segments' sizes in memory, and the tables are well formed.\<close>

theorem map_kernel_loads:
  assumes "serial_live D" and "kernel_ok v N elf cb ks"
    and "tables_ok (mem s) (pt_it s)" and "holds elf N v s"
    and "\<forall>ph \<in> set (segments v 0). pages_mappable (mem s) ph"
    and "unat (pt_it s) + sum_list (map room_for (segments v 0)) \<le> pt_limit"
  shows "\<exists>t. map_kernel D elf cb ks s = Some (entry_point (elf_file_header v), t) \<and>
    loaded cb ks v (segments v 0) s t"
  by (rule map_kernel_run [OF assms])

theorem map_kernel_loads_witness:
  "\<exists>t. map_kernel ready_device elf_base exe_base 0x6FF00 sample_kernel = Some (0xFFFF900000000000, t) \<and>
    mem t 0xFFFF800000100003 = 0xAB \<and> walk (mem t) p4table 0xFFFF900000000123 = Some 0x100123"
proof -
  obtain t where t: "map_kernel ready_device elf_base exe_base 0x6FF00 sample_kernel = Some (0xFFFF900000000000, t)"
    "loaded exe_base 0x6FF00 sample_elf [phdr sample_elf 0] sample_kernel t"
    using map_kernel_loads [OF ready_device_live sample_ks sample_tables sample_image sample_mappable sample_room]
    unfolding sample_file_header sample_segments by blast
  note e = t(2) [unfolded loaded_def, THEN conjunct1]
  have "walk (mem t) p4table 0xFFFF900000000123 = Some 0x100123"
    using effectD(4) [OF e] sample_translated by simp
  moreover have "mem t 0xFFFF800000100003 = 0xAB"
    using effect_above [OF sample_tables e] sample_copied
    by (simp add: pt_limit_def vga_region_def vga_buffer_def span_iff)
  ultimately show ?thesis using t(1) by blast
qed

text \<open>C4. All pages of the last segment translate to the frame of its first page: the physical
  address passed to \<open>map_4kb_page\<close> does not depend on the page. A segment longer than a page is
  therefore not usable after its first page.\<close>

theorem segment_pages_alias:
  assumes "serial_live D" and "kernel_ok v N elf cb ks"
    and "tables_ok (mem s) (pt_it s)" and "holds elf N v s"
    and "\<forall>ph \<in> set (segments v 0). pages_mappable (mem s) ph"
    and "unat (pt_it s) + sum_list (map room_for (segments v 0)) \<le> pt_limit"
    and "segments v 0 = phs @ [ph]"
  shows "\<exists>e t. map_kernel D elf cb ks s = Some (e, t) \<and>
    (\<forall>i < unat (num_pages ph). walk (mem t) p4table (page_va ph i)
       = Some (segment_frame cb ph OR take_bit 12 (vaddr ph)))"
proof -
  obtain t where t: "map_kernel D elf cb ks s = Some (entry_point (elf_file_header v), t)"
    "loaded cb ks v (segments v 0) s t"
    using map_kernel_run [OF assms(1-6)] by blast
  have "take_bit 12 (page_va ph i) = take_bit 12 (vaddr ph)" for i
  proof -
    have "(0x1000 :: u64) * of_nat i = push_bit 12 (of_nat i)" by (simp add: push_bit_eq_mult)
    then have "take_bit 12 (0x1000 * of_nat i :: u64) = 0"
      by (simp add: take_bit_push_bit)
    moreover have "take_bit 12 (page_va ph i) = take_bit 12 (take_bit 12 (vaddr ph) + take_bit 12 (0x1000 * of_nat i))"
      by (rule take_bit_word_add)
    ultimately show ?thesis by simp
  qed
  then have "walk (mem t) p4table (page_va ph i) = Some (segment_frame cb ph OR take_bit 12 (vaddr ph))"
    if "i < unat (num_pages ph)" for i
    using effectD(4) [OF t(2) [unfolded loaded_def, THEN conjunct1]] that
    unfolding assms(7) by (auto simp: map_segment_def)
  with t(1) show ?thesis by blast
qed

theorem segment_pages_alias_witness:
  "\<exists>e t. map_kernel ready_device elf_base exe_base 0x6FF00 sample_kernel = Some (e, t) \<and>
    walk (mem t) p4table 0xFFFF900000000000 = Some 0x100000 \<and>
    walk (mem t) p4table 0xFFFF900000001000 = Some 0x100000"
proof -
  have "segments sample_elf 0 = [] @ [phdr sample_elf 0]" by (simp add: sample_segments)
  from segment_pages_alias [OF ready_device_live sample_ks sample_tables sample_image sample_mappable
      sample_room this] obtain e t where
    t: "map_kernel ready_device elf_base exe_base 0x6FF00 sample_kernel = Some (e, t)"
    "\<forall>i < 2. walk (mem t) p4table (page_va (phdr sample_elf 0) i)
       = Some (segment_frame exe_base (phdr sample_elf 0) OR take_bit 12 (vaddr (phdr sample_elf 0)))"
    unfolding sample_pages by blast
  have "segment_frame exe_base (phdr sample_elf 0) = 0x100000"
    by (simp add: segment_frame_def segment_dst_def sample_phdr exe_base_def)
  then show ?thesis
    using t(1) t(2) [rule_format, of 0] t(2) [rule_format, of 1] by (auto simp: sample_phdr)
qed

end
