(* ===== verification/Ustar.thy ===== *)
theory Ustar
  imports Gpt
begin

text \<open>
  The USTAR archive on the system partition (\<open>src/ustar.c\<close>). The sector buffer \<open>buf\<close> and the
  path buffer \<open>fname\<close> are arrays in the stack frame of each function; their addresses are
  parameters. The loops over the headers are partial functions: a header of a type the loop does
  not advance over is read again for ever.
\<close>

section \<open>Octal numbers\<close>

primrec oct2bin_loop :: "nat \<Rightarrow> view \<Rightarrow> nat \<Rightarrow> u64 \<Rightarrow> u64" where
  "oct2bin_loop 0 str i result = result"
| "oct2bin_loop (Suc k) str i result =
     oct2bin_loop k str (Suc i) (result * 8 + (ucast (str i) - of_char CHR ''0''))"

definition oct2bin :: "view \<Rightarrow> u64 \<Rightarrow> u64" where
  "oct2bin str sz = oct2bin_loop (unat sz) str 0 0"

section \<open>Headers\<close>

definition NORMAL_FILE :: u8 where "NORMAL_FILE = of_char CHR ''0''"
definition HARD_LINK :: u8 where "HARD_LINK = of_char CHR ''1''"
definition SYM_LINK :: u8 where "SYM_LINK = of_char CHR ''2''"
definition CHAR_DEVICE :: u8 where "CHAR_DEVICE = of_char CHR ''3''"
definition BLOCK_DEVICE :: u8 where "BLOCK_DEVICE = of_char CHR ''4''"
definition DIRECTORY :: u8 where "DIRECTORY = of_char CHR ''5''"
definition NAMED_PIPE :: u8 where "NAMED_PIPE = of_char CHR ''6''"

record USTAR_MetadataSector =
  filename :: "u8 list"
  filemode :: u64
  owner_uid :: u64
  owner_gid :: u64
  filesize :: "u8 list"
  last_modified :: "u8 list"
  checksum :: u64
  entry_type :: u8
  linkname :: "u8 list"
  ustar_signature :: "u8 list"
  version :: "u8 list"
  owner_username :: "u8 list"
  owner_groupname :: "u8 list"
  dev_major :: u64
  dev_minor :: u64
  filename_prefix :: "u8 list"

definition metadata :: "view \<Rightarrow> USTAR_MetadataSector" where
  "metadata v = \<lparr>filename = field v 0 100, filemode = word_of_bytes (field v 100 8),
     owner_uid = word_of_bytes (field v 108 8), owner_gid = word_of_bytes (field v 116 8),
     filesize = field v 124 12, last_modified = field v 136 12,
     checksum = word_of_bytes (field v 148 8), entry_type = v 156, linkname = field v 157 100,
     ustar_signature = field v 257 6, version = field v 263 2, owner_username = field v 265 32,
     owner_groupname = field v 297 32, dev_major = word_of_bytes (field v 329 8),
     dev_minor = word_of_bytes (field v 337 8), filename_prefix = field v 345 155\<rparr>"

text \<open>
  The switch on the type, without its output: a file is skipped with its contents, a directory has
  none, every other type leaves the position alone.
\<close>

definition advance :: "u8 \<Rightarrow> u32 \<Rightarrow> u64 \<Rightarrow> u64" where
  "advance type num_sectors seeker =
     (if type = 0 \<or> type = NORMAL_FILE then seeker + 1 + ucast num_sectors
      else if type = HARD_LINK then seeker
      else if type = SYM_LINK then seeker
      else if type = CHAR_DEVICE then seeker
      else if type = BLOCK_DEVICE then seeker
      else if type = DIRECTORY then seeker + 1
      else if type = NAMED_PIPE then seeker
      else seeker)"

text \<open>
  The path of an entry, composed in \<open>fname\<close>: a slash, the prefix and the name.
\<close>

definition compose_path :: "u64 \<Rightarrow> u64 \<Rightarrow> mem \<Rightarrow> mem option" where
  "compose_path buf fname m = do {
     m \<leftarrow> memset m fname 0 257;
     let m = m(fname := of_char CHR ''/'');
     let (prefix_size, m) = strncpy m (fname + 1) (buf + 345) 155;
     let (_, m) = strncpy m (fname + 1 + prefix_size) buf 100;
     Some m }"

definition is_ustar :: "u64 \<Rightarrow> machine \<Rightarrow> bool" where
  "is_ustar buf s \<longleftrightarrow> memcmp (at (mem s) (buf + 257)) (lit (bytes ''ustar'')) 5 = 0"

section \<open>Listing the archive\<close>

partial_function (option) list_files_loop ::
    "device \<Rightarrow> u64 \<Rightarrow> GPTEntry \<Rightarrow> u64 \<Rightarrow> machine \<Rightarrow> machine option" where
  "list_files_loop D buf gpte seeker s = do {
     s \<leftarrow> ATA_PIO_read_sectors D buf (ucast (seeker + starting_lba gpte)) 1 s;
     if \<not> is_ustar buf s then Some s
     else do {
       let filesize = (ucast (oct2bin (at (mem s) (buf + 0x7c)) 11) :: u32);
       let num_sectors = (filesize + 511) div 512;
       s \<leftarrow> putc D (of_char CHR ''/'') s;
       s \<leftarrow> puts D (at (mem s) buf) s;
       let type = entry_type (metadata (at (mem s) buf));
       s \<leftarrow> (if type = 0 \<or> type = NORMAL_FILE then do {
               s \<leftarrow> putl D '' :file size='' s;
               s \<leftarrow> putd D (ucast filesize) s;
               putc D nl s }
             else if type = DIRECTORY then do {
               s \<leftarrow> putl D '' :directory'' s;
               putc D nl s }
             else Some s);
       list_files_loop D buf gpte (advance type num_sectors seeker) s } }"

definition ustar_list_files :: "device \<Rightarrow> u64 \<Rightarrow> GPTEntry \<Rightarrow> machine \<Rightarrow> machine option" where
  "ustar_list_files D buf gpte s = do {
     m \<leftarrow> memset (mem s) buf 0 512;
     list_files_loop D buf gpte 0 (s\<lparr>mem := m\<rparr>) }"

section \<open>Looking a file up\<close>

text \<open>The variable that \<open>ret_filesize\<close> points to is passed in and returned.\<close>

partial_function (option) filesize_loop ::
    "device \<Rightarrow> u64 \<Rightarrow> u64 \<Rightarrow> GPTEntry \<Rightarrow> view \<Rightarrow> u64 \<Rightarrow> u64 \<Rightarrow> machine \<Rightarrow> (u64 \<times> u64 \<times> machine) option"
  where
  "filesize_loop D buf fname gpte path ret_filesize seeker s = do {
     s \<leftarrow> ATA_PIO_read_sectors D buf (ucast (seeker + starting_lba gpte)) 1 s;
     if \<not> is_ustar buf s then Some (- 1, ret_filesize, s)
     else do {
       let filesize = oct2bin (at (mem s) (buf + 0x7c)) 11;
       m \<leftarrow> compose_path buf fname (mem s);
       let result = strncmp (at m fname) path 257;
       let num_sectors = (ucast ((filesize + 511) div 512) :: u32);
       if result = 0 then Some (0, filesize, s\<lparr>mem := m\<rparr>)
       else filesize_loop D buf fname gpte path ret_filesize
              (advance (entry_type (metadata (at m buf))) num_sectors seeker) (s\<lparr>mem := m\<rparr>) } }"

definition ustar_get_filesize ::
    "device \<Rightarrow> u64 \<Rightarrow> u64 \<Rightarrow> GPTEntry \<Rightarrow> view \<Rightarrow> u64 \<Rightarrow> machine \<Rightarrow> (u64 \<times> u64 \<times> machine) option" where
  "ustar_get_filesize D buf fname gpte path ret_filesize s = do {
     m \<leftarrow> memset (mem s) buf 0 512;
     filesize_loop D buf fname gpte path ret_filesize 0 (s\<lparr>mem := m\<rparr>) }"

text \<open>The result passes through a variable of type \<open>int\<close>.\<close>

definition ustar_get_num_sectors ::
    "device \<Rightarrow> u64 \<Rightarrow> u64 \<Rightarrow> GPTEntry \<Rightarrow> view \<Rightarrow> u64 \<Rightarrow> machine \<Rightarrow> (u64 \<times> u64 \<times> machine) option" where
  "ustar_get_num_sectors D buf fname gpte path sectors s = do {
     (r, fsize, s) \<leftarrow> ustar_get_filesize D buf fname gpte path 0 s;
     let result = (ucast r :: u32);
     let sectors = (if result = 0 then (fsize + 511) div 512 else sectors);
     Some (scast result, sectors, s) }"

section \<open>Loading a file\<close>

text \<open>The loop ends without a file (\<open>None\<close>) or with the position, size and sectors of the file.\<close>

partial_function (option) load_loop ::
    "device \<Rightarrow> u64 \<Rightarrow> u64 \<Rightarrow> GPTEntry \<Rightarrow> view \<Rightarrow> u64 \<Rightarrow> machine \<Rightarrow> ((u64 \<times> u32 \<times> u32) option \<times> machine) option"
  where
  "load_loop D buf fname gpte path seeker s = do {
     s \<leftarrow> ATA_PIO_read_sectors D buf (ucast (seeker + starting_lba gpte)) 1 s;
     if \<not> is_ustar buf s then Some (None, s)
     else do {
       let filesize = (ucast (oct2bin (at (mem s) (buf + 0x7c)) 11) :: u32);
       m \<leftarrow> compose_path buf fname (mem s);
       let num_sectors = (filesize + 511) div 512;
       let result = strncmp (at m fname) path 257;
       if result = 0 then Some (Some (seeker + 1, filesize, num_sectors), s\<lparr>mem := m\<rparr>)
       else load_loop D buf fname gpte path
              (advance (entry_type (metadata (at m buf))) num_sectors seeker) (s\<lparr>mem := m\<rparr>) } }"

definition ustar_load_file ::
    "device \<Rightarrow> u64 \<Rightarrow> u64 \<Rightarrow> GPTEntry \<Rightarrow> view \<Rightarrow> u64 \<Rightarrow> machine \<Rightarrow> (u64 \<times> machine) option" where
  "ustar_load_file D buf fname gpte path dst_buf s = do {
     m \<leftarrow> memset (mem s) buf 0 512;
     (found, s) \<leftarrow> load_loop D buf fname gpte path 0 (s\<lparr>mem := m\<rparr>);
     (case found of
        None \<Rightarrow> Some (0, s)
      | Some (seeker, fsize, num_sectors) \<Rightarrow> do {
          s \<leftarrow> ATA_PIO_read_sectors D dst_buf (ucast (seeker + starting_lba gpte)) (ucast num_sectors) s;
          Some (ucast fsize, s) }) }"

section \<open>Octal numbers read back\<close>

text \<open>The \<open>n\<close> low octal digits of a number, most significant first.\<close>

primrec octal :: "nat \<Rightarrow> nat \<Rightarrow> u8 list" where
  "octal 0 v = []"
| "octal (Suc n) v = octal n (v div 8) @ [of_nat (0x30 + v mod 8)]"

lemma length_octal [simp]: "length (octal n v) = n"
  by (induction n arbitrary: v) simp_all

lemma oct2bin_loop_foldl:
  "oct2bin_loop k str i r = foldl (\<lambda>r d. r * 8 + (ucast d - of_char CHR ''0'')) r (map str [i..<i + k])"
proof (induction k arbitrary: i r)
  case (Suc k)
  have "[i..<i + Suc k] = i # [Suc i..<Suc i + k]" by (simp add: upt_conv_Cons)
  then show ?case by (simp add: Suc.IH)
qed simp

lemma map_lit: "map (lit ds) [0..<length ds] = ds"
  by (rule nth_equalityI) (simp_all add: lit_def)

lemma octal_digit: "ucast (of_nat (0x30 + d) :: u8) - of_char CHR ''0'' = (of_nat d :: u64)" if "d < 8"
proof -
  have "unat (of_nat (0x30 + d) :: u8) = 0x30 + d" using that by (simp add: unat_of_nat del: of_nat_add)
  then have "(ucast (of_nat (0x30 + d) :: u8) :: u64) = of_nat (0x30 + d)"
    by (simp add: unsigned_def del: of_nat_add)
  then show ?thesis by simp
qed

lemma oct2bin_octal:
  assumes "v < 8 ^ n" and "n < 2 ^ 64"
  shows "oct2bin (lit (octal n v)) (of_nat n) = of_nat v"
proof -
  have "foldl (\<lambda>r d. r * 8 + (ucast d - of_char CHR ''0'')) (0 :: u64) (octal n v) = of_nat v"
    using assms(1)
  proof (induction n arbitrary: v)
    case (Suc n)
    then have "v div 8 < 8 ^ n" by auto
    have "of_nat (v div 8) * 8 + of_nat (v mod 8) = (of_nat (v div 8 * 8 + v mod 8) :: u64)"
      by (simp only: of_nat_add of_nat_mult of_nat_numeral)
    also have "\<dots> = of_nat v" by (simp only: div_mult_mod_eq)
    finally show ?case
      using Suc.IH [OF \<open>v div 8 < 8 ^ n\<close>] octal_digit [of "v mod 8"] by simp
  qed simp
  moreover have "unat (of_nat n :: u64) = n" using assms(2) by (simp add: unat_of_nat)
  moreover have "map (lit (octal n v)) [0..<n] = octal n v" using map_lit [of "octal n v"] by simp
  ultimately show ?thesis by (simp add: oct2bin_def oct2bin_loop_foldl)
qed

section \<open>Properties\<close>

text \<open>C23. The size field of a header reads back: \<open>oct2bin\<close> of the \<open>n\<close> octal digits of a
  64-bit number is the number.\<close>

theorem oct2bin_roundtrip:
  assumes "v < 8 ^ n" and "n \<le> 21"
  shows "unat (oct2bin (lit (octal n v)) (of_nat n)) = v"
proof -
  have "v < 8 ^ 21" using assms power_increasing [of n 21 "8 :: nat"] by linarith
  then show ?thesis using assms by (simp add: oct2bin_octal unat_of_nat)
qed

theorem oct2bin_roundtrip_witness: "unat (oct2bin (lit (octal 11 268435456)) (of_nat 11)) = 268435456"
  by (rule oct2bin_roundtrip) simp_all

end
