(* ===== verification/Archive.thy ===== *)
theory Archive
  imports Ustar
begin

text \<open>
  What the functions of \<open>src/ustar.c\<close> promise: looking a path up in the sequence of headers
  of an archive, as a relation that has a derivation exactly when the search ends.
\<close>

section \<open>Archives\<close>

text \<open>Sector \<open>k\<close> of the partition at \<open>lba\<close>, as the drive addresses it with 28 bits.\<close>

definition sector :: "disk \<Rightarrow> GPTEntry \<Rightarrow> u64 \<Rightarrow> view" where
  "sector disk gpte k i = disk (512 * (unat (k + starting_lba gpte) mod 2 ^ 28) + i)"

definition magic :: "view \<Rightarrow> bool" where
  "magic v \<longleftrightarrow> map v [257..<262] = bytes ''ustar''"

definition tar_path :: "view \<Rightarrow> u8 list" where
  "tar_path v = of_char CHR ''/'' # cstr 155 (shift v 345) @ cstr 100 v"

definition tar_size :: "view \<Rightarrow> u64" where
  "tar_size v = oct2bin (shift v 124) 11"

text \<open>The sectors a file fills, as each loop computes them.\<close>

definition blocks64 :: "view \<Rightarrow> u32" where
  "blocks64 v = ucast ((tar_size v + 511) div 512)"

definition blocks32 :: "view \<Rightarrow> u32" where
  "blocks32 v = (ucast (tar_size v) + 511) div 512"

definition is_file :: "view \<Rightarrow> bool" where
  "is_file v \<longleftrightarrow> v 156 = 0 \<or> v 156 = of_char CHR ''0''"

definition is_directory :: "view \<Rightarrow> bool" where
  "is_directory v \<longleftrightarrow> v 156 = of_char CHR ''5''"

inductive lookup :: "(u64 \<Rightarrow> view) \<Rightarrow> (view \<Rightarrow> u32) \<Rightarrow> u8 list \<Rightarrow> u64 \<Rightarrow> u64 option \<Rightarrow> bool"
  for img blocks path where
  absent: "\<not> magic (img k) \<Longrightarrow> lookup img blocks path k None"
| present: "magic (img k) \<Longrightarrow> tar_path (img k) = path \<Longrightarrow> lookup img blocks path k (Some k)"
| skip_file: "magic (img k) \<Longrightarrow> tar_path (img k) \<noteq> path \<Longrightarrow> is_file (img k) \<Longrightarrow>
    lookup img blocks path (k + 1 + ucast (blocks (img k))) r \<Longrightarrow> lookup img blocks path k r"
| skip_directory: "magic (img k) \<Longrightarrow> tar_path (img k) \<noteq> path \<Longrightarrow> is_directory (img k) \<Longrightarrow>
    lookup img blocks path (k + 1) r \<Longrightarrow> lookup img blocks path k r"

inductive_cases lookup_None: "lookup img blocks path k None"
inductive_cases lookup_Some: "lookup img blocks path k (Some j)"
inductive_simps lookup_step: "lookup img blocks path k r"

lemma file_not_directory: "is_file v \<Longrightarrow> \<not> is_directory v"
  by (auto simp: is_file_def is_directory_def)

text \<open>The result is unique, and a file found has the path.\<close>

lemma lookup_functional: "lookup img blocks path k r \<Longrightarrow> lookup img blocks path k r' \<Longrightarrow> r = r'"
proof (induction arbitrary: r' rule: lookup.induct)
  case (absent k)
  from absent.prems absent.hyps show ?case by cases simp_all
next
  case (present k)
  from present.prems present.hyps show ?case by cases blast+
next
  case (skip_file k r)
  from skip_file.prems have "lookup img blocks path (k + 1 + ucast (blocks (img k))) r'"
    using skip_file.hyps(1-3) file_not_directory [of "img k"] by cases blast+
  then show ?case by (rule skip_file.IH)
next
  case (skip_directory k r)
  from skip_directory.prems have "lookup img blocks path (k + 1) r'"
    using skip_directory.hyps(1-3) file_not_directory [of "img k"] by cases blast+
  then show ?case by (rule skip_directory.IH)
qed

lemma lookup_sound: "lookup img blocks path k (Some j) \<Longrightarrow> magic (img j) \<and> tar_path (img j) = path"
  by (induction k "Some j" rule: lookup.induct) simp_all

text \<open>A header that no rule advances over makes the search stay there for ever.\<close>

lemma lookup_stuck:
  "magic (img k) \<Longrightarrow> tar_path (img k) \<noteq> path \<Longrightarrow> \<not> is_file (img k) \<Longrightarrow> \<not> is_directory (img k) \<Longrightarrow>
   \<not> lookup img blocks path k r"
  by (subst lookup_step) simp

section \<open>One header\<close>

definition frame_ok :: "u64 \<Rightarrow> u64 \<Rightarrow> bool" where
  "frame_ok buf fname \<longleftrightarrow> unat fname + 265 < 2 ^ 64 \<and> unat buf + 520 < 2 ^ 64 \<and>
     (unat fname + 257 \<le> unat buf \<or> unat buf + 512 \<le> unat fname)"

abbreviation frame :: "u64 \<Rightarrow> u64 \<Rightarrow> u64 set" where
  "frame buf fname \<equiv> span buf 512 \<union> span fname 257"

lemma unat_ucast_28: "unat (ucast x :: u32) mod 2 ^ 28 = unat x mod 2 ^ 28" for x :: u64
  by (simp add: unsigned_ucast_eq take_bit_nat_def mod_mod_cancel)

lemma read_header:
  assumes "ata_drive D disk"
  obtains t where "ATA_PIO_read_sectors D buf (ucast (k + starting_lba gpte)) 1 s = Some t"
    "io_step (span buf 512) s t" "holds buf 512 (sector disk gpte k) t"
proof -
  obtain t where t: "ATA_PIO_read_sectors D buf (ucast (k + starting_lba gpte)) 1 s = Some t"
    "io_step (span buf (512 * unat (1 :: u8))) s t"
    "mem t = deposit (mem s) buf (512 * unat (1 :: u8))
       (\<lambda>i. disk (512 * (unat (ucast (k + starting_lba gpte) :: u32) mod 2 ^ 28) + i))"
    by (rule read_io_step [OF assms])
  have "mem t = deposit (mem s) buf 512 (sector disk gpte k)"
    using t(3) unfolding unat_ucast_28 sector_def by simp
  then have "holds buf 512 (sector disk gpte k) t" by (intro holds_deposit [where k = 512]) simp_all
  with that t(1,2) show ?thesis by simp
qed

lemma is_ustar_holds:
  assumes "holds buf 512 v s"
  shows "is_ustar buf s \<longleftrightarrow> magic v"
proof -
  have "at (mem s) (buf + 257) i = v (257 + i)" if "i < 5" for i
    using holds_view [OF assms, of 257 i] that by (simp add: shift_def)
  then have "is_ustar buf s \<longleftrightarrow> (\<forall>i < 5. v (257 + i) = lit (bytes ''ustar'') i)"
    by (simp add: is_ustar_def memcmp_0_iff)
  also have "\<dots> \<longleftrightarrow> magic v"
    unfolding magic_def list_eq_iff_nth_eq by (simp add: lit_def del: upt_rec_numeral)
  finally show ?thesis .
qed

lemma oct2bin_loop_cong:
  "(\<And>j. j < k \<Longrightarrow> v (i + j) = v' (i + j)) \<Longrightarrow> oct2bin_loop k v i r = oct2bin_loop k v' i r"
proof (induction k arbitrary: i r)
  case (Suc k)
  have "v (Suc i + j) = v' (Suc i + j)" if "j < k" for j
    using Suc.prems [of "Suc j"] that by simp
  from Suc.IH [OF this] show ?case using Suc.prems [of 0] by simp
qed simp

lemma oct2bin_cong: "(\<And>j. j < unat n \<Longrightarrow> v j = v' j) \<Longrightarrow> oct2bin v n = oct2bin v' n"
  unfolding oct2bin_def by (rule oct2bin_loop_cong) simp

lemma oct2bin_holds:
  assumes "holds buf 512 v s"
  shows "oct2bin (at (mem s) (buf + 0x7c)) 11 = tar_size v"
  unfolding tar_size_def using holds_view [OF assms, of 124] by (intro oct2bin_cong) simp

text \<open>Composing the path of the entry whose header is in the buffer.\<close>

lemma compose_path_run:
  assumes ok: "frame_ok buf fname" and v: "holds buf 512 v s"
  shows "\<exists>m. compose_path buf fname (mem s) = Some m \<and> cstr 257 (at m fname) = tar_path v \<and>
    (\<forall>x. x \<notin> span fname 257 \<longrightarrow> m x = mem s x)"
proof -
  have f: "unat fname + 265 < 2 ^ 64" and b: "unat buf + 520 < 2 ^ 64"
    and apart: "unat fname + 257 \<le> unat buf \<or> unat buf + 512 \<le> unat fname"
    using ok by (auto simp: frame_ok_def)
  let ?p = "cstr 155 (shift v 345)" and ?n = "cstr 100 v"
  have lp: "length ?p \<le> 155" and ln: "length ?n \<le> 100" by (rule length_cstr)+
  have buf_out: "buf + of_nat i \<notin> span fname 257" if "i < 512" for i
    using that f b apart by (auto simp: span_iff unat_add_of_nat)
  obtain m1 where m1: "memset (mem s) fname 0 257 = Some m1"
    "m1 = (\<lambda>x. if x \<in> span fname 257 then 0 else mem s x)"
    using memset_clear [of fname 257 "mem s"] f by auto
  define m2 where "m2 = m1(fname := of_char CHR ''/'')"
  have m2: "at m2 (buf + of_nat k) i = shift v k i" if "k + i < 512" for k i
  proof -
    have "m2 (buf + of_nat (k + i)) = mem s (buf + of_nat (k + i))"
      using buf_out [OF that] span_base [of fname 257] by (auto simp: m2_def m1(2))
    moreover have "mem s (buf + of_nat (k + i)) = v (k + i)" using v that unfolding holds_def by blast
    ultimately show ?thesis by (simp add: at_def shift_def add.assoc)
  qed
  have "cstr 155 (at m2 (buf + 345)) = ?p"
    using m2 [of 345] by (intro cstr_cong) simp
  have u1: "unat (fname + 1) = unat fname + 1" and u345: "unat (buf + 345) = unat buf + 345"
    using unat_add_of_nat [of fname 1] unat_add_of_nat [of buf 345] f b by simp_all
  define m3 where "m3 = store_bytes m2 (fname + 1) ?p"
  have s1: "strncpy m2 (fname + 1) (buf + 345) 155 = (of_nat (length ?p), m3)"
    using strncpy_loop_run [of "fname + 1" 155 "buf + 345" m2 0] f b apart u1 u345
      \<open>cstr 155 (at m2 (buf + 345)) = ?p\<close> by (auto simp: strncpy_def m3_def)
  have m3: "m3 x = (if 1 \<le> unat (x - fname) \<and> unat (x - fname) < 1 + length ?p
      then ?p ! (unat (x - fname) - 1) else m2 x)" for x
    using store_bytes_offset [of 1 ?p m2 fname x] lp by (simp add: m3_def)
  have "at m3 buf i = v i" if "i < 100" for i
  proof -
    have "\<not> unat (buf + of_nat i - fname) < 257" using buf_out [of i] that by (simp add: in_span)
    then have "m3 (buf + of_nat i) = m2 (buf + of_nat i)" using m3 lp by simp
    then show ?thesis using m2 [of 0 i] that by (simp add: at_def shift_def)
  qed
  then have n: "cstr 100 (at m3 buf) = ?n" by (intro cstr_cong) simp
  have u2: "unat (fname + 1 + of_nat (length ?p)) = unat fname + 1 + length ?p"
    using lp f u1 by (subst unat_add_of_nat) simp_all
  define m4 where "m4 = store_bytes m3 (fname + 1 + of_nat (length ?p)) ?n"
  have s2: "strncpy m3 (fname + 1 + of_nat (length ?p)) buf 100 = (of_nat (length ?n), m4)"
    using strncpy_loop_run [of "fname + 1 + of_nat (length ?p)" 100 buf m3 0] f b apart u2 lp n
    by (auto simp: strncpy_def m4_def)
  have run: "compose_path buf fname (mem s) = Some m4"
    by (simp add: compose_path_def m1(1) s1 [unfolded m2_def, simplified] s2 Let_def)
  have m4: "m4 x = (if 1 + length ?p \<le> unat (x - fname) \<and> unat (x - fname) < 1 + length ?p + length ?n
      then ?n ! (unat (x - fname) - (1 + length ?p)) else m3 x)" for x
    using store_bytes_offset [of "1 + length ?p" ?n m3 fname x] lp ln by (simp add: m4_def add.assoc)
  show ?thesis
  proof (intro exI [of _ m4] conjI run allI impI)
    have "at m4 fname i = lit (tar_path v) i" if "i < 257" for i
    proof -
      have j: "unat (fname + of_nat i - fname) = i" using that by (simp add: unat_of_nat)
      have "m2 (fname + of_nat i) = (if i = 0 then of_char CHR ''/'' else 0)"
        using that j by (auto simp: m2_def m1(2) in_span)
      then show ?thesis
        unfolding at_def m4 m3 j lit_def tar_path_def by (auto simp: nth_append nth_Cons')
    qed
    then have "cstr 257 (at m4 fname) = cstr 257 (lit (tar_path v))" by (rule cstr_cong)
    also have "\<dots> = tar_path v"
      using lp ln cstr_nonzero [of 155] cstr_nonzero [of 100] by (subst cstr_lit) (auto simp: tar_path_def)
    finally show "cstr 257 (at m4 fname) = tar_path v" .
    fix x
    assume "x \<notin> span fname 257"
    then have "\<not> unat (x - fname) < 257" "x \<noteq> fname" by (auto simp: in_span)
    then show "m4 x = mem s x" using lp ln by (simp add: m4 m3 m2_def m1(2) in_span)
  qed
qed

text \<open>Everything a loop learns from one header.\<close>

lemma header_run:
  assumes "ata_drive D disk" and ok: "frame_ok buf fname"
  obtains t m where "ATA_PIO_read_sectors D buf (ucast (k + starting_lba gpte)) 1 s = Some t"
    "is_ustar buf t = magic (sector disk gpte k)"
    "oct2bin (at (mem t) (buf + 0x7c)) 11 = tar_size (sector disk gpte k)"
    "compose_path buf fname (mem t) = Some m"
    "strncmp (at m fname) path 257 = 0 \<longleftrightarrow> tar_path (sector disk gpte k) = cstr 257 path"
    "entry_type (metadata (at m buf)) = sector disk gpte k 156"
    "io_step (frame buf fname) s t" "io_step (frame buf fname) s (t\<lparr>mem := m\<rparr>)"
proof -
  let ?v = "sector disk gpte k"
  obtain t where t: "ATA_PIO_read_sectors D buf (ucast (k + starting_lba gpte)) 1 s = Some t"
    "io_step (span buf 512) s t" "holds buf 512 ?v t"
    by (rule read_header [OF assms(1)])
  obtain m where m: "compose_path buf fname (mem t) = Some m" "cstr 257 (at m fname) = tar_path ?v"
    "\<forall>x. x \<notin> span fname 257 \<longrightarrow> m x = mem t x"
    using compose_path_run [OF ok t(3)] by blast
  have "unat (buf + of_nat 156) = unat buf + 156"
    using ok by (intro unat_add_of_nat) (simp add: frame_ok_def)
  then have "buf + of_nat 156 \<notin> span fname 257" using ok by (auto simp: frame_ok_def span_iff)
  then have "at m buf 156 = at (mem t) buf 156" using m(3) by (simp add: at_def)
  then have type: "entry_type (metadata (at m buf)) = ?v 156"
    using holds_view [OF t(3), of 0 156] by (simp add: metadata_def shift_def)
  have "io_step (frame buf fname) s t" using t(2) by (rule io_step_mono) blast
  moreover have "io_step (frame buf fname) t (t\<lparr>mem := m\<rparr>)" using m(3) by (intro mem_io_step) blast
  ultimately have "io_step (frame buf fname) s (t\<lparr>mem := m\<rparr>)" by (rule io_step_trans)
  from that [OF t(1) is_ustar_holds [OF t(3)] oct2bin_holds [OF t(3)] m(1) _ type
      \<open>io_step (frame buf fname) s t\<close> this]
  show ?thesis using m(2) by (simp add: strncmp_0_iff)
qed

lemma advance_file: "is_file v \<Longrightarrow> advance (v 156) n k = k + 1 + ucast n"
  by (auto simp: advance_def is_file_def NORMAL_FILE_def)

lemma advance_directory: "is_directory v \<Longrightarrow> advance (v 156) n k = k + 1"
  by (simp add: advance_def is_directory_def NORMAL_FILE_def HARD_LINK_def SYM_LINK_def
      CHAR_DEVICE_def BLOCK_DEVICE_def DIRECTORY_def)

lemma advance_other: "\<not> is_file v \<Longrightarrow> \<not> is_directory v \<Longrightarrow> advance (v 156) n k = k"
  by (simp add: advance_def is_directory_def is_file_def NORMAL_FILE_def DIRECTORY_def)

text \<open>
  A search loop: \<open>stop\<close> is its result at the end of the archive, \<open>hit\<close> its result at the header
  found. Both loops of the program are instances; what follows from the shape is proved once.
\<close>

locale tar_search =
  fixes loop :: "device \<Rightarrow> u64 \<Rightarrow> u64 \<Rightarrow> GPTEntry \<Rightarrow> view \<Rightarrow> u64 \<Rightarrow> machine \<Rightarrow> ('r \<times> machine) option"
    and blocks :: "view \<Rightarrow> u32"
    and stop :: 'r
    and hit :: "view \<Rightarrow> u64 \<Rightarrow> 'r"
  assumes step: "ata_drive D disk \<Longrightarrow> frame_ok buf fname \<Longrightarrow>
      \<exists>t. io_step (frame buf fname) s t \<and> loop D buf fname gpte path k s =
        (let v = sector disk gpte k in
         if \<not> magic v then Some (stop, t)
         else if tar_path v = cstr 257 path then Some (hit v k, t)
         else loop D buf fname gpte path (advance (v 156) (blocks v) k) t)"
    and returns: "ata_drive D disk \<Longrightarrow> frame_ok buf fname \<Longrightarrow>
      loop D buf fname gpte path k s = Some y \<Longrightarrow>
      \<exists>r. lookup (sector disk gpte) blocks (cstr 257 path) k r"
begin

lemma finds:
  assumes "lookup (sector disk gpte) blocks (cstr 257 path) k r"
    and "ata_drive D disk" and "frame_ok buf fname"
  shows "\<exists>t. loop D buf fname gpte path k s
      = Some (case r of None \<Rightarrow> stop | Some j \<Rightarrow> hit (sector disk gpte j) j, t) \<and>
    io_step (frame buf fname) s t"
  using assms(1)
proof (induction arbitrary: s rule: lookup.induct)
  case (absent k)
  then show ?case using step [OF assms(2,3), where s = s and k = k and path = path and gpte = gpte] by fastforce
next
  case (present k)
  then show ?case using step [OF assms(2,3), where s = s and k = k and path = path and gpte = gpte] by fastforce
next
  case (skip_file k r)
  obtain t where t: "io_step (frame buf fname) s t"
    "loop D buf fname gpte path k s = loop D buf fname gpte path (k + 1 + ucast (blocks (sector disk gpte k))) t"
    using step [OF assms(2,3), where s = s and k = k and path = path and gpte = gpte] skip_file.hyps(1-3)
    unfolding Let_def advance_file [OF skip_file.hyps(3)] by auto
  obtain u where u: "loop D buf fname gpte path (k + 1 + ucast (blocks (sector disk gpte k))) t
      = Some (case r of None \<Rightarrow> stop | Some j \<Rightarrow> hit (sector disk gpte j) j, u)"
    "io_step (frame buf fname) t u" using skip_file.IH [of t] by blast
  show ?case by (rule exI [of _ u]) (simp only: t(2) u(1) io_step_trans [OF t(1) u(2)] simp_thms)
next
  case (skip_directory k r)
  obtain t where t: "io_step (frame buf fname) s t"
    "loop D buf fname gpte path k s = loop D buf fname gpte path (k + 1) t"
    using step [OF assms(2,3), where s = s and k = k and path = path and gpte = gpte] skip_directory.hyps(1-3)
    unfolding Let_def advance_directory [OF skip_directory.hyps(3)] by auto
  obtain u where u: "loop D buf fname gpte path (k + 1) t
      = Some (case r of None \<Rightarrow> stop | Some j \<Rightarrow> hit (sector disk gpte j) j, u)"
    "io_step (frame buf fname) t u" using skip_directory.IH [of t] by blast
  show ?case by (rule exI [of _ u]) (simp only: t(2) u(1) io_step_trans [OF t(1) u(2)] simp_thms)
qed

lemma returns_iff:
  assumes "ata_drive D disk" and "frame_ok buf fname"
  shows "(\<exists>y. loop D buf fname gpte path k s = Some y) \<longleftrightarrow>
    (\<exists>r. lookup (sector disk gpte) blocks (cstr 257 path) k r)"
  using returns [OF assms] finds [OF _ assms] by blast

end

lemma lookup_advance:
  assumes "magic (img k)" and "tar_path (img k) \<noteq> path"
    and r: "lookup img blocks path (advance (img k 156) (blocks (img k)) k) r"
  shows "lookup img blocks path k r"
proof -
  consider "is_file (img k)" | "is_directory (img k)" | "\<not> is_file (img k)" "\<not> is_directory (img k)" by blast
  then show ?thesis
  proof cases
    case 1
    with r [unfolded advance_file [OF 1]] assms(1,2) show ?thesis by (blast intro: lookup.skip_file)
  next
    case 2
    with r [unfolded advance_directory [OF 2]] assms(1,2) show ?thesis by (blast intro: lookup.skip_directory)
  next
    case 3
    then show ?thesis using r [unfolded advance_other [OF 3]] by blast
  qed
qed

section \<open>The two search loops\<close>

lemma filesize_step:
  assumes "ata_drive D disk" and "frame_ok buf fname"
  shows "\<exists>t. io_step (frame buf fname) s t \<and> filesize_loop D buf fname gpte path ret k s =
    (let v = sector disk gpte k in
     if \<not> magic v then Some (- 1, ret, t)
     else if tar_path v = cstr 257 path then Some (0, tar_size v, t)
     else filesize_loop D buf fname gpte path ret (advance (v 156) (blocks64 v) k) t)"
proof -
  obtain t m where h: "ATA_PIO_read_sectors D buf (ucast (k + starting_lba gpte)) 1 s = Some t"
    "is_ustar buf t = magic (sector disk gpte k)"
    "oct2bin (at (mem t) (buf + 0x7c)) 11 = tar_size (sector disk gpte k)"
    "compose_path buf fname (mem t) = Some m"
    "strncmp (at m fname) path 257 = 0 \<longleftrightarrow> tar_path (sector disk gpte k) = cstr 257 path"
    "entry_type (metadata (at m buf)) = sector disk gpte k 156"
    "io_step (frame buf fname) s t" "io_step (frame buf fname) s (t\<lparr>mem := m\<rparr>)"
    by (rule header_run [OF assms])
  show ?thesis
    by (rule exI [of _ "if magic (sector disk gpte k) then t\<lparr>mem := m\<rparr> else t"])
      (subst filesize_loop.simps, simp add: h Let_def blocks64_def)
qed

lemma filesize_returns:
  assumes D: "ata_drive D disk" and ok: "frame_ok buf fname"
    and "filesize_loop D buf fname gpte path ret k s = Some y"
  shows "\<exists>r. lookup (sector disk gpte) blocks64 (cstr 257 path) k r"
proof -
  have "ata_drive D disk \<longrightarrow> frame_ok buf fname \<longrightarrow> (\<exists>r. lookup (sector disk gpte) blocks64 (cstr 257 path) k r)"
    using assms(3)
  proof (rule filesize_loop.raw_induct [rotated])
    fix f D buf fname gpte path ret k s y
    assume IH: "\<And>D buf fname gpte path ret k s y. f D buf fname gpte path ret k s = Some y \<Longrightarrow>
        ata_drive D disk \<longrightarrow> frame_ok buf fname \<longrightarrow>
        (\<exists>r. lookup (sector disk gpte) blocks64 (cstr 257 path) k r)"
      and eq: "do {
     s \<leftarrow> ATA_PIO_read_sectors D buf (ucast (k + starting_lba gpte)) 1 s;
     if \<not> is_ustar buf s then Some (- 1, ret, s)
     else do {
       let filesize = oct2bin (at (mem s) (buf + 0x7c)) 11;
       m \<leftarrow> compose_path buf fname (mem s);
       let result = strncmp (at m fname) path 257;
       let num_sectors = (ucast ((filesize + 511) div 512) :: u32);
       if result = 0 then Some (0, filesize, s\<lparr>mem := m\<rparr>)
       else f D buf fname gpte path ret
              (advance (entry_type (metadata (at m buf))) num_sectors k) (s\<lparr>mem := m\<rparr>) } } = Some y"
    show "ata_drive D disk \<longrightarrow> frame_ok buf fname \<longrightarrow> (\<exists>r. lookup (sector disk gpte) blocks64 (cstr 257 path) k r)"
    proof (intro impI)
      assume D: "ata_drive D disk" and ok: "frame_ok buf fname"
      let ?v = "sector disk gpte k"
      obtain t m where h: "ATA_PIO_read_sectors D buf (ucast (k + starting_lba gpte)) 1 s = Some t"
        "is_ustar buf t = magic ?v" "oct2bin (at (mem t) (buf + 0x7c)) 11 = tar_size ?v"
        "compose_path buf fname (mem t) = Some m"
        "strncmp (at m fname) path 257 = 0 \<longleftrightarrow> tar_path ?v = cstr 257 path"
        "entry_type (metadata (at m buf)) = ?v 156"
        by (rule header_run [OF D ok])
      show "\<exists>r. lookup (sector disk gpte) blocks64 (cstr 257 path) k r"
      proof (cases "magic ?v \<and> tar_path ?v \<noteq> cstr 257 path")
        case True
        then have "f D buf fname gpte path ret (advance (?v 156) (blocks64 ?v) k) (t\<lparr>mem := m\<rparr>) = Some y"
          using eq by (simp add: h Let_def blocks64_def)
        from IH [OF this] D ok True show ?thesis using lookup_advance by blast
      next
        case False
        then show ?thesis using lookup.absent lookup.present by blast
      qed
    qed
  qed
  then show ?thesis using D ok by blast
qed

lemma load_step:
  assumes "ata_drive D disk" and "frame_ok buf fname"
  shows "\<exists>t. io_step (frame buf fname) s t \<and> load_loop D buf fname gpte path k s =
    (let v = sector disk gpte k in
     if \<not> magic v then Some (None, t)
     else if tar_path v = cstr 257 path then Some (Some (k + 1, ucast (tar_size v), blocks32 v), t)
     else load_loop D buf fname gpte path (advance (v 156) (blocks32 v) k) t)"
proof -
  obtain t m where h: "ATA_PIO_read_sectors D buf (ucast (k + starting_lba gpte)) 1 s = Some t"
    "is_ustar buf t = magic (sector disk gpte k)"
    "oct2bin (at (mem t) (buf + 0x7c)) 11 = tar_size (sector disk gpte k)"
    "compose_path buf fname (mem t) = Some m"
    "strncmp (at m fname) path 257 = 0 \<longleftrightarrow> tar_path (sector disk gpte k) = cstr 257 path"
    "entry_type (metadata (at m buf)) = sector disk gpte k 156"
    "io_step (frame buf fname) s t" "io_step (frame buf fname) s (t\<lparr>mem := m\<rparr>)"
    by (rule header_run [OF assms])
  show ?thesis
    by (rule exI [of _ "if magic (sector disk gpte k) then t\<lparr>mem := m\<rparr> else t"])
      (subst load_loop.simps, simp add: h Let_def blocks32_def)
qed

lemma load_returns:
  assumes D: "ata_drive D disk" and ok: "frame_ok buf fname"
    and "load_loop D buf fname gpte path k s = Some y"
  shows "\<exists>r. lookup (sector disk gpte) blocks32 (cstr 257 path) k r"
proof -
  have "ata_drive D disk \<longrightarrow> frame_ok buf fname \<longrightarrow> (\<exists>r. lookup (sector disk gpte) blocks32 (cstr 257 path) k r)"
    using assms(3)
  proof (rule load_loop.raw_induct [rotated])
    fix f D buf fname gpte path k s y
    assume IH: "\<And>D buf fname gpte path k s y. f D buf fname gpte path k s = Some y \<Longrightarrow>
        ata_drive D disk \<longrightarrow> frame_ok buf fname \<longrightarrow>
        (\<exists>r. lookup (sector disk gpte) blocks32 (cstr 257 path) k r)"
      and eq: "do {
     s \<leftarrow> ATA_PIO_read_sectors D buf (ucast (k + starting_lba gpte)) 1 s;
     if \<not> is_ustar buf s then Some (None, s)
     else do {
       let filesize = (ucast (oct2bin (at (mem s) (buf + 0x7c)) 11) :: u32);
       m \<leftarrow> compose_path buf fname (mem s);
       let num_sectors = (filesize + 511) div 512;
       let result = strncmp (at m fname) path 257;
       if result = 0 then Some (Some (k + 1, filesize, num_sectors), s\<lparr>mem := m\<rparr>)
       else f D buf fname gpte path
              (advance (entry_type (metadata (at m buf))) num_sectors k) (s\<lparr>mem := m\<rparr>) } } = Some y"
    show "ata_drive D disk \<longrightarrow> frame_ok buf fname \<longrightarrow> (\<exists>r. lookup (sector disk gpte) blocks32 (cstr 257 path) k r)"
    proof (intro impI)
      assume D: "ata_drive D disk" and ok: "frame_ok buf fname"
      let ?v = "sector disk gpte k"
      obtain t m where h: "ATA_PIO_read_sectors D buf (ucast (k + starting_lba gpte)) 1 s = Some t"
        "is_ustar buf t = magic ?v" "oct2bin (at (mem t) (buf + 0x7c)) 11 = tar_size ?v"
        "compose_path buf fname (mem t) = Some m"
        "strncmp (at m fname) path 257 = 0 \<longleftrightarrow> tar_path ?v = cstr 257 path"
        "entry_type (metadata (at m buf)) = ?v 156"
        by (rule header_run [OF D ok])
      show "\<exists>r. lookup (sector disk gpte) blocks32 (cstr 257 path) k r"
      proof (cases "magic ?v \<and> tar_path ?v \<noteq> cstr 257 path")
        case True
        then have "f D buf fname gpte path (advance (?v 156) (blocks32 ?v) k) (t\<lparr>mem := m\<rparr>) = Some y"
          using eq by (simp add: h Let_def blocks32_def)
        from IH [OF this] D ok True show ?thesis using lookup_advance by blast
      next
        case False
        then show ?thesis using lookup.absent lookup.present by blast
      qed
    qed
  qed
  then show ?thesis using D ok by blast
qed

interpretation size_search: tar_search
  "\<lambda>D buf fname gpte path k s. map_option (\<lambda>(r, v, s). ((r, v), s)) (filesize_loop D buf fname gpte path ret k s)"
  blocks64 "(- 1, ret)" "\<lambda>v k. (0, tar_size v)" for ret
proof unfold_locales
  fix D disk buf fname s gpte path k
  assume "ata_drive D disk" "frame_ok buf fname"
  then obtain t where "io_step (frame buf fname) s t" "filesize_loop D buf fname gpte path ret k s =
    (let v = sector disk gpte k in
     if \<not> magic v then Some (- 1, ret, t)
     else if tar_path v = cstr 257 path then Some (0, tar_size v, t)
     else filesize_loop D buf fname gpte path ret (advance (v 156) (blocks64 v) k) t)"
    using filesize_step by blast
  then show "\<exists>t. io_step (frame buf fname) s t \<and>
      map_option (\<lambda>(r, v, s). ((r, v), s)) (filesize_loop D buf fname gpte path ret k s) =
      (let v = sector disk gpte k in
       if \<not> magic v then Some ((- 1, ret), t)
       else if tar_path v = cstr 257 path then Some ((0, tar_size v), t)
       else map_option (\<lambda>(r, v, s). ((r, v), s))
              (filesize_loop D buf fname gpte path ret (advance (v 156) (blocks64 v) k) t))"
    by (intro exI [of _ t]) (simp add: Let_def)
qed (auto dest: filesize_returns)

interpretation load_search: tar_search load_loop blocks32 None
  "\<lambda>v k. Some (k + 1, ucast (tar_size v), blocks32 v)"
  by unfold_locales (fact load_step, fact load_returns)

lemma frame_cleared:
  assumes "frame_ok buf fname"
  obtains m where "memset (mem s) buf 0 512 = Some m" "io_step (frame buf fname) s (s\<lparr>mem := m\<rparr>)"
proof -
  obtain m where m: "memset (mem s) buf 0 512 = Some m"
    "m = (\<lambda>x. if x \<in> span buf 512 then 0 else mem s x)"
    using memset_clear [of buf 512 "mem s"] assms by (auto simp: frame_ok_def)
  have "io_step (frame buf fname) s (s\<lparr>mem := m\<rparr>)" using m(2) by (intro mem_io_step) simp
  with m(1) show ?thesis by (rule that)
qed

lemma get_filesize_run:
  assumes "ata_drive D disk" and "frame_ok buf fname"
    and "lookup (sector disk gpte) blocks64 (cstr 257 path) 0 r"
  shows "\<exists>t. ustar_get_filesize D buf fname gpte path ret s
      = Some (case r of None \<Rightarrow> (- 1, ret, t) | Some k \<Rightarrow> (0, tar_size (sector disk gpte k), t)) \<and>
    io_step (frame buf fname) s t"
proof -
  obtain m where m: "memset (mem s) buf 0 512 = Some m" "io_step (frame buf fname) s (s\<lparr>mem := m\<rparr>)"
    by (rule frame_cleared [OF assms(2)])
  obtain t where t: "map_option (\<lambda>(r, v, s). ((r, v), s)) (filesize_loop D buf fname gpte path ret 0 (s\<lparr>mem := m\<rparr>))
      = Some (case r of None \<Rightarrow> (- 1, ret) | Some j \<Rightarrow> (0, tar_size (sector disk gpte j)), t)"
    "io_step (frame buf fname) (s\<lparr>mem := m\<rparr>) t"
    using size_search.finds [OF assms(3,1,2), where ret = ret] by blast
  have "ustar_get_filesize D buf fname gpte path ret s = filesize_loop D buf fname gpte path ret 0 (s\<lparr>mem := m\<rparr>)"
    by (simp add: ustar_get_filesize_def m(1))
  also have "\<dots> = Some (case r of None \<Rightarrow> (- 1, ret, t) | Some k \<Rightarrow> (0, tar_size (sector disk gpte k), t))"
    using t(1) by (auto split: option.splits)
  finally show ?thesis using io_step_trans [OF m(2) t(2)] by blast
qed

lemma int_minus_1: "ucast (- 1 :: u64) = (- 1 :: u32)" "scast (- 1 :: u32) = (- 1 :: u64)"
  by (rule bit_word_eqI; simp add: bit_ucast_iff bit_signed_iff)+

lemma get_num_sectors_run:
  assumes "ata_drive D disk" and "frame_ok buf fname"
    and "lookup (sector disk gpte) blocks64 (cstr 257 path) 0 r"
  shows "\<exists>t. ustar_get_num_sectors D buf fname gpte path sectors s
      = Some (case r of None \<Rightarrow> (- 1, sectors, t)
               | Some k \<Rightarrow> (0, (tar_size (sector disk gpte k) + 511) div 512, t)) \<and>
    io_step (frame buf fname) s t"
proof -
  obtain t where t: "ustar_get_filesize D buf fname gpte path 0 s
      = Some (case r of None \<Rightarrow> (- 1, 0, t) | Some k \<Rightarrow> (0, tar_size (sector disk gpte k), t))"
    "io_step (frame buf fname) s t"
    using get_filesize_run [OF assms] by blast
  show ?thesis
    by (rule exI [of _ t]) (use t in \<open>simp add: ustar_get_num_sectors_def int_minus_1 Let_def split: option.splits\<close>)
qed

lemma load_file_run:
  assumes "ata_drive D disk" and "frame_ok buf fname"
    and "lookup (sector disk gpte) blocks32 (cstr 257 path) 0 (Some k)"
    and "n = unat (blocks32 (sector disk gpte k)) mod 256"
  shows "\<exists>t. ustar_load_file D buf fname gpte path dst s
      = Some (ucast (ucast (tar_size (sector disk gpte k)) :: u32), t) \<and>
    (\<forall>i < 512 * n. mem t (dst + of_nat i) = sector disk gpte (k + 1) i) \<and>
    io_step (frame buf fname \<union> span dst (512 * n)) s t"
proof -
  let ?v = "sector disk gpte k" and ?R = "frame buf fname \<union> span dst (512 * n)"
  obtain m where m: "memset (mem s) buf 0 512 = Some m" "io_step (frame buf fname) s (s\<lparr>mem := m\<rparr>)"
    by (rule frame_cleared [OF assms(2)])
  obtain u where u: "load_loop D buf fname gpte path 0 (s\<lparr>mem := m\<rparr>)
      = Some (Some (k + 1, ucast (tar_size ?v), blocks32 ?v), u)"
    "io_step (frame buf fname) (s\<lparr>mem := m\<rparr>) u"
    using load_search.finds [OF assms(3,1,2)] by auto
  have n: "unat (ucast (blocks32 ?v) :: u8) = n"
    by (simp add: assms(4) unsigned_ucast_eq take_bit_nat_def)
  obtain t where t: "ATA_PIO_read_sectors D dst (ucast (k + 1 + starting_lba gpte)) (ucast (blocks32 ?v)) u = Some t"
    "io_step (span dst (512 * n)) u t"
    "mem t = deposit (mem u) dst (512 * n)
      (\<lambda>i. disk (512 * (unat (ucast (k + 1 + starting_lba gpte) :: u32) mod 2 ^ 28) + i))"
    using read_io_step [OF assms(1), of dst "ucast (k + 1 + starting_lba gpte)" "ucast (blocks32 ?v)" u]
    unfolding n by blast
  have "n < 256" unfolding assms(4) by simp
  then have "mem t (dst + of_nat i) = sector disk gpte (k + 1) i" if "i < 512 * n" for i
    using t(3) that unfolding unat_ucast_28 by (simp add: deposit_def sector_def in_span unat_of_nat)
  moreover have "io_step ?R s u"
    using io_step_trans [OF m(2) u(2)] by (rule io_step_mono) blast
  moreover have "io_step ?R u t" using t(2) by (rule io_step_mono) blast
  moreover have "ustar_load_file D buf fname gpte path dst s = Some (ucast (ucast (tar_size ?v) :: u32), t)"
    by (simp add: ustar_load_file_def m(1) u(1) t(1))
  ultimately show ?thesis using io_step_trans by blast
qed

lemma load_file_absent:
  assumes "ata_drive D disk" and "frame_ok buf fname"
    and "lookup (sector disk gpte) blocks32 (cstr 257 path) 0 None"
  shows "\<exists>t. ustar_load_file D buf fname gpte path dst s = Some (0, t) \<and> io_step (frame buf fname) s t"
proof -
  obtain m where m: "memset (mem s) buf 0 512 = Some m" "io_step (frame buf fname) s (s\<lparr>mem := m\<rparr>)"
    by (rule frame_cleared [OF assms(2)])
  obtain u where u: "load_loop D buf fname gpte path 0 (s\<lparr>mem := m\<rparr>) = Some (None, u)"
    "io_step (frame buf fname) (s\<lparr>mem := m\<rparr>) u"
    using load_search.finds [OF assms(3,1,2)] by auto
  show ?thesis
    by (rule exI [of _ u]) (simp add: ustar_load_file_def m(1) u(1) io_step_trans [OF m(2) u(2)])
qed

section \<open>Listing\<close>

text \<open>What the listing of an archive prints, up to the first sector without the signature.\<close>

inductive listed :: "(u64 \<Rightarrow> view) \<Rightarrow> u64 \<Rightarrow> u8 list \<Rightarrow> bool" for img where
  listed_end: "\<not> magic (img k) \<Longrightarrow> listed img k []"
| listed_file: "magic (img k) \<Longrightarrow> is_file (img k) \<Longrightarrow> n < 512 \<Longrightarrow> img k n = 0 \<Longrightarrow>
    listed img (k + 1 + ucast (blocks32 (img k))) cs \<Longrightarrow>
    listed img k (of_char CHR ''/'' # cstr n (img k) @ bytes '' :file size=''
      @ dec_string (unat (ucast (tar_size (img k)) :: u32)) @ [nl] @ cs)"
| listed_directory: "magic (img k) \<Longrightarrow> is_directory (img k) \<Longrightarrow> n < 512 \<Longrightarrow> img k n = 0 \<Longrightarrow>
    listed img (k + 1) cs \<Longrightarrow>
    listed img k (of_char CHR ''/'' # cstr n (img k) @ bytes '' :directory'' @ [nl] @ cs)"

lemma transmitted_disk: "\<forall>e \<in> set es. disk_event e \<Longrightarrow> transmitted (es @ h) = transmitted h"
proof (induction es)
  case (Cons e es)
  then show ?case by (cases e) (auto simp: PORT_def)
qed simp

lemma disk_same_transmitted: "disk_same s t \<Longrightarrow> transmitted (trace t) = transmitted (trace s)"
  by (auto simp: disk_same_def transmitted_disk)

lemma header_printed:
  assumes "ata_drive D disk" and live: "serial_live D" and off: "span buf 512 \<inter> vga_region = {}"
    and n: "n < 512" "sector disk gpte k n = 0"
  obtains t u where "ATA_PIO_read_sectors D buf (ucast (k + starting_lba gpte)) 1 s = Some t"
    "holds buf 512 (sector disk gpte k) t"
    "\<forall>K. Option.bind (putc D (of_char CHR ''/'') t) (\<lambda>s. Option.bind (puts D (at (mem s) buf) s) K) = (K u :: machine option)"
    "holds buf 512 (sector disk gpte k) u" "io_step (span buf 512) s u"
    "transmitted (trace u) = transmitted (trace s) @ of_char CHR ''/'' # cstr n (sector disk gpte k)"
proof -
  let ?v = "sector disk gpte k"
  obtain t where t: "ATA_PIO_read_sectors D buf (ucast (k + starting_lba gpte)) 1 s = Some t"
    "io_step (span buf 512) s t" "holds buf 512 ?v t"
    by (rule read_header [OF assms(1)])
  have trt: "transmitted (trace t) = transmitted (trace s)"
    using read_sectors_run [OF assms(1), of buf "ucast (k + starting_lba gpte)" 1 s] t(1)
      disk_same_transmitted by fastforce
  obtain t' where t': "putc D (of_char CHR ''/'') t = Some t'" "console_same t t'"
    "transmitted (trace t') = transmitted (trace t) @ [of_char CHR ''/'']"
    using console.out_ok [OF live] by blast
  have h': "holds buf 512 ?v t'" using t(3) holds_console [OF t'(2) off] by simp
  then have v: "at (mem t') buf i = ?v i" if "i < 512" for i
    using holds_view [OF h', of 0 i] that by (simp add: shift_def)
  have "puts D (at (mem t') buf) t' = emit (putc D) (cstr n (at (mem t') buf)) t'"
    using v n by (intro puts_view) simp
  also have "cstr n (at (mem t') buf) = cstr n ?v" using v n by (intro cstr_cong) simp
  finally have puts: "puts D (at (mem t') buf) t' = emit (putc D) (cstr n ?v) t'" .
  obtain u where u: "emit (putc D) (cstr n ?v) t' = Some u" "console_same t' u"
    "transmitted (trace u) = transmitted (trace t') @ cstr n ?v"
    using console.emit_ok [OF live] by blast
  have "\<forall>K. Option.bind (putc D (of_char CHR ''/'') t) (\<lambda>s. Option.bind (puts D (at (mem s) buf) s) K) = (K u :: machine option)"
    by (simp only: t'(1) puts u(1) Option.bind.simps simp_thms)
  moreover have "console_same t u" using t'(2) u(2) by (rule console_same_trans)
  ultimately have "console_same t u" and K: "\<forall>K. Option.bind (putc D (of_char CHR ''/'') t)
      (\<lambda>s. Option.bind (puts D (at (mem s) buf) s) K) = (K u :: machine option)" by blast+
  have "io_step (span buf 512) s u"
    using io_step_trans [OF t(2) console_io_step] \<open>console_same t u\<close> by blast
  moreover have "transmitted (trace u) = transmitted (trace s) @ of_char CHR ''/'' # cstr n ?v"
    using u(3) t'(3) trt by simp
  moreover have "holds buf 512 ?v u" using t(3) holds_console [OF \<open>console_same t u\<close> off] by simp
  ultimately show ?thesis using that [OF t(1,3) K] by blast
qed

definition tail_text :: "view \<Rightarrow> u8 list" where
  "tail_text v =
     (if is_file v then bytes '' :file size='' @ dec_string (unat (ucast (tar_size v) :: u32)) @ [nl]
      else if is_directory v then bytes '' :directory'' @ [nl] else [])"

lemma tail_printed:
  "(if v 156 = 0 \<or> v 156 = NORMAL_FILE then do {
       s \<leftarrow> putl D '' :file size='' s;
       s \<leftarrow> putd D (ucast (ucast (tar_size v) :: u32)) s;
       putc D nl s }
     else if v 156 = DIRECTORY then do {
       s \<leftarrow> putl D '' :directory'' s;
       putc D nl s }
     else Some s) = emit (putc D) (tail_text v) s"
  by (simp add: tail_text_def is_file_def is_directory_def NORMAL_FILE_def DIRECTORY_def console_emit
      emit_fuse unat_ucast_up del: emit.simps) (simp add: emit.simps)

lemma list_entry:
  assumes D: "ata_drive D disk" and live: "serial_live D" and off: "span buf 512 \<inter> vga_region = {}"
    and n: "n < 512" "sector disk gpte k n = 0" and "magic (sector disk gpte k)"
  obtains w where "list_files_loop D buf gpte k s = list_files_loop D buf gpte
      (advance (sector disk gpte k 156) (blocks32 (sector disk gpte k)) k) w"
    "io_step (span buf 512) s w"
    "transmitted (trace w) = transmitted (trace s)
       @ of_char CHR ''/'' # cstr n (sector disk gpte k) @ tail_text (sector disk gpte k)"
proof -
  let ?v = "sector disk gpte k"
  obtain t u where tu: "ATA_PIO_read_sectors D buf (ucast (k + starting_lba gpte)) 1 s = Some t"
    "holds buf 512 ?v t"
    "\<forall>K. Option.bind (putc D (of_char CHR ''/'') t) (\<lambda>s. Option.bind (puts D (at (mem s) buf) s) K) = (K u :: machine option)"
    "holds buf 512 ?v u" "io_step (span buf 512) s u"
    "transmitted (trace u) = transmitted (trace s) @ of_char CHR ''/'' # cstr n ?v"
    by (rule header_printed [OF D live off n])
  have type: "entry_type (metadata (at (mem u) buf)) = ?v 156"
    using holds_view [OF tu(4), of 0 156] by (simp add: metadata_def shift_def)
  obtain w where w: "emit (putc D) (tail_text ?v) u = Some w" "console_same u w"
    "transmitted (trace w) = transmitted (trace u) @ tail_text ?v"
    using console.emit_ok [OF live] by blast
  have "list_files_loop D buf gpte k s
      = list_files_loop D buf gpte (advance (?v 156) (blocks32 ?v) k) w"
    by (subst list_files_loop.simps)
      (simp only: tu(1) Option.bind.simps is_ustar_holds [OF tu(2)] assms(6) if_True if_False simp_thms
        Let_def tu(3) [rule_format] oct2bin_holds [OF tu(2)] type tail_printed w(1) blocks32_def)
  moreover have "io_step (span buf 512) s w"
    using io_step_trans [OF tu(5) console_io_step [OF w(2)]] .
  ultimately show ?thesis using that w(3) tu(6) by simp
qed

lemma list_files_loop_run:
  assumes "listed (sector disk gpte) k cs" and D: "ata_drive D disk" and live: "serial_live D"
    and off: "span buf 512 \<inter> vga_region = {}"
  shows "\<exists>t. list_files_loop D buf gpte k s = Some t \<and> io_step (span buf 512) s t \<and>
    transmitted (trace t) = transmitted (trace s) @ cs"
  using assms(1)
proof (induction arbitrary: s rule: listed.induct)
  case (listed_end k)
  obtain t where t: "ATA_PIO_read_sectors D buf (ucast (k + starting_lba gpte)) 1 s = Some t"
    "io_step (span buf 512) s t" "holds buf 512 (sector disk gpte k) t"
    by (rule read_header [OF D])
  have "transmitted (trace t) = transmitted (trace s)"
    using read_sectors_run [OF D, of buf "ucast (k + starting_lba gpte)" 1 s] t(1)
      disk_same_transmitted by fastforce
  moreover have "list_files_loop D buf gpte k s = Some t"
    by (subst list_files_loop.simps) (simp add: t(1) is_ustar_holds [OF t(3)] listed_end)
  ultimately show ?case using t(2) by simp
next
  case (listed_file k n cs)
  obtain w where w: "list_files_loop D buf gpte k s = list_files_loop D buf gpte
      (advance (sector disk gpte k 156) (blocks32 (sector disk gpte k)) k) w"
    "io_step (span buf 512) s w" "transmitted (trace w) = transmitted (trace s)
       @ of_char CHR ''/'' # cstr n (sector disk gpte k) @ tail_text (sector disk gpte k)"
    by (rule list_entry [OF D live off listed_file.hyps(3,4,1)])
  show ?case
    using listed_file.IH [of w] w(2,3) listed_file.hyps(2) io_step_trans
    unfolding w(1) advance_file [OF listed_file.hyps(2)] by (fastforce simp: tail_text_def)
next
  case (listed_directory k n cs)
  obtain w where w: "list_files_loop D buf gpte k s = list_files_loop D buf gpte
      (advance (sector disk gpte k 156) (blocks32 (sector disk gpte k)) k) w"
    "io_step (span buf 512) s w" "transmitted (trace w) = transmitted (trace s)
       @ of_char CHR ''/'' # cstr n (sector disk gpte k) @ tail_text (sector disk gpte k)"
    by (rule list_entry [OF D live off listed_directory.hyps(3,4,1)])
  have "\<not> is_file (sector disk gpte k)" using listed_directory.hyps(2) file_not_directory by blast
  then show ?case
    using listed_directory.IH [of w] w(2,3) listed_directory.hyps(2) io_step_trans
    unfolding w(1) advance_directory [OF listed_directory.hyps(2)] by (fastforce simp: tail_text_def)
qed

section \<open>An example archive\<close>

definition tar_header :: "u8 list \<Rightarrow> u8 \<Rightarrow> nat \<Rightarrow> view" where
  "tar_header name type n i =
     (if i < 100 then lit name i
      else if 124 \<le> i \<and> i < 135 then octal 11 n ! (i - 124)
      else if i = 156 then type
      else if 257 \<le> i \<and> i < 262 then bytes ''ustar'' ! (i - 257) else 0)"

lemma tar_header_simps:
  assumes "0 \<notin> set name" and "length name < 100" and "n < 8 ^ 11"
  shows "magic (tar_header name type n)" "tar_path (tar_header name type n) = of_char CHR ''/'' # name"
    "tar_size (tar_header name type n) = of_nat n" "tar_header name type n 156 = type"
    "tar_header name type n (length name) = 0" "cstr (length name) (tar_header name type n) = name"
proof -
  have "cstr 155 (shift (tar_header name type n) 345) = []"
    by (simp add: cstr_takeWhile shift_def tar_header_def upt_rec)
  moreover have name: "cstr k (tar_header name type n) = name" if "length name \<le> k" "k \<le> 100" for k
  proof -
    have "cstr k (tar_header name type n) = cstr k (lit name)"
      using that by (intro cstr_cong) (simp add: tar_header_def)
    also have "\<dots> = name" using assms(1) that by (simp add: cstr_lit)
    finally show ?thesis .
  qed
  ultimately show "tar_path (tar_header name type n) = of_char CHR ''/'' # name"
    using assms(2) by (simp add: tar_path_def)
  show "cstr (length name) (tar_header name type n) = name" using name assms(2) by simp
  have "tar_size (tar_header name type n) = oct2bin (lit (octal 11 n)) 11"
    unfolding tar_size_def by (rule oct2bin_cong) (simp add: shift_def tar_header_def lit_def)
  then show "tar_size (tar_header name type n) = of_nat n" using oct2bin_octal [OF assms(3)] by simp
qed (use assms(2) in \<open>simp_all add: magic_def tar_header_def bytes_def lit_def\<close>)

lemma shift_0: "shift v 0 = v"
  by (simp add: shift_def fun_eq_iff)

lemma header_facts:
  assumes v: "\<And>i. i < 512 \<Longrightarrow> v i = tar_header name type n i"
    and "0 \<notin> set name" and "length name < 100" and "n < 8 ^ 11" and l: "length name = l"
  shows "magic v" "tar_path v = of_char CHR ''/'' # name" "tar_size v = of_nat n" "v 156 = type"
    "v l = 0" "cstr l v = name"
proof -
  note h = tar_header_simps [OF assms(2-4), of type]
  have c: "cstr k (shift v j) = cstr k (shift (tar_header name type n) j)" if "j + k \<le> 512" for j k
    using that by (intro cstr_cong) (simp add: shift_def v)
  have "tar_path v = tar_path (tar_header name type n)"
    unfolding tar_path_def using c [of 345 155] c [of 0 100] by (simp add: shift_0)
  then show "tar_path v = of_char CHR ''/'' # name" using h(2) by simp
  have "tar_size v = tar_size (tar_header name type n)"
    unfolding tar_size_def by (rule oct2bin_cong) (simp add: shift_def v)
  then show "tar_size v = of_nat n" using h(3) by simp
  show "cstr l v = name"
    using c [of 0 l] h(6) assms(3) l by (simp add: shift_0)
  show "magic v" using h(1) by (simp add: magic_def v)
qed (use assms(3) l tar_header_simps [OF assms(2-4), of type] in \<open>simp_all add: v\<close>)

lemma not_magic: "v 257 = 0 \<Longrightarrow> \<not> magic v"
  by (simp add: magic_def bytes_def)

text \<open>
  A partition at block 34: the directory \<open>sys\<close>, the file \<open>sys/a\<close> of 5 bytes, the file
  \<open>sys/k\<close> of 600 bytes, and unused sectors. A second partition has only a symbolic link.
\<close>

definition disk_of :: "(nat \<Rightarrow> view) \<Rightarrow> disk" where
  "disk_of blk i = blk (i div 512) (i mod 512)"

definition sample_archive :: disk where
  "sample_archive = disk_of (\<lambda>b.
     if b = 34 then tar_header (bytes ''sys/'') 0x35 0
     else if b = 35 then tar_header (bytes ''sys/a'') 0x30 5
     else if b = 37 then tar_header (bytes ''sys/k'') 0x30 600
     else if b = 38 then (\<lambda>_. 7) else (\<lambda>_. 0))"

definition link_archive :: disk where
  "link_archive = disk_of (\<lambda>b. if b = 34 then tar_header (bytes ''sys/l'') 0x32 0 else (\<lambda>_. 0))"

definition at_34 :: GPTEntry where
  "at_34 = empty_entry\<lparr>starting_lba := 34\<rparr>"

lemma sector_34:
  assumes "unat k < 1000" and "i < 512"
  shows "sector (disk_of blk) at_34 k i = blk (unat k + 34) i"
proof -
  have "unat (k + of_nat 34) = unat k + 34" using assms(1) by (intro unat_add_of_nat) simp
  moreover have "(512 * (unat k + 34) + i) div 512 = unat k + 34" "(512 * (unat k + 34) + i) mod 512 = i"
    using assms(2) by (simp_all only: div_mult_self4 mod_mult_self4) simp_all
  ultimately show ?thesis
    using assms(1) unfolding sector_def at_34_def empty_entry_def disk_of_def by (simp del: add_mult_distrib2)
qed

lemma sample_sectors:
  "i < 512 \<Longrightarrow> sector sample_archive at_34 0 i = tar_header (bytes ''sys/'') 0x35 0 i"
  "i < 512 \<Longrightarrow> sector sample_archive at_34 1 i = tar_header (bytes ''sys/a'') 0x30 5 i"
  "i < 512 \<Longrightarrow> sector sample_archive at_34 3 i = tar_header (bytes ''sys/k'') 0x30 600 i"
  "i < 512 \<Longrightarrow> sector sample_archive at_34 4 i = 7"
  "i < 512 \<Longrightarrow> sector sample_archive at_34 6 i = 0"
  "i < 512 \<Longrightarrow> sector link_archive at_34 0 i = tar_header (bytes ''sys/l'') 0x32 0 i"
  by (simp_all add: sector_34 sample_archive_def link_archive_def)

lemmas sample_0 = header_facts [OF sample_sectors(1), where l = 4, simplified]
lemmas sample_1 = header_facts [OF sample_sectors(2), where l = 5, simplified]
lemmas sample_3 = header_facts [OF sample_sectors(3), where l = 5, simplified]
lemmas link_0 = header_facts [OF sample_sectors(6), where l = 5, simplified]

lemma sample_6: "\<not> magic (sector sample_archive at_34 6)"
  by (rule not_magic) (simp add: sample_sectors(5))

lemma sample_blocks:
  "blocks64 (sector sample_archive at_34 1) = 1" "blocks32 (sector sample_archive at_34 1) = 1"
  "blocks64 (sector sample_archive at_34 3) = 2" "blocks32 (sector sample_archive at_34 3) = 2"
  by (simp_all add: blocks64_def blocks32_def sample_1(3) sample_3(3))

lemma sample_paths:
  "cstr 257 (lit (bytes ''/sys/k'')) = bytes ''/sys/k''"
  "cstr 257 (lit (bytes ''/sys/z'')) = bytes ''/sys/z''"
  by (subst cstr_lit; simp)+

lemma sample_lookup:
  "lookup (sector sample_archive at_34) blocks64 (bytes ''/sys/k'') 0 (Some 3)"
  "lookup (sector sample_archive at_34) blocks32 (bytes ''/sys/k'') 0 (Some 3)"
  "lookup (sector sample_archive at_34) blocks64 (bytes ''/sys/z'') 0 None"
proof -
  let ?img = "sector sample_archive at_34"
  have 3: "lookup ?img blocks (bytes ''/sys/k'') 3 (Some 3)" for blocks
    by (rule lookup.present) (simp_all add: sample_3 bytes_def)
  have 1: "lookup ?img blocks (bytes ''/sys/k'') 1 (Some 3)" if "blocks (?img 1) = 1" for blocks
    by (rule lookup.skip_file) (simp_all add: sample_1 is_file_def that 3, simp add: bytes_def)
  have 0: "lookup ?img blocks (bytes ''/sys/k'') 0 (Some 3)" if "blocks (?img 1) = 1" for blocks
    by (rule lookup.skip_directory) (simp_all add: sample_0 is_directory_def 1 [of blocks, OF that], simp add: bytes_def)
  show "lookup ?img blocks64 (bytes ''/sys/k'') 0 (Some 3)" "lookup ?img blocks32 (bytes ''/sys/k'') 0 (Some 3)"
    by (rule 0, simp add: sample_blocks)+
  have 6: "lookup ?img blocks64 (bytes ''/sys/z'') 6 None" by (rule lookup.absent) (rule sample_6)
  have 3: "lookup ?img blocks64 (bytes ''/sys/z'') 3 None"
    by (rule lookup.skip_file) (simp_all add: sample_3 is_file_def sample_blocks 6, simp add: bytes_def)
  have 1: "lookup ?img blocks64 (bytes ''/sys/z'') 1 None"
    by (rule lookup.skip_file) (simp_all add: sample_1 is_file_def sample_blocks 3, simp add: bytes_def)
  show "lookup ?img blocks64 (bytes ''/sys/z'') 0 None"
    by (rule lookup.skip_directory) (simp_all add: sample_0 is_directory_def 1, simp add: bytes_def)
qed

lemma sample_listed:
  "listed (sector sample_archive at_34) 0
     (bytes ''/sys/ :directory'' @ [nl] @ bytes ''/sys/a :file size=5'' @ [nl]
      @ bytes ''/sys/k :file size=600'' @ [nl])"
proof -
  let ?img = "sector sample_archive at_34"
  have "listed ?img 6 []" by (rule listed_end) (rule sample_6)
  then have "listed ?img 3 (of_char CHR ''/'' # cstr 5 (?img 3) @ bytes '' :file size=''
      @ dec_string (unat (ucast (tar_size (?img 3)) :: u32)) @ [nl] @ [])" (is "listed _ _ ?c3")
    using sample_3(5) by (intro listed_file) (simp_all add: sample_3 is_file_def sample_blocks bytes_def)
  then have "listed ?img 1 (of_char CHR ''/'' # cstr 5 (?img 1) @ bytes '' :file size=''
      @ dec_string (unat (ucast (tar_size (?img 1)) :: u32)) @ [nl] @ ?c3)" (is "listed _ _ ?c1")
    using sample_1(5) by (intro listed_file) (simp_all add: sample_1 is_file_def sample_blocks bytes_def)
  then have "listed ?img 0 (of_char CHR ''/'' # cstr 4 (?img 0) @ bytes '' :directory'' @ [nl] @ ?c1)"
    using sample_0(5) by (intro listed_directory) (simp_all add: sample_0 is_directory_def bytes_def)
  moreover have "cstr 4 (?img 0) = bytes ''sys/''" "cstr 5 (?img 1) = bytes ''sys/a''"
    "cstr 5 (?img 3) = bytes ''sys/k''"
    using sample_0(6) sample_1(6) sample_3(6) by simp_all
  ultimately show ?thesis
    by (simp add: sample_1(3) sample_3(3) dec_string_def dec_digits.simps bytes_def)
qed

lemma sample_frame: "frame_ok 0x7000 0x6000"
  by (simp add: frame_ok_def)

section \<open>Properties\<close>

text \<open>C20. Looking a file up ends exactly when the relation \<open>lookup\<close> has a derivation from the first
  header on: at the header with the path or at a sector without the signature. There is no
  derivation, and the loop never ends, when a header that is neither a file nor a directory comes
  first.\<close>

theorem get_filesize_returns_iff:
  assumes "ata_drive D disk" and "frame_ok buf fname"
  shows "(\<exists>y. ustar_get_filesize D buf fname gpte path ret s = Some y) \<longleftrightarrow>
    (\<exists>r. lookup (sector disk gpte) blocks64 (cstr 257 path) 0 r)"
proof
  obtain m where m: "memset (mem s) buf 0 512 = Some m"
    by (rule frame_cleared [OF assms(2)])
  assume "\<exists>y. ustar_get_filesize D buf fname gpte path ret s = Some y"
  then obtain y where "filesize_loop D buf fname gpte path ret 0 (s\<lparr>mem := m\<rparr>) = Some y"
    by (auto simp: ustar_get_filesize_def m)
  then show "\<exists>r. lookup (sector disk gpte) blocks64 (cstr 257 path) 0 r"
    by (rule filesize_returns [OF assms])
qed (use get_filesize_run [OF assms] in blast)

theorem get_filesize_returns_iff_witness:
  "\<not> (\<exists>y. ustar_get_filesize (with_drive link_archive (\<lambda>_ _. 0)) 0x7000 0x6000 at_34
        (lit (bytes ''/sys/k'')) 0 blank_machine = Some y)"
proof -
  have "\<not> lookup (sector link_archive at_34) blocks64 (cstr 257 (lit (bytes ''/sys/k''))) 0 r" for r
    by (rule lookup_stuck)
      (simp_all add: link_0 is_file_def is_directory_def sample_paths, simp add: bytes_def)
  then show ?thesis
    unfolding get_filesize_returns_iff [OF with_drive_ata sample_frame] by blast
qed

text \<open>C21. When the search ends, \<open>ustar_get_num_sectors\<close> returns 0 and the number of 512-byte
  sectors of the file found, rounded up, or -1 with the variable unchanged when there is no such
  file; only the two buffers in its frame and the drive change.\<close>

theorem get_num_sectors_counts:
  assumes "ata_drive D disk" and "frame_ok buf fname"
    and "lookup (sector disk gpte) blocks64 (cstr 257 path) 0 r"
  shows "\<exists>t. ustar_get_num_sectors D buf fname gpte path sectors s
      = Some (case r of None \<Rightarrow> (- 1, sectors, t)
               | Some k \<Rightarrow> (0, (tar_size (sector disk gpte k) + 511) div 512, t)) \<and>
    io_step (frame buf fname) s t"
  by (rule get_num_sectors_run [OF assms])

theorem get_num_sectors_counts_witness:
  "(\<exists>t. ustar_get_num_sectors (with_drive sample_archive (\<lambda>_ _. 0)) 0x7000 0x6000 at_34
        (lit (bytes ''/sys/k'')) 9 blank_machine = Some (0, 2, t)) \<and>
   (\<exists>t. ustar_get_num_sectors (with_drive sample_archive (\<lambda>_ _. 0)) 0x7000 0x6000 at_34
        (lit (bytes ''/sys/z'')) 9 blank_machine = Some (- 1, 9, t))"
proof -
  show ?thesis
    using get_num_sectors_counts [OF with_drive_ata sample_frame, where path = "lit (bytes ''/sys/k'')",
        unfolded sample_paths, OF sample_lookup(1), where sectors = 9 and s = blank_machine]
      get_num_sectors_counts [OF with_drive_ata sample_frame, where path = "lit (bytes ''/sys/z'')",
        unfolded sample_paths, OF sample_lookup(3), where sectors = 9 and s = blank_machine]
    by (auto simp: sample_3(3))
qed

text \<open>C19. \<open>ustar_load_file\<close> returns the size of the file found and deposits its sectors at
  \<open>dst\<close>, but only as many as the number of sectors modulo 256: the count is passed to the disk
  driver as one byte.\<close>

theorem load_file_loads:
  assumes "ata_drive D disk" and "frame_ok buf fname"
    and "lookup (sector disk gpte) blocks32 (cstr 257 path) 0 (Some k)"
    and "n = unat (blocks32 (sector disk gpte k)) mod 256"
  shows "\<exists>t. ustar_load_file D buf fname gpte path dst s
      = Some (ucast (ucast (tar_size (sector disk gpte k)) :: u32), t) \<and>
    (\<forall>i < 512 * n. mem t (dst + of_nat i) = sector disk gpte (k + 1) i) \<and>
    io_step (frame buf fname \<union> span dst (512 * n)) s t"
  by (rule load_file_run [OF assms])

theorem load_file_loads_witness:
  "\<exists>t. ustar_load_file (with_drive sample_archive (\<lambda>_ _. 0)) 0x7000 0x6000 at_34
      (lit (bytes ''/sys/k'')) 0x200000 blank_machine = Some (600, t) \<and> mem t 0x200005 = 7"
proof -
  have n: "2 = unat (blocks32 (sector sample_archive at_34 3)) mod 256" by (simp add: sample_blocks)
  obtain t where t: "ustar_load_file (with_drive sample_archive (\<lambda>_ _. 0)) 0x7000 0x6000 at_34
      (lit (bytes ''/sys/k'')) 0x200000 blank_machine
      = Some (ucast (ucast (tar_size (sector sample_archive at_34 3)) :: u32), t)"
    "\<forall>i < 512 * 2. mem t (0x200000 + of_nat i) = sector sample_archive at_34 (3 + 1) i"
    using load_file_loads [OF with_drive_ata sample_frame, where path = "lit (bytes ''/sys/k'')",
        unfolded sample_paths, OF sample_lookup(2) n, where dst = "0x200000" and s = blank_machine]
    by blast
  have "mem t 0x200005 = sector sample_archive at_34 4 5" using t(2) [rule_format, of 5] by simp
  then show ?thesis using t(1) by (simp add: sample_3(3) sample_sectors(4))
qed

text \<open>C22. Listing an archive of files and directories terminates and prints one line for each entry:
  its path and, for a file, its size in decimal; only the sector buffer, the screen and the devices
  change.\<close>

theorem list_files_lists:
  assumes "ata_drive D disk" and "serial_live D" and "span buf 512 \<inter> vga_region = {}"
    and "unat buf + 520 < 2 ^ 64" and "listed (sector disk gpte) 0 cs"
  shows "\<exists>t. ustar_list_files D buf gpte s = Some t \<and> io_step (span buf 512) s t \<and>
    transmitted (trace t) = transmitted (trace s) @ cs"
proof -
  obtain m where m: "memset (mem s) buf 0 512 = Some m"
    "m = (\<lambda>x. if x \<in> span buf 512 then 0 else mem s x)"
    using memset_clear [of buf 512 "mem s"] assms(4) by auto
  have "io_step (span buf 512) s (s\<lparr>mem := m\<rparr>)" using m(2) by (intro mem_io_step) simp
  moreover obtain t where "list_files_loop D buf gpte 0 (s\<lparr>mem := m\<rparr>) = Some t"
    "io_step (span buf 512) (s\<lparr>mem := m\<rparr>) t"
    "transmitted (trace t) = transmitted (trace (s\<lparr>mem := m\<rparr>)) @ cs"
    using list_files_loop_run [OF assms(5,1,2,3)] by blast
  ultimately show ?thesis
    using io_step_trans by (auto simp: ustar_list_files_def m(1))
qed

theorem list_files_lists_witness:
  "\<exists>t. ustar_list_files (with_drive sample_archive (\<lambda>_ _. 0x20)) 0x7000 at_34 blank_machine = Some t \<and>
    transmitted (trace t) = bytes ''/sys/ :directory'' @ [nl] @ bytes ''/sys/a :file size=5'' @ [nl]
      @ bytes ''/sys/k :file size=600'' @ [nl]"
proof -
  have "span 0x7000 512 \<inter> vga_region = {}" by (auto simp: vga_region_def span_iff vga_buffer_def)
  moreover have "unat (0x7000 :: u64) + 520 < 2 ^ 64" by simp
  moreover have "transmitted (trace blank_machine) = []" by (simp add: blank_machine_def)
  ultimately show ?thesis
    using list_files_lists [OF with_drive_ata ready_serial _ _ sample_listed, where buf = "0x7000" and s = blank_machine]
    by (metis append_Nil)
qed

end
