(* ===== verification/Listing.thy ===== *)
theory Listing
  imports PhysicalMap
begin

text \<open>
  What \<open>print_pagetable\<close> prints: a specification of the text of a listing, as a function of the
  memory alone, and the proof that the procedure, which writes to the screen while it reads the
  tables, prints exactly that text.
\<close>

section \<open>The text of a listing\<close>

definition entry_line :: "nat \<Rightarrow> nat \<Rightarrow> u64 \<Rightarrow> u8 list" where
  "entry_line level i e = replicate (4 - level) 0x20 @ bytes ''PT'' @ dec_string level @ [0x5B]
     @ dec_string i @ [0x5D] @ bytes '' = '' @ hex_string 16 (unat e) @ bytes ''; paddr = ''
     @ hex_string 16 (unat (GET_PTE_ADDRESS e)) @ [nl]"

fun listing :: "mem \<Rightarrow> nat \<Rightarrow> u64 \<Rightarrow> nat \<Rightarrow> u8 list" where
  "listing m level table 0 = []"
| "listing m level table (Suc k) =
     (let i = 511 - k; e = load64 m (slot table (of_nat i)) in
      if \<not> present e then listing m level table k
      else entry_line level i e
        @ (if level > 0 \<and> descends level e then listing m (level - 1) (GET_PTE_ADDRESS e) 512 else [])
        @ listing m level table k)"

text \<open>The tables a listing visits lie outside the screen.\<close>

primrec off_screen :: "mem \<Rightarrow> nat \<Rightarrow> u64 \<Rightarrow> bool" where
  "off_screen m 0 table \<longleftrightarrow> (\<forall>j. span (slot table j) 8 \<inter> vga_region = {})"
| "off_screen m (Suc level) table \<longleftrightarrow> (\<forall>j. span (slot table j) 8 \<inter> vga_region = {}) \<and>
     (\<forall>j. present (load64 m (slot table j)) \<and> descends (Suc level) (load64 m (slot table j)) \<longrightarrow>
        off_screen m level (GET_PTE_ADDRESS (load64 m (slot table j))))"

lemma off_screen_slot: "off_screen m level table \<Longrightarrow> span (slot table j) 8 \<inter> vga_region = {}"
  by (cases level) auto

lemma off_screen_below:
  "off_screen m level table \<Longrightarrow> present (load64 m (slot table j)) \<Longrightarrow> 0 < level \<Longrightarrow>
   descends level (load64 m (slot table j)) \<Longrightarrow> off_screen m (level - 1) (GET_PTE_ADDRESS (load64 m (slot table j)))"
  by (cases level) auto

section \<open>The procedure prints it\<close>

lemma indent_emit: "indent k D = emit (putc D) (replicate k 0x20)"
  by (induction k) (simp_all add: fun_eq_iff cong: Option.bind_cong)

lemma print_entries_step:
  assumes "present (entry s table (of_nat (511 - k)))" and "level < 2 ^ 64"
  shows "print_entries D level table (Suc k) s
    = Option.bind (emit (putc D) (entry_line level (511 - k) (entry s table (of_nat (511 - k)))) s)
        (\<lambda>t. Option.bind (if level > 0 \<and> descends level (entry s table (of_nat (511 - k)))
            then print_entries D (level - 1) (GET_PTE_ADDRESS (entry s table (of_nat (511 - k)))) 512 t
            else Some t) (print_entries D level table k))"
proof -
  have "unat (of_nat level :: u64) = level" "unat (of_nat (511 - k) :: u64) = 511 - k"
    using assms(2) by (simp_all add: unat_of_nat)
  then show ?thesis
    unfolding print_entries.simps Let_def if_not_P [OF notI [OF notE [OF _ assms(1)]]]
    by (simp add: assms(1) indent_emit console_emit emit_fuse entry_line_def del: emit.simps of_nat_diff)
qed

lemma agree_console:
  assumes "console_same s t" and "\<And>x. x \<notin> vga_region \<Longrightarrow> mem s x = m x" and "x \<notin> vga_region"
  shows "mem t x = m x"
  using assms by (simp add: console_same_def)

lemma print_entries_emit:
  assumes live: "serial_live D" and "off_screen m level table" and "\<And>x. x \<notin> vga_region \<Longrightarrow> mem s x = m x"
    and "level < 2 ^ 64"
  shows "print_entries D level table k s = emit (putc D) (listing m level table k) s"
  using assms(2-4)
proof (induction level arbitrary: table k s rule: less_induct)
  case outer: (less level)
  note off = outer.prems(1) and lim = outer.prems(3)
  show ?case
    using outer.prems(2)
  proof (induction k arbitrary: s)
    case 0
    then show ?case by simp
  next
    case (Suc k)
    define e where "e = load64 m (slot table (of_nat (511 - k)))"
    have es: "entry s table (of_nat (511 - k)) = e"
      unfolding e_def using off_screen_slot [OF off] Suc.prems by (intro load64_cong) blast
    show ?case
    proof (cases "present e")
      case False
      then show ?thesis using Suc.IH [OF Suc.prems] es
        by (simp add: Let_def e_def [symmetric] del: of_nat_diff)
    next
      case True
      let ?sub = "if level > 0 \<and> descends level e then listing m (level - 1) (GET_PTE_ADDRESS e) 512 else []"
      have list: "listing m level table (Suc k) = entry_line level (511 - k) e @ ?sub @ listing m level table k"
        using True by (simp add: Let_def e_def [symmetric] del: of_nat_diff)
      have down: "print_entries D (level - 1) (GET_PTE_ADDRESS e) 512 t
          = emit (putc D) (listing m (level - 1) (GET_PTE_ADDRESS e) 512) t"
        if "level > 0" "descends level e" "\<And>x. x \<notin> vga_region \<Longrightarrow> mem t x = m x" for t
      proof (rule outer.IH)
        show "off_screen m (level - 1) (GET_PTE_ADDRESS e)"
          using off_screen_below [OF off] True that(1,2) unfolding e_def by blast
      qed (use that lim in simp_all)
      have sub: "(if level > 0 \<and> descends level e then print_entries D (level - 1) (GET_PTE_ADDRESS e) 512 t
          else Some t) = emit (putc D) ?sub t" if "\<And>x. x \<notin> vga_region \<Longrightarrow> mem t x = m x" for t
        using down [of t, OF _ _ that] by simp
      have "print_entries D level table (Suc k) s
          = Option.bind (emit (putc D) (entry_line level (511 - k) e) s)
              (\<lambda>t. Option.bind (emit (putc D) ?sub t) (emit (putc D) (listing m level table k)))"
        unfolding print_entries_step [OF True [folded es] lim] es
      proof (rule Option.bind_cong [OF refl])
        fix t
        assume "emit (putc D) (entry_line level (511 - k) e) s = Some t"
        from agree_console [OF console.emit_Some(1) [OF live this] Suc.prems]
        have t: "\<And>x. x \<notin> vga_region \<Longrightarrow> mem t x = m x" .
        show "Option.bind (if level > 0 \<and> descends level e
            then print_entries D (level - 1) (GET_PTE_ADDRESS e) 512 t else Some t) (print_entries D level table k)
          = Option.bind (emit (putc D) ?sub t) (emit (putc D) (listing m level table k))"
          unfolding sub [OF t, simplified]
        proof (rule Option.bind_cong [OF refl])
          fix u
          assume "emit (putc D) ?sub t = Some u"
          from agree_console [OF console.emit_Some(1) [OF live this] t]
          show "print_entries D level table k u = emit (putc D) (listing m level table k) u"
            by (intro Suc.IH)
        qed
      qed
      then show ?thesis unfolding list by (simp only: emit_fuse append_assoc)
    qed
  qed
qed

lemma print_pagetable_run:
  assumes "serial_live D" and "off_screen m level table" and "\<And>x. x \<notin> vga_region \<Longrightarrow> mem s x = m x"
    and "level < 2 ^ 64"
  shows "print_pagetable D table level s = emit (putc D) (listing m level table 512) s"
  unfolding print_pagetable_def by (rule print_entries_emit [OF assms])

section \<open>Well-formed tables are off the screen\<close>

lemma tables_off_screen:
  assumes ok: "tables_ok m it" and top: "\<And>i. \<not> huge_page (pte m [i])"
    and p: "table_of m p = Some t" "length p + level = 4" "0 < level"
  shows "off_screen m level t"
  using p
proof (induction level arbitrary: p t)
  case 0
  then show ?case by simp
next
  case (Suc level)
  have len: "length p \<le> 3" using Suc.prems(2,3) by simp
  note al = tables_okD(1) [OF ok Suc.prems(1) len]
  have slots: "span (slot t j) 8 \<inter> vga_region = {}" for j
  proof -
    have "in_tables m x" if "x \<in> span (slot t j) 8" for x
      unfolding in_tables_def using slot_in_table [OF al] that Suc.prems(1) len by blast
    then show ?thesis using vga_above_tables [OF ok] by blast
  qed
  have sub: "off_screen m level (GET_PTE_ADDRESS (load64 m (slot t j)))"
    if e: "present (load64 m (slot t j))" "descends (Suc level) (load64 m (slot t j))" for j
  proof -
    have pte: "pte m (j # p) = load64 m (slot t j)" using Suc.prems(1) by (simp add: pte.simps)
    have "\<not> huge_page (load64 m (slot t j))"
    proof (cases "level = 3")
      case True
      then have "p = []" using Suc.prems(2) by simp
      then show ?thesis using top [of j] pte by simp
    next
      case False
      then show ?thesis using e(2) by (simp add: descends_def)
    qed
    then have "table_of m (j # p) = Some (GET_PTE_ADDRESS (load64 m (slot t j)))"
      using e(1) Suc.prems(1) by (simp add: table_of.simps link_def)
    moreover have "0 < level" using e(2) by (auto simp: descends_def)
    ultimately show ?thesis using Suc.IH [of "j # p"] Suc.prems(2) by simp
  qed
  show ?case using slots sub by simp
qed

section \<open>Properties\<close>

text \<open>C17. On a live port \<open>print_pagetable\<close> returns for tables off the screen, whatever they
  contain, prints exactly the text that \<open>listing\<close> specifies for the memory at the call, and
  touches only console state.\<close>

theorem print_pagetable_lists:
  assumes "serial_live D" and "off_screen (mem s) level table" and "level < 2 ^ 64"
  shows "\<exists>s'. print_pagetable D table level s = Some s' \<and> console_same s s' \<and>
    transmitted (trace s') = transmitted (trace s) @ listing (mem s) level table 512"
  unfolding print_pagetable_run [OF assms(1,2) refl assms(3)] by (rule console.emit_ok [OF assms(1)])

lemma boot_off_screen: "off_screen (setup_paging m) 4 p4table"
proof (rule tables_off_screen [OF boot_tables_ok])
  show "\<not> huge_page (pte (setup_paging m) [i])" for i
    using boot_loads(1) [of m i] by (simp add: pte.simps p4table_def huge_page_def)
  show "table_of (setup_paging m) [] = Some p4table" by simp
qed simp_all

theorem print_pagetable_lists_witness:
  "\<exists>s'. print_pagetable ready_device p4table 4 (boot_machine (\<lambda>_. 0)) = Some s' \<and>
    transmitted (trace s') = listing (setup_paging (\<lambda>_. 0)) 4 p4table 512"
  using print_pagetable_lists [OF ready_device_live, of "boot_machine (\<lambda>_. 0)" 4 p4table] boot_off_screen
  by auto

end
