(* ===== verification/Interrupts.thy ===== *)
theory Interrupts
  imports Listing
begin

text \<open>
  The interrupt descriptor table (\<open>src/interrupts.c\<close>) and the exception handlers
  (\<open>src/exceptions.c\<close>). The table is an array in memory at the address \<open>IDT\<close> that the linker
  gives it; \<open>address\<close> gives the entry points of the handlers, also fixed by the linker. A gate is
  read back the way the hardware reads it.
\<close>

section \<open>The handlers by name\<close>

datatype handler =
    halting_interrupt_handler | div_by_zero_interrupt | debug_interrupt | nmi_interrupt | breakpoint
  | overflow_interrupt | bound_range_exceeded_interrupt | invalid_opcode_interrupt
  | device_not_available_interrupt | double_fault_interrupt | coprocessor_segment_overrun_interrupt
  | invalid_tss_interrupt | segment_not_present_interrupt | stack_segment_fault_interrupt
  | general_protection_fault_interrupt | page_fault_handler | x87_fpu_interrupt
  | alignment_check_interrupt | machine_check_interrupt | simd_floating_point_interrupt
  | virtualization_interrupt | security_exception_interrupt

section \<open>The descriptor table\<close>

text \<open>\<open>IDTOptions\<close> as the 16-bit value of its bit fields, lowest field first.\<close>

record IDTOptions =
  ist_index :: u16
  reserved1 :: u16
  gatetype :: u16
  reserved2 :: u16
  reserved3 :: u16
  privilege :: u16
  gate_present :: u16

definition options_value :: "IDTOptions \<Rightarrow> u16" where
  "options_value o' = take_bit 3 (ist_index o') OR push_bit 3 (take_bit 5 (reserved1 o'))
     OR push_bit 8 (take_bit 1 (gatetype o')) OR push_bit 9 (take_bit 3 (reserved2 o'))
     OR push_bit 12 (take_bit 1 (reserved3 o')) OR push_bit 13 (take_bit 2 (privilege o'))
     OR push_bit 15 (take_bit 1 (gate_present o'))"

definition new_options :: IDTOptions where
  "new_options = \<lparr>ist_index = 0, reserved1 = 0, gatetype = 0, reserved2 = NOT 0, reserved3 = 0,
     privilege = 0, gate_present = 1\<rparr>"

text \<open>The fields of a descriptor are at offsets 0, 2, 4, 6, 8 and 12 of its 16 bytes.\<close>

definition set_interrupt :: "u64 \<Rightarrow> u64 \<Rightarrow> u64 \<Rightarrow> mem \<Rightarrow> mem" where
  "set_interrupt IDT num addr m =
     (let d = IDT + 16 * num;
          m = store16 m (d + 2) 0x8;
          m = store16 m d (ucast addr);
          m = store16 m (d + 6) (ucast (drop_bit 16 addr));
          m = store32 m (d + 8) (ucast (drop_bit 32 addr));
          m = store16 m (d + 4) (options_value new_options)
      in store32 m (d + 12) 0)"

definition interrupt_table :: "(u64 \<times> handler) list" where
  "interrupt_table =
    [(0, div_by_zero_interrupt), (1, debug_interrupt), (2, nmi_interrupt), (3, breakpoint),
     (4, overflow_interrupt), (5, bound_range_exceeded_interrupt), (6, invalid_opcode_interrupt),
     (7, device_not_available_interrupt), (8, double_fault_interrupt),
     (9, coprocessor_segment_overrun_interrupt), (10, invalid_tss_interrupt),
     (11, segment_not_present_interrupt), (12, stack_segment_fault_interrupt),
     (13, general_protection_fault_interrupt), (14, page_fault_handler),
     (15, halting_interrupt_handler), (16, x87_fpu_interrupt), (17, alignment_check_interrupt),
     (18, machine_check_interrupt), (19, simd_floating_point_interrupt),
     (20, virtualization_interrupt), (21, halting_interrupt_handler),
     (22, halting_interrupt_handler), (23, halting_interrupt_handler),
     (24, halting_interrupt_handler), (25, halting_interrupt_handler),
     (26, halting_interrupt_handler), (27, halting_interrupt_handler),
     (28, halting_interrupt_handler), (29, halting_interrupt_handler),
     (30, security_exception_interrupt), (31, halting_interrupt_handler)]"

text \<open>The operand of the instruction: \<open>sizeof(IDT) - 1\<close> with 32 descriptors of 16 bytes, and the table.\<close>

record IDTR =
  idt_limit :: u16
  idt_base :: u64

definition lidt :: "u64 \<Rightarrow> machine \<Rightarrow> machine" where
  "lidt IDT s =
     (let idtr = \<lparr>idt_limit = 32 * 16 - 1, idt_base = IDT\<rparr>
      in event (Lidt (idt_limit idtr) (idt_base idtr)) s)"

definition setup_interrupts :: "u64 \<Rightarrow> (handler \<Rightarrow> u64) \<Rightarrow> machine \<Rightarrow> machine" where
  "setup_interrupts IDT address s =
     lidt IDT (s\<lparr>mem := fold (\<lambda>(num, h). set_interrupt IDT num (address h)) interrupt_table (mem s)\<rparr>)"

section \<open>The handlers\<close>

record InterruptFrame =
  frame_rip :: u64
  frame_cs :: u64
  frame_rflags :: u64
  frame_rsp :: u64
  frame_ss :: u64

text \<open>The message of the handlers that print one string and halt.\<close>

fun message :: "handler \<Rightarrow> string" where
  "message halting_interrupt_handler = ''UNHANDLED INTERRUPT''"
| "message div_by_zero_interrupt = ''DIV BY ZERO INTERRUPT''"
| "message debug_interrupt = ''DEBUG INTERRUPT''"
| "message nmi_interrupt = ''NON MASKABLE INTERRUPT''"
| "message breakpoint = ''BREAKPOINT INTERRUPT''"
| "message overflow_interrupt = ''OVERFLOW INTERRUPT''"
| "message bound_range_exceeded_interrupt = ''BOUND RANGE EXCEEDED INTERRUPT''"
| "message invalid_opcode_interrupt = ''INVALID OPCODE INTERRUPT''"
| "message device_not_available_interrupt = ''DEVICE NOT AVAILABLE INTERRUPT''"
| "message double_fault_interrupt = ''DOUBLE FAULT INTERRUPT''"
| "message coprocessor_segment_overrun_interrupt = ''COPROCESSOR SEGMENT OVERRUN INTERRUPT''"
| "message invalid_tss_interrupt = ''INVALID TSS INTERRUPT''"
| "message segment_not_present_interrupt = ''SEGMENT NOT PRESENT INTERRUPT''"
| "message stack_segment_fault_interrupt = ''STACK SEGMENT FAULT INTERRUPT''"
| "message general_protection_fault_interrupt = ''GENERAL PROTECTION FAULT INTERRUPT''"
| "message page_fault_handler = ''PAGE FAULT EXCEPTION''"
| "message x87_fpu_interrupt = ''X87 FLOATING POINT EXCEPTION INTERRUPT''"
| "message alignment_check_interrupt = ''ALIGNMENT CHECK INTERRUPT''"
| "message machine_check_interrupt = ''MACHINE CHECK INTERRUPT''"
| "message simd_floating_point_interrupt = ''SIMD FLOATING POINT EXCEPTION''"
| "message virtualization_interrupt = ''VIRTUALIZATION INTERRUPT''"
| "message security_exception_interrupt = ''SECURITY EXCEPTION''"

definition print_and_halt :: "device \<Rightarrow> handler \<Rightarrow> machine \<Rightarrow> machine option" where
  "print_and_halt D h s = do { s \<leftarrow> putl D (message h) s; Some (hlt s) }"

definition general_protection_fault :: "device \<Rightarrow> InterruptFrame \<Rightarrow> u64 \<Rightarrow> machine \<Rightarrow> machine option" where
  "general_protection_fault D frm err s = do {
     s \<leftarrow> putl D (message general_protection_fault_interrupt) s;
     s \<leftarrow> putc D nl s;
     s \<leftarrow> putl D ''error code = '' s;
     s \<leftarrow> putx64 D err s;
     s \<leftarrow> putc D nl s;
     s \<leftarrow> putl D ''rip = '' s;
     s \<leftarrow> putx64 D (frame_rip frm) s;
     s \<leftarrow> putc D nl s;
     s \<leftarrow> print_pagetable D (cr3 s) 4 s;
     Some (hlt s) }"

text \<open>\<open>cr2\<close> is the faulting address that the hardware keeps for the handler.\<close>

definition page_fault :: "device \<Rightarrow> u64 \<Rightarrow> u64 \<Rightarrow> machine \<Rightarrow> machine option" where
  "page_fault D errcode cr2 s = do {
     s \<leftarrow> putl D (message page_fault_handler) s;
     s \<leftarrow> putc D nl s;
     s \<leftarrow> putl D ''error code = '' s;
     s \<leftarrow> putx8 D (ucast errcode) s;
     s \<leftarrow> putc D nl s;
     s \<leftarrow> putl D ''CR2 = '' s;
     s \<leftarrow> putx64 D cr2 s;
     s \<leftarrow> putc D nl s;
     s \<leftarrow> putl D ''l4-index = '' s;
     s \<leftarrow> putd D (ucast (l4_index cr2)) s;
     s \<leftarrow> putc D nl s;
     s \<leftarrow> putl D ''l3-index = '' s;
     s \<leftarrow> putd D (ucast (l3_index cr2)) s;
     s \<leftarrow> putc D nl s;
     s \<leftarrow> putl D ''l2-index = '' s;
     s \<leftarrow> putd D (ucast (l2_index cr2)) s;
     s \<leftarrow> putc D nl s;
     s \<leftarrow> putl D ''l1-index = '' s;
     s \<leftarrow> putd D (ucast (l1_index cr2)) s;
     s \<leftarrow> putc D nl s;
     s \<leftarrow> print_pagetable D (cr3 s) 4 s;
     Some (hlt s) }"

text \<open>The code that an exception with a given handler runs.\<close>

definition handle :: "device \<Rightarrow> handler \<Rightarrow> InterruptFrame \<Rightarrow> u64 \<Rightarrow> u64 \<Rightarrow> machine \<Rightarrow> machine option" where
  "handle D h frm err cr2 =
     (case h of
        general_protection_fault_interrupt \<Rightarrow> general_protection_fault D frm err
      | page_fault_handler \<Rightarrow> page_fault D err cr2
      | _ \<Rightarrow> print_and_halt D h)"

section \<open>Gates as the hardware reads them\<close>

text \<open>A gate: handler address, code selector and options.\<close>

type_synonym gate = "u64 \<times> u16 \<times> u16"

definition gate_at :: "mem \<Rightarrow> u64 \<Rightarrow> gate" where
  "gate_at m d = (ucast (load16 m d) OR push_bit 16 (ucast (load16 m (d + 6)))
       OR push_bit 32 (ucast (load32 m (d + 8))), load16 m (d + 2), load16 m (d + 4))"

definition put_gate :: "mem \<Rightarrow> u64 \<Rightarrow> gate \<Rightarrow> mem" where
  "put_gate m d g = (case g of (addr, sel, opt) \<Rightarrow>
     let m = store16 m (d + 2) sel;
         m = store16 m d (ucast addr);
         m = store16 m (d + 6) (ucast (drop_bit 16 addr));
         m = store32 m (d + 8) (ucast (drop_bit 32 addr));
         m = store16 m (d + 4) opt
     in store32 m (d + 12) 0)"

lemma set_interrupt_gate:
  "set_interrupt IDT num addr = (\<lambda>m. put_gate m (IDT + 16 * num) (addr, 0x8, options_value new_options))"
  by (simp add: fun_eq_iff set_interrupt_def put_gate_def Let_def)

lemma options_new: "options_value new_options = 0x8E00"
  by (simp add: options_value_def new_options_def take_bit_eq_mask mask_eq_exp_minus_1)

definition gate_bytes :: "gate \<Rightarrow> u8 list" where
  "gate_bytes g = (case g of (addr, sel, opt) \<Rightarrow>
     bytes_of 2 (ucast addr :: u16) @ bytes_of 2 sel @ bytes_of 2 opt
     @ bytes_of 2 (ucast (drop_bit 16 addr) :: u16) @ bytes_of 4 (ucast (drop_bit 32 addr) :: u32)
     @ bytes_of 4 (0 :: u32))"

lemma length_gate_bytes [simp]: "length (gate_bytes g) = 16"
  by (simp add: gate_bytes_def split: prod.splits)

lemma put_gate_bytes: "put_gate m d g = store_bytes m d (gate_bytes g)"
proof (rule ext)
  fix x
  obtain addr sel opt where g: "g = (addr, sel, opt)" by (cases g)
  have base: "store_bytes m' d bs x = (if unat (x - d) < length bs then bs ! unat (x - d) else m' x)"
    if "length bs < 2 ^ 64" for m' bs
    using that by (simp add: store_bytes_apply in_span)
  define j where "j = unat (x - d)"
  consider "j < 2" | "2 \<le> j" "j < 4" | "4 \<le> j" "j < 6" | "6 \<le> j" "j < 8" | "8 \<le> j" "j < 12"
    | "12 \<le> j" "j < 16" | "16 \<le> j" by linarith
  then show "put_gate m d g x = store_bytes m d (gate_bytes g) x"
    unfolding g put_gate_def gate_bytes_def Let_def prod.case store16_def store32_def
    by cases (simp_all add: store_bytes_field base nth_append j_def [symmetric] less_diff_conv2)
qed

lemma put_gate_out: "x \<notin> span d 16 \<Longrightarrow> put_gate m d g x = m x"
  by (simp add: put_gate_bytes store_bytes_out)

lemma gate_at_cong:
  assumes "load_bytes m d 16 = load_bytes m' d 16"
  shows "gate_at m d = gate_at m' d"
  using assms load_bytes_offset [of 0 2 16 _ d] load_bytes_offset [of 2 2 16 _ d] load_bytes_offset [of 4 2 16 _ d]
    load_bytes_offset [of 6 2 16 _ d] load_bytes_offset [of 8 4 16 _ d]
  by (simp add: gate_at_def load16_def load32_def)

lemma gate_put: "gate_at (put_gate m d g) d = g"
proof -
  obtain addr sel opt where g: "g = (addr, sel, opt)" by (cases g)
  let ?m = "put_gate m d g"
  have b: "load_bytes ?m d 16 = gate_bytes g"
    using load_store_bytes [of "gate_bytes g" m d] by (simp add: put_gate_bytes)
  have parts: "load16 ?m d = ucast addr" "load16 ?m (d + 2) = sel" "load16 ?m (d + 4) = opt"
    "load16 ?m (d + 6) = ucast (drop_bit 16 addr)" "load32 ?m (d + 8) = ucast (drop_bit 32 addr)"
    using load_bytes_offset [of 0 2 16 ?m d] load_bytes_offset [of 2 2 16 ?m d]
      load_bytes_offset [of 4 2 16 ?m d] load_bytes_offset [of 6 2 16 ?m d] load_bytes_offset [of 8 4 16 ?m d]
    by (simp_all add: load16_def load32_def b) (simp_all add: g gate_bytes_def)
  have "ucast (ucast addr :: u16) OR push_bit 16 (ucast (ucast (drop_bit 16 addr) :: u16))
      OR push_bit 32 (ucast (ucast (drop_bit 32 addr) :: u32)) = addr"
    (is "?l = addr")
  proof (rule bit_word_eqI)
    fix n
    assume "n < LENGTH(64)"
    then consider "n < 16" | "16 \<le> n" "n < 32" | "32 \<le> n" "n < 64" by fastforce
    then show "bit ?l n = bit addr n"
      by cases (simp_all add: bit_or_iff bit_push_bit_iff bit_ucast_iff bit_drop_bit_eq less_diff_conv2)
  qed
  then show ?thesis unfolding gate_at_def parts by (simp add: g)
qed

lemma gate_put_apart:
  assumes "span d 16 \<inter> span d' 16 = {}"
  shows "gate_at (put_gate m d g) d' = gate_at m d'"
proof (rule gate_at_cong)
  show "load_bytes (put_gate m d g) d' 16 = load_bytes m d' 16"
    using assms by (intro load_bytes_cong put_gate_out) auto
qed

interpretation gates: cell_store gate_at put_gate "\<lambda>d d'. span d 16 \<inter> span d' 16 = {}"
  by unfold_locales (simp_all add: gate_put gate_put_apart)

section \<open>The table after setup_interrupts\<close>

lemma setup_interrupts_gates:
  "mem (setup_interrupts IDT address s) = fold (\<lambda>p m. put_gate m (IDT + 16 * fst p)
     (address (snd p), 0x8, 0x8E00)) interrupt_table (mem s)"
  by (simp add: setup_interrupts_def lidt_def set_interrupt_gate options_new case_prod_beta')

lemma interrupt_numbers: "map fst interrupt_table = map of_nat [0..<32]"
  by (simp add: interrupt_table_def upt_rec)

lemma interrupt_number:
  assumes "p \<in> set interrupt_table"
  shows "\<exists>k < 32. fst p = of_nat k"
proof -
  have "fst p \<in> set (map fst interrupt_table)" using assms by simp
  then show ?thesis unfolding interrupt_numbers by auto
qed

lemma of_nat_u64_inj: "i < 32 \<Longrightarrow> j < 32 \<Longrightarrow> (of_nat i :: u64) = of_nat j \<longleftrightarrow> i = j"
proof -
  assume ij: "i < 32" "j < 32"
  have "unat (of_nat i :: u64) = i" "unat (of_nat j :: u64) = j"
    using ij by (simp_all add: unat_of_nat)
  then show ?thesis by metis
qed

lemma distinct_interrupts: "distinct (map fst interrupt_table)"
  unfolding interrupt_numbers distinct_map by (auto intro: inj_onI simp: of_nat_u64_inj)

lemma gate_span:
  assumes "k < 32"
  shows "x \<in> span (IDT + 16 * of_nat k) 16 \<longleftrightarrow> 16 * k \<le> unat (x - IDT) \<and> unat (x - IDT) < 16 * k + 16"
  using in_span_offset [of "16 * k" 16 x IDT] assms by simp

lemma gates_disjoint:
  assumes "p \<in> set interrupt_table" and "q \<in> set interrupt_table" and "fst p \<noteq> fst q"
  shows "span (IDT + 16 * fst p) 16 \<inter> span (IDT + 16 * fst q) 16 = {}"
proof -
  obtain i j where i: "i < 32" "fst p = of_nat i" and j: "j < 32" "fst q = of_nat j"
    using interrupt_number [OF assms(1)] interrupt_number [OF assms(2)] by blast
  then have "i \<noteq> j" using assms(3) by auto
  then show ?thesis unfolding i(2) j(2) by (auto simp: gate_span i(1) j(1))
qed

lemma setup_interrupts_at:
  assumes "p \<in> set interrupt_table"
  shows "gate_at (mem (setup_interrupts IDT address s)) (IDT + 16 * fst p) = (address (snd p), 0x8, 0x8E00)"
  unfolding setup_interrupts_gates
proof (rule gates.fill_get [where adr = "\<lambda>p. IDT + 16 * fst p" and val = "\<lambda>p. (address (snd p), 0x8, 0x8E00)"])
  show "distinct interrupt_table" using distinct_interrupts by (simp add: distinct_map)
  show "span (IDT + 16 * fst q) 16 \<inter> span (IDT + 16 * fst p) 16 = {}"
    if "q \<in> set interrupt_table" "q \<noteq> p" for q
  proof (rule gates_disjoint [OF that(1) assms])
    show "fst q \<noteq> fst p"
      using that assms distinct_interrupts by (auto simp: distinct_map dest: inj_onD)
  qed
qed (rule assms)

lemma setup_interrupts_out:
  assumes "x \<notin> span IDT 512"
  shows "mem (setup_interrupts IDT address s) x = mem s x"
proof -
  have "fold (\<lambda>p m. put_gate m (IDT + 16 * fst p) (address (snd p), 0x8, 0x8E00)) ps m x = m x"
    if "set ps \<subseteq> set interrupt_table" for ps m
    using that
  proof (induction ps arbitrary: m)
    case Nil
    then show ?case by simp
  next
    case (Cons p ps)
    obtain k where "k < 32" "fst p = of_nat k" using interrupt_number [of p] Cons.prems by auto
    then have "x \<notin> span (IDT + 16 * fst p) 16"
      using assms gate_span [of k x IDT] by (auto simp: in_span)
    then show ?case using Cons by (simp add: put_gate_out)
  qed
  then show ?thesis unfolding setup_interrupts_gates by simp
qed

lemma setup_interrupts_frame:
  "trace (setup_interrupts IDT address s) = Lidt 511 IDT # trace s"
  "pt_it (setup_interrupts IDT address s) = pt_it s" "cr3 (setup_interrupts IDT address s) = cr3 s"
  "column_counter (setup_interrupts IDT address s) = column_counter s"
  "foreground (setup_interrupts IDT address s) = foreground s"
  "background (setup_interrupts IDT address s) = background s"
  by (simp_all add: setup_interrupts_def lidt_def)

section \<open>Properties\<close>

text \<open>C13. \<open>setup_interrupts\<close> fills the 32 gates, numbered 0 to 31, so that the hardware reads
  back the full 64-bit address of each exception's handler, the code selector 8 and a present
  ring-0 interrupt gate; it loads the table with limit 511 and changes no other memory.\<close>

theorem setup_interrupts_installs:
  "map fst interrupt_table = map of_nat [0..<32] \<and>
   (\<forall>(num, h) \<in> set interrupt_table.
      gate_at (mem (setup_interrupts IDT address s)) (IDT + 16 * num) = (address h, 0x8, 0x8E00)) \<and>
   trace (setup_interrupts IDT address s) = Lidt 511 IDT # trace s \<and>
   (\<forall>x. x \<notin> span IDT 512 \<longrightarrow> mem (setup_interrupts IDT address s) x = mem s x)"
  using interrupt_numbers setup_interrupts_at [of _ IDT address s] setup_interrupts_frame(1) setup_interrupts_out
  by fastforce

theorem setup_interrupts_installs_witness:
  "gate_at (mem (setup_interrupts 0x14000 (\<lambda>h. if h = page_fault_handler then 0x123456789ABCDEF0 else 0)
      (boot_machine (\<lambda>_. 0)))) (0x14000 + 16 * 14) = (0x123456789ABCDEF0, 0x8, 0x8E00)"
proof -
  have "(14, page_fault_handler) \<in> set interrupt_table" by (simp add: interrupt_table_def)
  with setup_interrupts_installs [of "0x14000" "\<lambda>h. if h = page_fault_handler then 0x123456789ABCDEF0 else 0"
      "boot_machine (\<lambda>_. 0)"] show ?thesis by fastforce
qed

section \<open>What the handlers print\<close>

text \<open>The text of each handler, as a function of the tables at the exception.\<close>

definition labelled :: "string \<Rightarrow> u8 list \<Rightarrow> u8 list" where
  "labelled name value = bytes name @ value @ [nl]"

definition handler_text :: "handler \<Rightarrow> InterruptFrame \<Rightarrow> u64 \<Rightarrow> u64 \<Rightarrow> mem \<Rightarrow> u64 \<Rightarrow> u8 list" where
  "handler_text h frm err cr2 m root =
     (case h of
        general_protection_fault_interrupt \<Rightarrow>
          labelled (message h) [] @ labelled ''error code = '' (hex_string 16 (unat err))
          @ labelled ''rip = '' (hex_string 16 (unat (frame_rip frm))) @ listing m 4 root 512
      | page_fault_handler \<Rightarrow>
          labelled (message h) [] @ labelled ''error code = '' (hex_string 2 (unat (ucast err :: u8)))
          @ labelled ''CR2 = '' (hex_string 16 (unat cr2))
          @ labelled ''l4-index = '' (dec_string (unat (l4_index cr2)))
          @ labelled ''l3-index = '' (dec_string (unat (l3_index cr2)))
          @ labelled ''l2-index = '' (dec_string (unat (l2_index cr2)))
          @ labelled ''l1-index = '' (dec_string (unat (l1_index cr2))) @ listing m 4 root 512
      | _ \<Rightarrow> bytes (message h))"

lemma print_then_list:
  assumes live: "serial_live D" and off: "off_screen (mem s) 4 (cr3 s)"
  shows "Option.bind (emit (putc D) xs s) (\<lambda>t. Option.bind (print_pagetable D (cr3 t) 4 t) (\<lambda>t. Some (hlt t)))
    = Option.bind (emit (putc D) (xs @ listing (mem s) 4 (cr3 s) 512) s) (\<lambda>t. Some (hlt t))"
proof -
  have "Option.bind (print_pagetable D (cr3 t) 4 t) (\<lambda>t. Some (hlt t))
      = Option.bind (emit (putc D) (listing (mem s) 4 (cr3 s) 512) t) (\<lambda>t. Some (hlt t))"
    if "emit (putc D) xs s = Some t" for t
  proof -
    have same: "console_same s t" by (rule console.emit_Some(1) [OF live that])
    then have "cr3 t = cr3 s" by (simp add: console_same_def)
    then show ?thesis
      using print_pagetable_run [OF live off, of t] same by (simp add: console_same_def)
  qed
  then have "Option.bind (emit (putc D) xs s) (\<lambda>t. Option.bind (print_pagetable D (cr3 t) 4 t) (\<lambda>t. Some (hlt t)))
      = Option.bind (emit (putc D) xs s) (\<lambda>t. Option.bind (emit (putc D) (listing (mem s) 4 (cr3 s) 512) t) (\<lambda>t. Some (hlt t)))"
    by (intro Option.bind_cong [OF refl])
  then show ?thesis by (simp only: emit_fuse)
qed

lemma unat_index_u64 [simp]: "unat (ucast i :: u64) = unat i" for i :: index
  by (rule unat_ucast_up) simp

lemma handle_emit:
  assumes live: "serial_live D" and off: "off_screen (mem s) 4 (cr3 s)"
  shows "handle D h frm err cr2 s
    = Option.bind (emit (putc D) (handler_text h frm err cr2 (mem s) (cr3 s)) s) (\<lambda>t. Some (hlt t))"
proof (cases "h = general_protection_fault_interrupt \<or> h = page_fault_handler")
  case True
  then show ?thesis
  proof
    assume h: "h = general_protection_fault_interrupt"
    show ?thesis
      unfolding h handle_def handler_text_def handler.case general_protection_fault_def
      by (simp add: console_emit emit_fuse print_then_list [OF live off] labelled_def del: emit.simps)
  next
    assume h: "h = page_fault_handler"
    show ?thesis
      unfolding h handle_def handler_text_def handler.case page_fault_def
      by (simp add: console_emit emit_fuse print_then_list [OF live off] labelled_def del: emit.simps)
  qed
next
  case False
  then show ?thesis
    by (cases h) (simp_all add: handle_def handler_text_def print_and_halt_def putl_emit)
qed

text \<open>C16. Every exception handler terminates on a live port when the page tables are off the
  screen: it sends exactly its text, for the general protection and the page fault with the error
  code, the address, the table indices and the listing of the tables, touches only console state,
  and stops the processor.\<close>

theorem handlers_report:
  assumes "serial_live D" and "off_screen (mem s) 4 (cr3 s)"
  shows "\<exists>t. handle D h frm err cr2 s = Some (hlt t) \<and> console_same s t \<and>
    transmitted (trace t) = transmitted (trace s) @ handler_text h frm err cr2 (mem s) (cr3 s)"
proof -
  obtain t where "emit (putc D) (handler_text h frm err cr2 (mem s) (cr3 s)) s = Some t" "console_same s t"
    "transmitted (trace t) = transmitted (trace s) @ handler_text h frm err cr2 (mem s) (cr3 s)"
    using console.emit_ok [OF assms(1)] by blast
  then show ?thesis by (intro exI [of _ t]) (simp add: handle_emit [OF assms])
qed

definition sample_frame :: InterruptFrame where
  "sample_frame = \<lparr>frame_rip = 0x10400, frame_cs = 8, frame_rflags = 2, frame_rsp = 0x6FF00, frame_ss = 0\<rparr>"

theorem handlers_report_witness:
  "\<exists>t. handle ready_device page_fault_handler sample_frame 2 0xFFFF800000000000 (boot_machine (\<lambda>_. 0)) = Some (hlt t) \<and>
    transmitted (trace t) = handler_text page_fault_handler sample_frame 2 0xFFFF800000000000 (setup_paging (\<lambda>_. 0)) p4table"
  using handlers_report [OF ready_device_live, of "boot_machine (\<lambda>_. 0)" page_fault_handler sample_frame 2 "0xFFFF800000000000"]
    boot_off_screen by auto

end
