(* ===== verification/Memmap.thy ===== *)
theory Memmap
  imports PhysicalMap
begin

text \<open>
  The BIOS memory map that the master boot record leaves at 0x500 (\<open>include/bios_memory_map.h\<close>) and
  the two functions of \<open>src/main.c\<close> that read it: \<open>scan_bios_memmap\<close> and
  \<open>allocate_space_for_kernel\<close>. The map ends at the first region of type 0; without one the loops
  go on through memory, so they are partial functions.
\<close>

section \<open>Regions\<close>

record BiosMemoryRegion =
  base_address :: u64
  map_size :: u64
  region_type :: u32
  acpi3 :: u32

definition BIOS_MAP_FREE_MEMORY :: u32 where "BIOS_MAP_FREE_MEMORY = 1"
definition BIOS_MAP_RESERVED :: u32 where "BIOS_MAP_RESERVED = 2"
definition BIOS_MAP_ACPI_RECLAIM :: u32 where "BIOS_MAP_ACPI_RECLAIM = 3"
definition BIOS_MAP_ACPI_NVS :: u32 where "BIOS_MAP_ACPI_NVS = 4"
definition BIOS_BAD_MEMORY :: u32 where "BIOS_BAD_MEMORY = 5"

lemmas bios_types = BIOS_MAP_FREE_MEMORY_def BIOS_MAP_RESERVED_def BIOS_MAP_ACPI_RECLAIM_def
  BIOS_MAP_ACPI_NVS_def BIOS_BAD_MEMORY_def

definition BIOS_MEMORY_MAP_LOCATION :: u64 where "BIOS_MEMORY_MAP_LOCATION = 0x0500"

text \<open>The packed 24-byte structure at an address.\<close>

definition region_at :: "mem \<Rightarrow> u64 \<Rightarrow> BiosMemoryRegion" where
  "region_at m a = \<lparr>base_address = load64 m a, map_size = load64 m (a + 8),
     region_type = load32 m (a + 16), acpi3 = load32 m (a + 20)\<rparr>"

section \<open>scan_bios_memmap\<close>

definition print_type :: "device \<Rightarrow> u32 \<Rightarrow> machine \<Rightarrow> machine option" where
  "print_type D t s =
     (if t = BIOS_MAP_FREE_MEMORY then putl D '' - FREE MEMORY (1)'' s
      else if t = BIOS_MAP_RESERVED then putl D '' - RESERVED (2)'' s
      else if t = BIOS_MAP_ACPI_RECLAIM then putl D '' - ACPI RECLAIM (3)'' s
      else if t = BIOS_MAP_ACPI_NVS then putl D '' - ACPI NVS (4)'' s
      else if t = BIOS_BAD_MEMORY then putl D '' - BAD MEMORY (5)'' s
      else Some s)"

text \<open>The body of the loop: the fields are read again from memory at each use.\<close>

definition scan_region :: "device \<Rightarrow> u64 \<Rightarrow> u64 \<Rightarrow> machine \<Rightarrow> (u64 \<times> machine) option" where
  "scan_region D memmap total_memory s = do {
     s \<leftarrow> putl D ''0x'' s;
     s \<leftarrow> putx64 D (base_address (region_at (mem s) memmap)) s;
     s \<leftarrow> putl D '' - 0x'' s;
     s \<leftarrow> putx64 D (base_address (region_at (mem s) memmap) + map_size (region_at (mem s) memmap)) s;
     let t = region_type (region_at (mem s) memmap);
     s \<leftarrow> print_type D t s;
     let total_memory = (if t = BIOS_MAP_FREE_MEMORY
       then total_memory + map_size (region_at (mem s) memmap) else total_memory);
     s \<leftarrow> putc D nl s;
     Some (total_memory, s) }"

partial_function (option) scan_loop ::
    "device \<Rightarrow> u64 \<Rightarrow> u64 \<Rightarrow> machine \<Rightarrow> (u64 \<times> machine) option" where
  "scan_loop D memmap total_memory s =
     (if region_type (region_at (mem s) memmap) \<noteq> 0
      then do {
        (total_memory, s) \<leftarrow> scan_region D memmap total_memory s;
        scan_loop D (memmap + 24) total_memory s }
      else Some (total_memory, s))"

definition scan_bios_memmap :: "device \<Rightarrow> machine \<Rightarrow> (u64 \<times> machine) option" where
  "scan_bios_memmap D s = do {
     (total_memory, s) \<leftarrow> scan_loop D BIOS_MEMORY_MAP_LOCATION 0 s;
     s \<leftarrow> putl D ''Total Size of Usable Memory: '' s;
     s \<leftarrow> putd D total_memory s;
     s \<leftarrow> putc D nl s;
     Some (total_memory, s) }"

section \<open>allocate_space_for_kernel\<close>

definition MINBASE :: u64 where "MINBASE = 0x100000"

partial_function (option) allocate_loop :: "mem \<Rightarrow> u64 \<Rightarrow> u64 \<Rightarrow> u64 option" where
  "allocate_loop m mem_size memmap =
     (if region_type (region_at m memmap) \<noteq> 0
      then if base_address (region_at m memmap) < MINBASE then allocate_loop m mem_size (memmap + 24)
        else if map_size (region_at m memmap) < mem_size then allocate_loop m mem_size (memmap + 24)
        else if region_type (region_at m memmap) = BIOS_MAP_FREE_MEMORY
          then Some (physical_to_virtual_pointer (base_address (region_at m memmap)))
        else allocate_loop m mem_size (memmap + 24)
      else Some 0)"

definition allocate_space_for_kernel :: "u64 \<Rightarrow> machine \<Rightarrow> u64 option" where
  "allocate_space_for_kernel mem_size s = allocate_loop (mem s) mem_size BIOS_MEMORY_MAP_LOCATION"

section \<open>A map as a list of regions\<close>

primrec map_at :: "mem \<Rightarrow> u64 \<Rightarrow> BiosMemoryRegion list \<Rightarrow> bool" where
  "map_at m a [] \<longleftrightarrow> region_type (region_at m a) = 0"
| "map_at m a (r # rs) \<longleftrightarrow> region_at m a = r \<and> region_type r \<noteq> 0 \<and> map_at m (a + 24) rs"

definition free_total :: "BiosMemoryRegion list \<Rightarrow> u64" where
  "free_total rs = sum_list (map map_size (filter (\<lambda>r. region_type r = BIOS_MAP_FREE_MEMORY) rs))"

definition type_text :: "u32 \<Rightarrow> u8 list" where
  "type_text t = bytes (if t = 1 then '' - FREE MEMORY (1)'' else if t = 2 then '' - RESERVED (2)''
     else if t = 3 then '' - ACPI RECLAIM (3)'' else if t = 4 then '' - ACPI NVS (4)''
     else if t = 5 then '' - BAD MEMORY (5)'' else [])"

definition region_line :: "BiosMemoryRegion \<Rightarrow> u8 list" where
  "region_line r = bytes ''0x'' @ hex_string 16 (unat (base_address r)) @ bytes '' - 0x''
     @ hex_string 16 (unat (base_address r + map_size r)) @ type_text (region_type r) @ [nl]"

definition suitable :: "u64 \<Rightarrow> BiosMemoryRegion \<Rightarrow> bool" where
  "suitable mem_size r \<longleftrightarrow> region_type r = BIOS_MAP_FREE_MEMORY \<and> MINBASE \<le> base_address r \<and>
     mem_size \<le> map_size r"

lemma region_at_cong:
  assumes "\<And>x. x \<in> span a 24 \<Longrightarrow> m' x = m x"
  shows "region_at m' a = region_at m a"
proof -
  have sub: "m' x = m x" if "k + n \<le> 24" "x \<in> span (a + of_nat k) n" for x k n
  proof (rule assms)
    show "x \<in> span a 24" using that in_span_offset [of k n x a] by (simp add: in_span)
  qed
  show ?thesis
    using sub [of 0 8] sub [of 8 8] sub [of 16 4] sub [of 20 4]
    by (simp add: region_at_def) (intro conjI load64_cong load32_cong; simp)
qed

lemma map_at_cong:
  assumes "\<And>x. x \<in> span a (24 * (length rs + 1)) \<Longrightarrow> m' x = m x" and "24 * (length rs + 1) < 2 ^ 64"
  shows "map_at m' a rs = map_at m a rs"
  using assms
proof (induction rs arbitrary: a)
  case Nil
  then show ?case using region_at_cong [of a m' m] by simp
next
  case (Cons r rs)
  have "m' x = m x" if "x \<in> span a 24" for x
    using that by (intro Cons.prems(1)) (auto simp: in_span)
  then have here: "region_at m' a = region_at m a" by (rule region_at_cong)
  have "m' x = m x" if "x \<in> span (a + 24) (24 * (length rs + 1))" for x
    using that in_span_offset [of 24 "24 * (length rs + 1)" x a] Cons.prems
    by (intro Cons.prems(1)) (auto simp: in_span)
  then show ?case using Cons.IH [of "a + 24"] Cons.prems(2) here by simp
qed

section \<open>Scanning\<close>

lemma region_console:
  assumes "console_same s t" and "span a 24 \<inter> vga_region = {}"
  shows "region_at (mem t) a = region_at (mem s) a"
  using assms by (intro region_at_cong) (auto simp: console_same_def)

lemma print_type_emit: "print_type D t = emit (putc D) (type_text t)"
  by (simp add: fun_eq_iff print_type_def bios_types type_text_def putl_emit)
    (simp add: bytes_def)

lemma scan_region_run:
  assumes live: "serial_live D" and off: "span a 24 \<inter> vga_region = {}" and r: "region_at (mem s) a = r"
  shows "\<exists>s'. scan_region D a total_memory s
      = Some (if region_type r = BIOS_MAP_FREE_MEMORY then total_memory + map_size r else total_memory, s') \<and>
    console_same s s' \<and> transmitted (trace s') = transmitted (trace s) @ region_line r"
proof -
  have reg: "region_at (mem t) a = r" if "console_same s t" for t
    using region_console [OF that off] r by simp
  note ok = console.emit_ok [OF live]
  obtain s1 where 1: "emit (putc D) (bytes ''0x'') s = Some s1" "console_same s s1"
    "transmitted (trace s1) = transmitted (trace s) @ bytes ''0x''" using ok by blast
  obtain s2 where 2: "emit (putc D) (hex_string 16 (unat (base_address r)) @ bytes '' - 0x'') s1 = Some s2"
    "console_same s1 s2" "transmitted (trace s2) = transmitted (trace s1)
      @ hex_string 16 (unat (base_address r)) @ bytes '' - 0x''" using ok by blast
  obtain s3 where 3: "emit (putc D) (hex_string 16 (unat (base_address r + map_size r))) s2 = Some s3"
    "console_same s2 s3" "transmitted (trace s3) = transmitted (trace s2)
      @ hex_string 16 (unat (base_address r + map_size r))" using ok by blast
  obtain s4 where 4: "emit (putc D) (type_text (region_type r)) s3 = Some s4" "console_same s3 s4"
    "transmitted (trace s4) = transmitted (trace s3) @ type_text (region_type r)" using ok by blast
  obtain s5 where 5: "emit (putc D) [nl] s4 = Some s5" "console_same s4 s5"
    "transmitted (trace s5) = transmitted (trace s4) @ [nl]" using ok by blast
  have c2: "console_same s s2" using 1(2) 2(2) console_same_trans by blast
  have c3: "console_same s s3" using c2 3(2) console_same_trans by blast
  have c4: "console_same s s4" using c3 4(2) console_same_trans by blast
  have c5: "console_same s s5" using c4 5(2) console_same_trans by blast
  obtain s2' where h2: "emit (putc D) (hex_string 16 (unat (base_address r))) s1 = Some s2'"
    "emit (putc D) (bytes '' - 0x'') s2' = Some s2"
    using 2(1) by (auto simp: emit_append split: Option.bind_splits)
  have "scan_region D a total_memory s
      = Some (if region_type r = BIOS_MAP_FREE_MEMORY then total_memory + map_size r else total_memory, s5)"
    using 1(1) h2 3(1) 4(1) 5(1)
    by (simp add: scan_region_def console_emit print_type_emit reg [OF 1(2)] reg [OF c2] reg [OF c3] reg [OF c4]
        Let_def del: emit.simps)
  then show ?thesis
    using c5 1(3) 2(3) 3(3) 4(3) 5(3) by (intro exI [of _ s5]) (simp add: region_line_def)
qed

lemma scan_loop_run:
  assumes live: "serial_live D" and "map_at (mem s) a rs"
    and "span a (24 * (length rs + 1)) \<inter> vga_region = {}" and "24 * (length rs + 1) < 2 ^ 64"
  shows "\<exists>s'. scan_loop D a total_memory s = Some (total_memory + free_total rs, s') \<and> console_same s s' \<and>
    transmitted (trace s') = transmitted (trace s) @ concat (map region_line rs)"
  using assms(2-)
proof (induction rs arbitrary: a total_memory s)
  case Nil
  then have "\<not> region_type (region_at (mem s) a) \<noteq> 0" by simp
  then have "scan_loop D a total_memory s = Some (total_memory, s)"
    by (subst scan_loop.simps) (rule if_not_P)
  then show ?case by (simp add: free_total_def console_same_refl)
next
  case (Cons r rs)
  have r: "region_at (mem s) a = r" "region_type r \<noteq> 0" and rs: "map_at (mem s) (a + 24) rs"
    using Cons.prems(1) by simp_all
  have sub: "span a 24 \<subseteq> span a (24 * (length (r # rs) + 1))"
    "span (a + 24) (24 * (length rs + 1)) \<subseteq> span a (24 * (length (r # rs) + 1))"
    using in_span_offset [of 24 "24 * (length rs + 1)" _ a] Cons.prems(3) by (auto simp: in_span)
  have off: "span a 24 \<inter> vga_region = {}" "span (a + 24) (24 * (length rs + 1)) \<inter> vga_region = {}"
    using sub Cons.prems(2) by blast+
  obtain t where t: "scan_region D a total_memory s
      = Some (if region_type r = BIOS_MAP_FREE_MEMORY then total_memory + map_size r else total_memory, t)"
    "console_same s t" "transmitted (trace t) = transmitted (trace s) @ region_line r"
    using scan_region_run [OF live off(1) r(1)] by blast
  have "mem t x = mem s x" if "x \<in> span (a + 24) (24 * (length rs + 1))" for x
    using that off(2) t(2) by (auto simp: console_same_def)
  then have rs': "map_at (mem t) (a + 24) rs"
    using rs Cons.prems(3) by (subst map_at_cong [of "a + 24" rs "mem t" "mem s"]) auto
  let ?total = "if region_type r = BIOS_MAP_FREE_MEMORY then total_memory + map_size r else total_memory"
  obtain u where u: "scan_loop D (a + 24) ?total t = Some (?total + free_total rs, u)" "console_same t u"
    "transmitted (trace u) = transmitted (trace t) @ concat (map region_line rs)"
    using Cons.IH [OF rs' off(2), of ?total] Cons.prems(3) by auto
  have "region_type (region_at (mem s) a) \<noteq> 0" using r by simp
  then have "scan_loop D a total_memory s = Some (?total + free_total rs, u)"
    by (subst scan_loop.simps) (simp add: t(1) u(1))
  moreover have "?total + free_total rs = total_memory + free_total (r # rs)"
    by (simp add: free_total_def algebra_simps)
  ultimately show ?case
    using u(2,3) t(2,3) console_same_trans by (intro exI [of _ u]) auto
qed

lemma scan_run:
  assumes live: "serial_live D" and "map_at (mem s) BIOS_MEMORY_MAP_LOCATION rs"
    and "span BIOS_MEMORY_MAP_LOCATION (24 * (length rs + 1)) \<inter> vga_region = {}"
    and "24 * (length rs + 1) < 2 ^ 64"
  shows "\<exists>s'. scan_bios_memmap D s = Some (free_total rs, s') \<and> console_same s s' \<and>
    transmitted (trace s') = transmitted (trace s) @ concat (map region_line rs)
      @ bytes ''Total Size of Usable Memory: '' @ dec_string (unat (free_total rs)) @ [nl]"
proof -
  obtain t where t: "scan_loop D BIOS_MEMORY_MAP_LOCATION 0 s = Some (0 + free_total rs, t)" "console_same s t"
    "transmitted (trace t) = transmitted (trace s) @ concat (map region_line rs)"
    using scan_loop_run [OF assms, of 0] by blast
  let ?sumline = "bytes ''Total Size of Usable Memory: '' @ dec_string (unat (free_total rs)) @ [nl]"
  obtain u where u: "emit (putc D) ?sumline t = Some u" "console_same t u"
    "transmitted (trace u) = transmitted (trace t) @ ?sumline"
    using console.emit_ok [OF live] by blast
  have "scan_bios_memmap D s
      = Option.bind (emit (putc D) ?sumline t) (\<lambda>s. Some (free_total rs, s))"
    using t(1) by (simp add: scan_bios_memmap_def) (simp add: console_emit emit_fuse del: emit.simps)
  then show ?thesis
    using u t(2,3) console_same_trans by (intro exI [of _ u]) auto
qed

section \<open>Allocating\<close>

lemma allocate_loop_run:
  assumes "map_at m a rs"
  shows "allocate_loop m mem_size a = Some (case find (suitable mem_size) rs of
     None \<Rightarrow> 0 | Some r \<Rightarrow> physical_to_virtual_pointer (base_address r))"
  using assms
proof (induction rs arbitrary: a)
  case Nil
  then show ?case by (subst allocate_loop.simps) simp
next
  case (Cons r rs)
  then show ?case
    using suitable_def [of mem_size r] by (subst allocate_loop.simps) (auto simp: not_less)
qed

section \<open>The map as bytes\<close>

definition region_bytes :: "BiosMemoryRegion \<Rightarrow> u8 list" where
  "region_bytes r = bytes_of 8 (base_address r) @ bytes_of 8 (map_size r) @ bytes_of 4 (region_type r)
     @ bytes_of 4 (acpi3 r)"

definition map_bytes :: "BiosMemoryRegion list \<Rightarrow> u8 list" where
  "map_bytes rs = concat (map region_bytes rs) @ replicate 24 0"

lemma length_region_bytes [simp]: "length (region_bytes r) = 24"
  by (simp add: region_bytes_def)

lemma length_map_bytes [simp]: "length (map_bytes rs) = 24 * (length rs + 1)"
  by (induction rs) (simp_all add: map_bytes_def)

lemma region_at_bytes:
  assumes "load_bytes m a 24 = region_bytes r"
  shows "region_at m a = r"
  using load_bytes_offset [of 0 8 24 m a] load_bytes_offset [of 8 8 24 m a]
    load_bytes_offset [of 16 4 24 m a] load_bytes_offset [of 20 4 24 m a]
  by (simp add: region_at_def load64_def load32_def assms) (simp add: region_bytes_def)

lemma map_at_bytes:
  assumes "load_bytes m a (24 * (length rs + 1)) = map_bytes rs" and "\<forall>r \<in> set rs. region_type r \<noteq> 0"
  shows "map_at m a rs"
  using assms
proof (induction rs arbitrary: a)
  case Nil
  have "load_bytes m a 24 = region_bytes \<lparr>base_address = 0, map_size = 0, region_type = 0, acpi3 = 0\<rparr>"
    using Nil(1) by (simp add: map_bytes_def region_bytes_def bytes_of_def map_replicate_const [symmetric]
        upt_rec numeral_eq_Suc)
  from region_at_bytes [OF this] show ?case by simp
next
  case (Cons r rs)
  have "load_bytes m a 24 = take 24 (map_bytes (r # rs))"
    using load_bytes_offset [of 0 24 "24 * (length (r # rs) + 1)" m a] Cons.prems(1) by simp
  then have "region_at m a = r"
    by (intro region_at_bytes) (simp add: map_bytes_def)
  moreover have "load_bytes m (a + 24) (24 * (length rs + 1))
      = take (24 * (length rs + 1)) (drop 24 (map_bytes (r # rs)))"
    using load_bytes_offset [of 24 "24 * (length rs + 1)" "24 * (length (r # rs) + 1)" m a] Cons.prems(1)
    by simp
  then have "load_bytes m (a + 24) (24 * (length rs + 1)) = map_bytes rs"
    using length_map_bytes [of rs] by (simp add: map_bytes_def)
  ultimately show ?case using Cons by simp
qed

section \<open>Properties\<close>

text \<open>C24. When the memory map lies off the screen, \<open>scan_bios_memmap\<close> terminates with the sum of
  the sizes of the free regions, modulo \<open>2 ^ 64\<close>, prints one line per region in order and then the
  sum in decimal, and touches only console state.\<close>

theorem scan_sums_free_regions:
  assumes "serial_live D" and "map_at (mem s) BIOS_MEMORY_MAP_LOCATION rs"
    and "span BIOS_MEMORY_MAP_LOCATION (24 * (length rs + 1)) \<inter> vga_region = {}"
    and "24 * (length rs + 1) < 2 ^ 64"
  shows "\<exists>s'. scan_bios_memmap D s = Some (free_total rs, s') \<and> console_same s s' \<and>
    transmitted (trace s') = transmitted (trace s) @ concat (map region_line rs)
      @ bytes ''Total Size of Usable Memory: '' @ dec_string (unat (free_total rs)) @ [nl]"
  by (rule scan_run [OF assms])

text \<open>A map of a small machine: conventional memory, the reserved BIOS area, 512 MiB from 1 MiB.\<close>

definition sample_regions :: "BiosMemoryRegion list" where
  "sample_regions =
    [\<lparr>base_address = 0, map_size = 0x9FC00, region_type = 1, acpi3 = 1\<rparr>,
     \<lparr>base_address = 0xF0000, map_size = 0x10000, region_type = 2, acpi3 = 1\<rparr>,
     \<lparr>base_address = 0x100000, map_size = 0x20000000, region_type = 1, acpi3 = 1\<rparr>]"

definition sample_map_memory :: mem where
  "sample_map_memory = store_bytes (\<lambda>_. 0) BIOS_MEMORY_MAP_LOCATION (map_bytes sample_regions)"

lemma sample_map: "map_at sample_map_memory BIOS_MEMORY_MAP_LOCATION sample_regions"
proof (rule map_at_bytes)
  show "load_bytes sample_map_memory BIOS_MEMORY_MAP_LOCATION (24 * (length sample_regions + 1))
      = map_bytes sample_regions"
    unfolding sample_map_memory_def length_map_bytes [symmetric]
    by (rule load_store_bytes) (simp add: sample_regions_def)
  show "\<forall>r \<in> set sample_regions. region_type r \<noteq> 0" by (simp add: sample_regions_def)
qed

lemma sample_map_off_screen:
  "span BIOS_MEMORY_MAP_LOCATION (24 * (length sample_regions + 1)) \<inter> vga_region = {}"
  unfolding vga_region_def by (rule span_disjoint) (simp_all add: BIOS_MEMORY_MAP_LOCATION_def sample_regions_def vga_buffer_def)

theorem scan_sums_free_regions_witness:
  "\<exists>s'. scan_bios_memmap ready_device (sample_state\<lparr>mem := sample_map_memory\<rparr>) = Some (0x2009FC00, s')"
proof -
  have "free_total sample_regions = 0x2009FC00"
    by (simp add: free_total_def sample_regions_def bios_types)
  then show ?thesis
    using scan_sums_free_regions [OF ready_device_live, of "sample_state\<lparr>mem := sample_map_memory\<rparr>" sample_regions]
      sample_map sample_map_off_screen by (auto simp: sample_regions_def)
qed

text \<open>C25. \<open>allocate_space_for_kernel\<close> terminates on a terminated map and returns the window
  pointer to the first free region of at least the size asked for that starts at or above 1 MiB,
  and the null pointer when there is none.\<close>

theorem allocate_first_fit:
  assumes "map_at (mem s) BIOS_MEMORY_MAP_LOCATION rs"
  shows "allocate_space_for_kernel mem_size s = Some (case find (suitable mem_size) rs of
    None \<Rightarrow> 0 | Some r \<Rightarrow> physical_to_virtual_pointer (base_address r))"
  unfolding allocate_space_for_kernel_def by (rule allocate_loop_run [OF assms])

theorem allocate_first_fit_witness:
  "allocate_space_for_kernel 0x10000000 (sample_state\<lparr>mem := sample_map_memory\<rparr>) = Some 0xFFFF800000100000 \<and>
   allocate_space_for_kernel 0x40000000 (sample_state\<lparr>mem := sample_map_memory\<rparr>) = Some 0"
  using allocate_first_fit [of "sample_state\<lparr>mem := sample_map_memory\<rparr>" sample_regions "0x10000000"]
    allocate_first_fit [of "sample_state\<lparr>mem := sample_map_memory\<rparr>" sample_regions "0x40000000"] sample_map
  by (simp add: sample_regions_def suitable_def bios_types MINBASE_def physical_to_virtual_pointer_def
      physical_to_virtual_address_def)

end
