(* ===== verification/Boot.thy ===== *)
theory Boot
  imports KernelMap Archive Interrupts Memmap
begin

text \<open>
  The boot procedure itself (\<open>cboot_main\<close> and \<open>halt\<close> of \<open>src/main.c\<close>,
  \<open>include/bootinfo.h\<close>). The arrays of its callees and the structure handed to the kernel are in
  stack frames, whose addresses are a parameter. The kernel is not part of the program: the procedure
  ends with the jump to its entry point, in \<open>halt\<close>, or where an access through the tables stops: the
  self-test of the window and the clearing of the kernel's memory, whose address is that of a region of
  the BIOS map or null. The other accesses are to memory below 2 MiB, which the boot tables map and
  nothing unmaps, or to the memory cleared.
\<close>

section \<open>Operations\<close>

record boot_frame =
  gpt_buf :: u64
  ustar_buf :: u64
  ustar_name :: u64
  boot_info :: u64

text \<open>The fields of the structure at \<open>boot_info\<close>.\<close>

definition bios_memory_map_address :: "u64 \<Rightarrow> u64" where "bios_memory_map_address p = p"
definition kernel_paddr :: "u64 \<Rightarrow> u64" where "kernel_paddr p = p + 8"
definition kernel_size :: "u64 \<Rightarrow> u64" where "kernel_size p = p + 16"

datatype outcome = Halted machine | Jumped u64 u64 machine | Stopped stop machine

definition halt :: "device \<Rightarrow> machine \<Rightarrow> outcome option" where
  "halt D s = do { s \<leftarrow> putl D ''Halting'' s; Some (Halted s) }"

definition kernel_path :: view where
  "kernel_path = lit (bytes ''/sys/kernel.elf'')"

text \<open>The interrupt table, the serial port and the structure for the kernel.\<close>

definition start_console ::
    "device \<Rightarrow> u64 \<Rightarrow> (handler \<Rightarrow> u64) \<Rightarrow> boot_frame \<Rightarrow> machine \<Rightarrow> machine option" where
  "start_console D idt handlers fr s = do {
     let s = setup_interrupts idt handlers s;
     let (_, s) = init_serial D s;
     m \<leftarrow> memset (mem s) (boot_info fr) 0 24;
     let s = s\<lparr>mem := m\<rparr>;
     s \<leftarrow> putln D ''Hello, World from the bootloader'' s;
     putln D ''Bios Physical Memory Maps'' s }"

definition find_root :: "device \<Rightarrow> boot_frame \<Rightarrow> machine \<Rightarrow> (GPTEntry \<times> machine) option" where
  "find_root D fr s = do {
     (gpte, s) \<leftarrow> find_partition_by_name D (gpt_buf fr) (lit (bytes ''OSDEV Root Partition'')) s;
     s \<leftarrow> (if starting_lba gpte \<noteq> 0 \<and> ending_lba gpte \<noteq> 0
          then putln D ''Partition Found, Time to load the operating system'' s else Some s);
     Some (gpte, s) }"

definition find_kernel_size :: "device \<Rightarrow> boot_frame \<Rightarrow> GPTEntry \<Rightarrow> machine \<Rightarrow> machine option" where
  "find_kernel_size D fr gpte s = do {
     (isfound, kernel_filesize, s) \<leftarrow> ustar_get_num_sectors D (ustar_buf fr) (ustar_name fr) gpte kernel_path 0 s;
     let kernel_filesize = kernel_filesize * 512;
     if isfound \<noteq> 0
     then putln D ''Unable To File the kernel executable file'' s
     else do {
       s \<leftarrow> putl D ''Kernel Size On Disk = '' s;
       s \<leftarrow> putd D kernel_filesize s;
       putc D nl s } }"

text \<open>From the call of \<open>map_kernel\<close> on.\<close>

definition start_kernel :: "device \<Rightarrow> boot_frame \<Rightarrow> u64 \<Rightarrow> u64 \<Rightarrow> machine \<Rightarrow> outcome option" where
  "start_kernel D fr exe kaddr s = do {
     (entry, s) \<leftarrow> map_kernel D kaddr exe (kernel_size (boot_info fr)) s;
     s \<leftarrow> putln D ''KERNEL MAPPED, JUMPING TO KERNEL'' s;
     let s = s\<lparr>mem := store64 (mem s) (bios_memory_map_address (boot_info fr)) 0x500\<rparr>;
     let s = s\<lparr>mem := store64 (mem s) (kernel_paddr (boot_info fr)) (exe AND NOT 0xFFFFE00000000000)\<rparr>;
     Some (Jumped entry (boot_info fr) s) }"

text \<open>From the split of the memory allocated on.\<close>

definition load_kernel_file :: "device \<Rightarrow> boot_frame \<Rightarrow> GPTEntry \<Rightarrow> u64 \<Rightarrow> machine \<Rightarrow> outcome option" where
  "load_kernel_file D fr gpte exe s = do {
     let kaddr = exe + 167772160;
     s \<leftarrow> putln D ''Loading kernel'' s;
     (bytes_loaded, s) \<leftarrow> ustar_load_file D (ustar_buf fr) (ustar_name fr) gpte kernel_path kaddr s;
     if bytes_loaded = 0
     then do {
       s \<leftarrow> putl D ''Error loading kernel file'' s;
       halt D s }
     else do {
       s \<leftarrow> putln D ''Loaded Kernel'' s;
       let neq = memcmp (at (mem s) kaddr) (lit (0x7F # bytes ''ELF'')) 4;
       if neq \<noteq> 0
       then do {
         s \<leftarrow> putln D ''ERR: ELF signature not matching'' s;
         halt D s }
       else start_kernel D fr exe kaddr s } }"

text \<open>The memory is cleared before the pointer is tested.\<close>

definition load_kernel :: "device \<Rightarrow> boot_frame \<Rightarrow> GPTEntry \<Rightarrow> machine \<Rightarrow> outcome option" where
  "load_kernel D fr gpte s = do {
     kaddr \<leftarrow> allocate_space_for_kernel 268435456 s;
     cleared \<leftarrow> mmu_clear kaddr 268435456 s;
     case cleared of
       Inl (st, s) \<Rightarrow> Some (Stopped st s)
     | Inr s \<Rightarrow>
         if kaddr = 0
         then do {
           s \<leftarrow> putln D ''Not Enough Memory to Load Kernel'' s;
           halt D s }
         else load_kernel_file D fr gpte kaddr s }"

definition cboot_main ::
    "device \<Rightarrow> u64 \<Rightarrow> (handler \<Rightarrow> u64) \<Rightarrow> boot_frame \<Rightarrow> machine \<Rightarrow> outcome option" where
  "cboot_main D idt handlers fr s = do {
     s \<leftarrow> start_console D idt handlers fr s;
     (total_mem, s) \<leftarrow> scan_bios_memmap D s;
     (gpte, s) \<leftarrow> find_root D fr s;
     mapped \<leftarrow> setup_physical_map D total_mem s;
     case mapped of
       Inl (st, s) \<Rightarrow> Some (Stopped st s)
     | Inr s \<Rightarrow> do {
         s \<leftarrow> find_kernel_size D fr gpte s;
         load_kernel D fr gpte s } }"

end
