(* ===== verification/BootLayout.thy ===== *)
theory BootLayout
  imports Boot
begin

text \<open>
  Where the boot procedure keeps its data: its arrays on the stack, the descriptor table, the memory
  allocated for the kernel in the window, and what these areas are apart from; and when the window
  reaches far enough to clear that memory.
\<close>

section \<open>The window\<close>

lemma window_pointer:
  assumes "unat a < 2 ^ 47"
  shows "physical_to_virtual_pointer a = 0xFFFF800000000000 + a"
    "unat (physical_to_virtual_pointer a) = 0xFFFF800000000000 + unat a"
proof -
  have m: "(0xFFFF800000000000 :: u64) = push_bit 47 (mask 17)" by (simp add: mask_eq_exp_minus_1)
  have "take_bit 47 a = a"
    using assms by (simp add: word_unat_eq_iff unsigned_take_bit_eq take_bit_nat_eq_self)
  then have a: "k < 47" if "bit a k" for k using that by (metis bit_take_bit_iff)
  have "0xFFFF800000000000 AND a = 0"
    unfolding m by (rule bit_word_eqI) (auto simp: bit_and_iff bit_push_bit_iff dest: a)
  then show eq: "physical_to_virtual_pointer a = 0xFFFF800000000000 + a"
    by (simp add: physical_to_virtual_pointer_def physical_to_virtual_address_def disjunctive_add_eq_or or.commute)
  show "unat (physical_to_virtual_pointer a) = 0xFFFF800000000000 + unat a"
    unfolding eq using assms unat_add_of_nat [of "0xFFFF800000000000 :: u64" "unat a"] by simp
qed

lemma kernel_paddr_value:
  assumes "unat a < 2 ^ 45"
  shows "physical_to_virtual_pointer a AND NOT 0xFFFFE00000000000 = a"
proof -
  have m: "(0xFFFFE00000000000 :: u64) = push_bit 45 (mask 19)" "(0xFFFF800000000000 :: u64) = push_bit 47 (mask 17)"
    by (simp_all add: mask_eq_exp_minus_1)
  have "take_bit 45 a = a"
    using assms by (simp add: word_unat_eq_iff unsigned_take_bit_eq take_bit_nat_eq_self)
  then have a: "k < 45" if "bit a k" for k using that by (metis bit_take_bit_iff)
  show ?thesis
    unfolding physical_to_virtual_pointer_def physical_to_virtual_address_def m
    by (rule bit_word_eqI) (auto simp: bit_simps dest: a)
qed

section \<open>Areas\<close>

text \<open>
  The region of 256 MiB that the kernel gets: the program in its first 160 MiB, the file in the rest.
  The arrays of the C code are on the stack, between the table pool and 0x70000.
\<close>

definition in_stack :: "u64 \<Rightarrow> nat \<Rightarrow> bool" where
  "in_stack a n \<longleftrightarrow> pt_limit \<le> unat a \<and> unat a + n \<le> 0x70000"

definition frames_ok :: "boot_frame \<Rightarrow> bool" where
  "frames_ok fr \<longleftrightarrow> in_stack (gpt_buf fr) 4096 \<and> in_stack (ustar_buf fr) 512 \<and> in_stack (ustar_name fr) 257 \<and>
     in_stack (boot_info fr) 24 \<and> frame_ok (ustar_buf fr) (ustar_name fr) \<and>
     span (boot_info fr) 24 \<inter> (span (gpt_buf fr) 4096 \<union> frame (ustar_buf fr) (ustar_name fr)) = {}"

definition in_window :: "u64 \<Rightarrow> nat \<Rightarrow> bool" where
  "in_window a n \<longleftrightarrow> 0xFFFF800000000000 \<le> unat a \<and> unat a + n \<le> 2 ^ 64"

lemma in_stackD:
  assumes "in_stack a n" and "x \<in> span a n"
  shows "pt_limit \<le> unat x \<and> unat x < 0x70000 \<and> x \<notin> vga_region"
proof -
  have "unat a \<le> unat x" "unat x < unat a + n"
    using assms span_iff [of a n x] by (auto simp: in_stack_def)
  then show ?thesis using assms(1) by (auto simp: in_stack_def vga_region_def vga_buffer_def span_iff)
qed

lemma in_windowD:
  assumes "in_window a n" and "x \<in> span a n"
  shows "0xFFFF800000000000 \<le> unat x" "pt_limit \<le> unat x" "x \<notin> vga_region"
proof -
  show "0xFFFF800000000000 \<le> unat x" using assms span_iff [of a n x] by (auto simp: in_window_def)
  then show "pt_limit \<le> unat x" "x \<notin> vga_region"
    by (auto simp: vga_region_def vga_buffer_def span_iff pt_limit_def)
qed

lemma in_window_sub:
  assumes "in_window a n" and "k + j \<le> n" and "k < n"
  shows "in_window (a + of_nat k) j" "span (a + of_nat k) j \<subseteq> span a n"
proof -
  show sub: "span (a + of_nat k) j \<subseteq> span a n"
  proof
    fix x
    assume x: "x \<in> span (a + of_nat k) j"
    have "n < 2 ^ 64" using assms(1) by (simp add: in_window_def)
    then have "k < 2 ^ 64 \<and> k + j \<le> 2 ^ 64" using assms(2) by linarith
    then have "unat (x - a) < k + j" using in_span_offset [of k j x a] x by simp
    then show "x \<in> span a n" using assms(2) by (simp add: in_span)
  qed
  show "in_window (a + of_nat k) j"
  proof -
    have "unat (a + of_nat k) = unat a + k"
      using assms by (intro unat_add_of_nat) (simp add: in_window_def)
    then show ?thesis using assms by (simp add: in_window_def)
  qed
qed

lemma in_stack_clear: "in_stack a n \<Longrightarrow> clear a n"
  using in_stackD by (fastforce simp: clear_def above_pool_def in_stack_def)

lemma in_window_clear: "in_window a n \<Longrightarrow> clear a n"
  using in_windowD by (fastforce simp: clear_def above_pool_def in_window_def)

lemma stack_window: "in_stack a n \<Longrightarrow> in_window b k \<Longrightarrow> span a n \<inter> span b k = {}"
  using in_stackD in_windowD(1) by fastforce

text \<open>The arrays of the C code.\<close>

definition stack_area :: "boot_frame \<Rightarrow> u64 set" where
  "stack_area fr = span (gpt_buf fr) 4096 \<union> frame (ustar_buf fr) (ustar_name fr) \<union> span (boot_info fr) 24"

lemma frames_okD:
  assumes "frames_ok fr"
  shows "in_stack (gpt_buf fr) 4096" "in_stack (ustar_buf fr) 512" "in_stack (ustar_name fr) 257"
    "in_stack (boot_info fr) 24" "frame_ok (ustar_buf fr) (ustar_name fr)"
    "span (boot_info fr) 24 \<inter> span (gpt_buf fr) 4096 = {}"
    "span (boot_info fr) 24 \<inter> frame (ustar_buf fr) (ustar_name fr) = {}"
  using assms by (auto simp: frames_ok_def)

lemma stack_areaD:
  assumes "frames_ok fr" and "x \<in> stack_area fr"
  shows "pt_limit \<le> unat x \<and> unat x < 0x70000 \<and> x \<notin> vga_region"
  using assms(2) in_stackD [OF frames_okD(1) [OF assms(1)]] in_stackD [OF frames_okD(2) [OF assms(1)]]
    in_stackD [OF frames_okD(3) [OF assms(1)]] in_stackD [OF frames_okD(4) [OF assms(1)]]
  unfolding stack_area_def by blast

lemma stack_tables: "frames_ok fr \<Longrightarrow> tables_ok m it \<Longrightarrow> x \<in> stack_area fr \<Longrightarrow> \<not> in_tables m x"
  using stack_areaD above_pool_tables by blast

lemma window_tables: "in_window e n \<Longrightarrow> tables_ok m it \<Longrightarrow> x \<in> span e n \<Longrightarrow> \<not> in_tables m x"
  using in_windowD(2) above_pool_tables by blast

lemma stack_window_apart: "frames_ok fr \<Longrightarrow> in_window e n \<Longrightarrow> stack_area fr \<inter> span e n = {}"
  using stack_areaD in_windowD(1) by fastforce

text \<open>
  Where the descriptor table may be: in the image, which the linker script puts at 0x10000 and which
  ends below the table pool. The BIOS map is below the boot tables.
\<close>

definition idt_ok :: "u64 \<Rightarrow> bool" where
  "idt_ok idt \<longleftrightarrow> 0x10000 \<le> unat idt \<and> unat idt + 512 \<le> 0x20000"

abbreviation low_map :: "u64 \<Rightarrow> bool" where
  "low_map x \<equiv> 0x500 \<le> unat x \<and> unat x < 0x1000"

lemma map_low:
  assumes "length rs \<le> 100" and "x \<in> span BIOS_MEMORY_MAP_LOCATION (24 * (length rs + 1))"
  shows "low_map x"
  using assms by (auto simp: span_iff BIOS_MEMORY_MAP_LOCATION_def)

lemma vga_high: "x \<in> vga_region \<Longrightarrow> 0xB8000 \<le> unat x"
  by (auto simp: vga_region_def vga_buffer_def span_iff)

lemma boot_info_fields:
  assumes "in_stack p 24"
  shows "span (bios_memory_map_address p) 8 \<subseteq> span p 24" "span (kernel_paddr p) 8 \<subseteq> span p 24"
    "span (kernel_size p) 8 \<subseteq> span p 24"
    "span (bios_memory_map_address p) 8 \<inter> span (kernel_paddr p) 8 = {}"
    "span (bios_memory_map_address p) 8 \<inter> span (kernel_size p) 8 = {}"
    "span (kernel_paddr p) 8 \<inter> span (kernel_size p) 8 = {}"
proof -
  have p: "unat p + 24 \<le> 0x70000" using assms by (simp add: in_stack_def)
  then have u: "unat (p + 8) = unat p + 8" "unat (p + 16) = unat p + 16"
    using unat_add_of_nat [of p 8] unat_add_of_nat [of p 16] by simp_all
  show "span (bios_memory_map_address p) 8 \<subseteq> span p 24" "span (kernel_paddr p) 8 \<subseteq> span p 24"
    "span (kernel_size p) 8 \<subseteq> span p 24"
    "span (bios_memory_map_address p) 8 \<inter> span (kernel_paddr p) 8 = {}"
    "span (bios_memory_map_address p) 8 \<inter> span (kernel_size p) 8 = {}"
    "span (kernel_paddr p) 8 \<inter> span (kernel_size p) 8 = {}"
    using p u by (auto simp: bios_memory_map_address_def kernel_paddr_def kernel_size_def span_iff)
qed

section \<open>The kernel's memory\<close>

definition kernel_image :: "disk \<Rightarrow> GPTEntry \<Rightarrow> u64 \<Rightarrow> nat \<Rightarrow> view" where
  "kernel_image disk gpte k n i = (if i < 512 * n then sector disk gpte (k + 1) i else 0)"

abbreviation elf_offset :: nat where "elf_offset \<equiv> 167772160"

abbreviation elf_room :: nat where "elf_room \<equiv> 100663296"

text \<open>The end of the physical memory in the window, which is as large as the sum of the free regions.\<close>

abbreviation window_end :: "BiosMemoryRegion list \<Rightarrow> nat" where
  "window_end rs \<equiv> gigs (free_total rs) * 2 ^ 30"

text \<open>The address of the memory allocated for the kernel, when there is a region and the window has it.\<close>

definition kernel_base :: "BiosMemoryRegion list \<Rightarrow> u64 \<Rightarrow> bool" where
  "kernel_base rs e \<longleftrightarrow> (\<exists>r. find (suitable 268435456) rs = Some r \<and>
     unat (base_address r) + 268435456 \<le> window_end rs \<and> e = physical_to_virtual_pointer (base_address r))"

lemma gigs_le: "unat sz \<le> 511 * 2 ^ 30 \<Longrightarrow> gigs sz \<le> 511"
  by (simp add: gigs_def)

lemma window_end_le: "unat (free_total rs) \<le> 511 * 2 ^ 30 \<Longrightarrow> window_end rs \<le> 511 * 2 ^ 30"
  using gigs_le [of "free_total rs"] by simp

lemma kernel_base_window:
  assumes "kernel_base rs e" and "unat (free_total rs) \<le> 511 * 2 ^ 30"
  shows "in_window e 268435456" "unat e + 268435456 + 8 < 2 ^ 64" "e \<noteq> 0"
proof -
  obtain r where r: "find (suitable 268435456) rs = Some r"
    "unat (base_address r) + 268435456 \<le> window_end rs" "e = physical_to_virtual_pointer (base_address r)"
    using assms(1) by (auto simp: kernel_base_def)
  have b: "unat (base_address r) + 268435456 \<le> 511 * 2 ^ 30" using r(2) window_end_le [OF assms(2)] by linarith
  then have "unat e = 0xFFFF800000000000 + unat (base_address r)" using window_pointer(2) [of "base_address r"] r(3) by simp
  then show "in_window e 268435456" "unat e + 268435456 + 8 < 2 ^ 64" "e \<noteq> 0"
    using b by (auto simp: in_window_def)
qed

section \<open>The translation at the clearing\<close>

text \<open>What \<open>setup_physical_map\<close> does to a translation, and the result on the boot tables.\<close>

definition window :: "u64 \<Rightarrow> translation \<Rightarrow> translation" where
  "window sz w va = (if l4_index va = 256
     then if unat (take_bit 39 va) < gigs sz * 2 ^ 30 then Some (take_bit 39 va) else None else w va)"

definition boot_translation :: "mem \<Rightarrow> u64 \<Rightarrow> translation" where
  "boot_translation m sz = window sz (walk (setup_paging m) p4table)"

lemma unat_l4: "unat (l4_index va) = unat va div 2 ^ 39 mod 512"
  by (simp add: unat_index)

lemma boot_low:
  assumes "unat va < 2 ^ 21"
  shows "boot_translation m sz va = Some va"
proof -
  have "l4_index va \<noteq> 256" using assms unat_l4 [of va] by (auto simp: word_unat_eq_iff)
  then show ?thesis using boot_identity [OF assms] by (simp add: boot_translation_def window_def p4table_def)
qed

lemma boot_window:
  assumes x: "unat x = 0xFFFF800000000000 + p" and p: "p < 2 ^ 47" and sz: "gigs sz \<le> 511"
  shows "boot_translation m sz x = (if p < gigs sz * 2 ^ 30 then Some (of_nat p) else None)"
proof -
  have "0xFFFF800000000000 = (2 :: nat) ^ 39 * 33554176" by simp
  then have "unat x div 2 ^ 39 = 33554176 + p div 2 ^ 39" unfolding x by simp
  moreover have "p div 2 ^ 39 < 256" using p by (simp add: less_mult_imp_div_less)
  ultimately have i: "unat (l4_index x) = 256 + p div 2 ^ 39"
    unfolding unat_l4 by (simp only:) (simp add: mod_nat_eqI)
  have t: "unat (take_bit 39 x) = p mod 2 ^ 39" 
  proof -
    have "unat x = p + 33554176 * 2 ^ 39" using x by simp
    then have "unat x mod 2 ^ 39 = p mod 2 ^ 39" by (simp only: mod_mult_self1)
    then show ?thesis by (simp add: unsigned_take_bit_eq take_bit_nat_def)
  qed
  have lim: "gigs sz * 2 ^ 30 < 2 ^ 39" using sz by simp
  show ?thesis
  proof (cases "p < 2 ^ 39")
    case True
    then have "take_bit 39 x = of_nat p" using t by (simp add: word_unat_eq_iff unat_of_nat)
    moreover have "l4_index x = 256" using i True by (simp add: word_unat_eq_iff)
    ultimately show ?thesis using t True by (simp add: boot_translation_def window_def)
  next
    case False
    then have "l4_index x \<noteq> 256" "l4_index x \<noteq> 0" using i by (auto simp: word_unat_eq_iff)
    then have "boot_translation m sz x = None"
      using boot_loads(1) [of m "l4_index x"] by (simp add: boot_translation_def window_def walk_def p4table_def present_def)
    then show ?thesis using False lim by simp
  qed
qed

section \<open>Clearing through the tables\<close>

definition page_address :: "u64 \<Rightarrow> nat \<Rightarrow> u64" where
  "page_address a j = (if j = 0 then a else a - a mod 0x1000 + of_nat j * 0x1000)"

lemma page_address_next: "page_address (a - a mod 0x1000 + 0x1000) j = page_address a (Suc j)"
proof -
  have m: "x mod 0x1000 = take_bit 12 x" for x :: u64 by (simp add: take_bit_eq_mod)
  have "a - take_bit 12 a = push_bit 12 (drop_bit 12 a)" using bits_ident [of 12 a] by (simp add: algebra_simps)
  then have "a - take_bit 12 a + 0x1000 = push_bit 12 (drop_bit 12 a + 1)" by (simp add: push_bit_add)
  then have "(a - a mod 0x1000 + 0x1000) mod 0x1000 = 0" unfolding m by (simp add: take_bit_push_bit)
  then show ?thesis by (simp add: page_address_def algebra_simps)
qed

lemma first_stop_none: "\<forall>j < k. store_stop m root (page_address a j) = None \<Longrightarrow> first_stop k m root a = None"
proof (induction k arbitrary: a)
  case (Suc k)
  then have "store_stop m root a = None" "\<forall>j < k. store_stop m root (page_address a (Suc j)) = None"
    by (force simp: page_address_def)+
  then show ?case using Suc.IH [of "a - a mod 0x1000 + 0x1000"] by (simp add: page_address_next)
qed simp

lemma first_stop_some:
  "j < k \<Longrightarrow> \<forall>i < j. store_stop m root (page_address a i) = None \<Longrightarrow> store_stop m root (page_address a j) = Some st \<Longrightarrow>
     first_stop k m root a = Some st"
proof (induction k arbitrary: a j)
  case (Suc k)
  show ?case
  proof (cases j)
    case 0
    then show ?thesis using Suc.prems by (simp add: page_address_def)
  next
    case (Suc i)
    then have "store_stop m root a = None" "\<forall>l < i. store_stop m root (page_address a (Suc l)) = None"
      using Suc.prems(2) by (force simp: page_address_def)+
    then show ?thesis using Suc.IH [of i "a - a mod 0x1000 + 0x1000"] Suc.prems Suc by (simp add: page_address_next)
  qed
qed simp

lemma unat_page_address:
  assumes "unat a + 4096 * j < 2 ^ 64"
  shows "unat (page_address a j) = (if j = 0 then unat a else unat a - unat a mod 4096 + 4096 * j)"
proof -
  have m: "unat (a mod 0x1000) = unat a mod 4096" by (simp add: unat_mod)
  have le: "a mod 0x1000 \<le> a" by (simp add: word_le_nat_alt m)
  have u: "unat (a - a mod 0x1000) = unat a - unat a mod 4096" using unat_sub [OF le] by (simp add: m)
  have "unat (a - a mod 0x1000) + 4096 * j < 2 ^ 64" unfolding u using assms by linarith
  then have "unat (a - a mod 0x1000 + of_nat (4096 * j)) = unat a - unat a mod 4096 + 4096 * j"
    using unat_add_of_nat [of "a - a mod 0x1000" "4096 * j"] u by simp
  then show ?thesis by (simp add: page_address_def mult.commute)
qed

text \<open>The pages of the region in turn: it is cleared when the window has it, and up to the window's end otherwise.\<close>

lemma store_stop_window:
  assumes "walk m root = boot_translation m0 sz" and "unat x = 0xFFFF800000000000 + p" and "p < 2 ^ 47"
    and "gigs sz \<le> 511" and "0x70000 \<le> p"
  shows "store_stop m root x = (if p < gigs sz * 2 ^ 30 then None else Some (PageFault x))"
  using assms boot_window [OF assms(2-4)] by (simp add: store_stop_def own_memory_def unat_of_nat)

lemma clear_fits:
  assumes tr: "walk (mem s) (cr3 s) = boot_translation m sz" and sz: "gigs sz \<le> 511"
    and b: "0x100000 \<le> unat b" "unat b + 268435456 \<le> gigs sz * 2 ^ 30"
    and e: "e = physical_to_virtual_pointer b"
  shows "mmu_clear e 268435456 s = Some (Inr (s\<lparr>mem := \<lambda>x. if x \<in> span e 268435456 then 0 else mem s x\<rparr>))"
proof -
  have lim: "gigs sz * 2 ^ 30 \<le> 511 * 2 ^ 30" using sz by simp
  have ue: "unat e = 0xFFFF800000000000 + unat b" unfolding e using b(2) lim by (intro window_pointer(2)) simp
  have "store_stop (mem s) (cr3 s) (page_address e j) = None"
    if j: "j < (unat e mod 4096 + 268435456 + 4095) div 4096" for j
  proof -
    have j4: "4096 * j < unat e mod 4096 + 268435456" using j by linarith
    have "unat (page_address e j) = (if j = 0 then unat e else unat e - unat e mod 4096 + 4096 * j)"
      using j4 ue b lim mod_less_divisor [of 4096 "unat e"] by (intro unat_page_address) simp
    then have "\<exists>p. unat (page_address e j) = 0xFFFF800000000000 + p \<and> unat b - unat b mod 4096 \<le> p \<and> p < unat b + 268435456"
      using j4 ue by (intro exI [of _ "unat (page_address e j) - 0xFFFF800000000000"]) (auto split: if_splits)
    then obtain p where p: "unat (page_address e j) = 0xFFFF800000000000 + p" "unat b - unat b mod 4096 \<le> p"
      "p < unat b + 268435456" by blast
    then show ?thesis using store_stop_window [OF tr p(1) _ sz] b lim by simp
  qed
  then have "first_stop ((unat e mod 4096 + unat (268435456 :: u64) + 4095) div 4096) (mem s) (cr3 s) e = None"
    by (intro first_stop_none) simp
  moreover have "\<exists>m'. memset (mem s) e 0 268435456 = Some m' \<and> m' = (\<lambda>x. if x \<in> span e 268435456 then 0 else mem s x)"
    using memset_clear [of e 268435456 "mem s"] ue b lim by simp
  ultimately show ?thesis by (auto simp: mmu_clear_def)
qed

lemma clear_faults:
  assumes tr: "walk (mem s) (cr3 s) = boot_translation m sz" and sz: "gigs sz \<le> 511"
    and b: "0x100000 \<le> unat b" "unat b + 268435456 \<le> 2 ^ 47" "gigs sz * 2 ^ 30 < unat b + 268435456"
    and e: "e = physical_to_virtual_pointer b" and q: "q = 0xFFFF800000000000 + of_nat (max (unat b) (gigs sz * 2 ^ 30))"
  shows "mmu_clear e 268435456 s
    = Some (Inl (PageFault q, s\<lparr>mem := \<lambda>x. if x \<in> span e (gigs sz * 2 ^ 30 - unat b) then 0 else mem s x\<rparr>))"
proof -
  define lim where "lim = gigs sz * 2 ^ 30"
  have lim: "lim \<le> 511 * 2 ^ 30" "lim mod 4096 = 0" using sz by (simp_all add: lim_def)
  have ue: "unat e = 0xFFFF800000000000 + unat b" unfolding e using b(2) by (intro window_pointer(2)) simp
  have uq: "unat q = 0xFFFF800000000000 + max (unat b) lim"
    unfolding q lim_def [symmetric] using b(2) lim unat_add_of_nat [of "0xFFFF800000000000 :: u64" "max (unat b) lim"] by simp
  define j where "j = (if lim \<le> unat b then 0 else (lim - (unat b - unat b mod 4096)) div 4096)"
  have j: "lim \<le> unat b \<and> j = 0 \<or> unat b < lim \<and> 0 < j \<and> unat b - unat b mod 4096 + 4096 * j = lim"
  proof (cases "lim \<le> unat b")
    case False
    obtain k where k: "lim = 4096 * k" using lim(2) by (auto simp: mod_eq_0_iff_dvd)
    define c where "c = unat b div 4096"
    have f: "unat b - unat b mod 4096 = 4096 * c" by (simp add: minus_mod_eq_mult_div c_def)
    have less: "c < k" using False unfolding c_def by (simp add: k div_less_iff_less_mult mult.commute)
    have "j = (4096 * k - 4096 * c) div 4096" unfolding j_def f using False by (simp only: k if_False)
    then have j: "j = k - c" unfolding diff_mult_distrib2 [symmetric] by simp
    have "0 < j" "4096 * c + 4096 * j = lim" unfolding j k using less by simp_all
    then show ?thesis using False unfolding f by simp
  qed (simp add: j_def)
  have em: "unat e mod 4096 = unat b mod 4096" unfolding ue by (subst mod_add_left_eq [symmetric]) simp
  have page: "unat (page_address e i) = 0xFFFF800000000000 + (if i = 0 then unat b else unat b - unat b mod 4096 + 4096 * i)"
    if "i \<le> j" for i
  proof -
    have le: "unat b mod 4096 \<le> unat b" by simp
    have "unat e + 4096 * i < 2 ^ 64" using that j ue lim(1) b(2) by auto
    note u = unat_page_address [OF this, unfolded em]
    show ?thesis unfolding u ue using le by (cases "i = 0") simp_all
  qed
  have "store_stop (mem s) (cr3 s) (page_address e i) = None" if "i < j" for i
  proof -
    define p where "p = (if i = 0 then unat b else unat b - unat b mod 4096 + 4096 * i)"
    have p: "0x70000 \<le> p \<and> p < lim" using that j b(1) unfolding p_def by auto
    moreover have "unat (page_address e i) = 0xFFFF800000000000 + p" using page [of i] that by (simp add: p_def)
    ultimately show ?thesis using store_stop_window [OF tr _ _ sz, of "page_address e i" p] lim by (simp add: lim_def)
  qed
  moreover have pq: "page_address e j = q" using page [of j] uq j by (auto simp: word_unat_eq_iff max_def)
  moreover have "store_stop (mem s) (cr3 s) q = Some (PageFault q)"
    using store_stop_window [OF tr uq _ sz, folded lim_def] lim(1) b(1,2) by simp
  moreover have "j < (unat e mod 4096 + unat (268435456 :: u64) + 4095) div 4096"
  proof -
    have "4096 * j < 268435456 + unat e mod 4096"
      using j b(3) mod_less_eq_dividend [of "unat b" 4096] unfolding lim_def [symmetric] em by linarith
    then show ?thesis by simp
  qed
  ultimately have st: "first_stop ((unat e mod 4096 + unat (268435456 :: u64) + 4095) div 4096) (mem s) (cr3 s) e
      = Some (PageFault q)"
    by (intro first_stop_some [of j]) simp_all
  have "e \<le> q" unfolding word_le_nat_alt ue uq by simp
  then have n: "unat (q - e) = lim - unat b" using ue uq by (simp add: unat_sub)
  have "unat e + unat (q - e) + 8 < 2 ^ 64" using n ue lim(1) b(2) by simp
  then have "\<exists>m'. memset (mem s) e 0 (q - e) = Some m' \<and> m' = (\<lambda>x. if x \<in> span e (lim - unat b) then 0 else mem s x)"
    using memset_clear [of e "q - e" "mem s"] n by simp
  then show ?thesis using st by (auto simp: mmu_clear_def lim_def)
qed

text \<open>The null pointer is in the identity mapping: the first page is cleared, and the next one holds the tables.\<close>

lemma clear_null:
  assumes tr: "walk (mem s) (cr3 s) = boot_translation m sz"
  shows "mmu_clear 0 268435456 s
    = Some (Inl (Overwrite 0x1000, s\<lparr>mem := \<lambda>x. if unat x < 0x1000 then 0 else mem s x\<rparr>))"
proof -
  have "store_stop (mem s) (cr3 s) (page_address 0 0) = None"
    using boot_low [of 0 m sz] tr by (simp add: store_stop_def page_address_def own_memory_def)
  moreover have "store_stop (mem s) (cr3 s) (page_address 0 1) = Some (Overwrite 0x1000)"
    using boot_low [of "0x1000" m sz] tr by (simp add: store_stop_def page_address_def own_memory_def)
  ultimately have "first_stop ((unat (0 :: u64) mod 4096 + unat (268435456 :: u64) + 4095) div 4096) (mem s) (cr3 s) 0
      = Some (Overwrite 0x1000)"
    by (intro first_stop_some [of 1]) simp_all
  moreover have "\<exists>m'. memset (mem s) 0 0 0x1000 = Some m' \<and> m' = (\<lambda>x. if unat x < 0x1000 then 0 else mem s x)"
    using memset_clear [of 0 "0x1000" "mem s"] by (simp add: in_span)
  ultimately show ?thesis by (auto simp: mmu_clear_def)
qed

end
