(* ===== verification/BootRun.thy ===== *)
theory BootRun
  imports BootLayout
begin

text \<open>
  The boot procedure phase by phase: each phase returns and has an \<open>effect\<close>, and their sequence is
  the run of \<open>cboot_main\<close>, to the jump into the kernel or to \<open>halt\<close>.
\<close>

section \<open>Messages\<close>

lemma says:
  assumes "serial_live D" and "0 \<notin> set cs"
  shows "\<exists>t. puts D (lit cs) s = Some t \<and> console_same s t \<and> transmitted (trace t) = transmitted (trace s) @ cs"
proof -
  have "takeWhile (\<lambda>c. c \<noteq> 0) cs = cs" using assms(2) by (subst takeWhile_eq_all_conv) auto
  then show ?thesis unfolding puts_lit by (simp only: console.emit_ok [OF assms(1)])
qed

lemma halt_run:
  assumes "serial_live D"
  shows "\<exists>t. halt D s = Some (Halted t) \<and> console_same s t \<and>
    transmitted (trace t) = transmitted (trace s) @ bytes ''Halting''"
  using says [OF assms, of "bytes ''Halting''" s] by (auto simp: halt_def)

text \<open>A message and then \<open>halt\<close>.\<close>

lemma say_halt_run:
  assumes "serial_live D" and "0 \<notin> set cs"
  shows "\<exists>t. Option.bind (puts D (lit cs) s) (halt D) = Some (Halted t) \<and> console_same s t \<and>
    transmitted (trace t) = transmitted (trace s) @ cs @ bytes ''Halting''"
proof -
  obtain u where u: "puts D (lit cs) s = Some u" "console_same s u" "transmitted (trace u) = transmitted (trace s) @ cs"
    using says [OF assms] by blast
  obtain t where "halt D u = Some (Halted t)" "console_same u t"
    "transmitted (trace t) = transmitted (trace u) @ bytes ''Halting''" using halt_run [OF assms(1)] by blast
  with u console_same_trans [OF u(2)] show ?thesis by auto
qed

section \<open>Before the kernel is loaded\<close>

lemma init_serial_same:
  "mem (snd (init_serial D s)) = mem s" "pt_it (snd (init_serial D s)) = pt_it s"
  "cr3 (snd (init_serial D s)) = cr3 s"
  by (simp_all add: init_serial_def io_out8_def io_in8_def Let_def)

lemma start_console_run:
  assumes live: "serial_live D" and fr: "frames_ok fr" and ok: "tables_ok (mem s) (pt_it s)"
    and idt: "\<And>x. x \<in> span idt 512 \<Longrightarrow> \<not> in_tables (mem s) x"
  shows "\<exists>t. start_console D idt handlers fr s = Some t \<and> quiet (span idt 512 \<union> span (boot_info fr) 24) s t \<and>
    (\<forall>x \<in> span (boot_info fr) 24. mem t x = 0)"
proof -
  let ?R = "span idt 512 \<union> span (boot_info fr) 24"
  let ?s = "snd (init_serial D (setup_interrupts idt handlers s))"
  note info = frames_okD(4) [OF fr]
  obtain m where m: "memset (mem ?s) (boot_info fr) 0 24 = Some m"
    "m = (\<lambda>x. if x \<in> span (boot_info fr) 24 then 0 else mem ?s x)"
    using memset_clear [of "boot_info fr" 24 "mem ?s"] info by (auto simp: in_stack_def)
  have out: "m x = mem s x" if "x \<notin> ?R" for x
    using that setup_interrupts_out [of x idt handlers s] by (simp add: m(2) init_serial_same)
  have "x \<notin> ?R" if "in_tables (mem s) x" for x
    using that idt above_pool_tables [OF ok] in_stackD [OF info] by blast
  then have q: "quiet ?R s (?s\<lparr>mem := m\<rparr>)"
    using out by (intro effect_still [OF ok]) (simp_all add: init_serial_same setup_interrupts_frame)
  have "\<exists>t. Option.bind (putln D ''Hello, World from the bootloader'' (?s\<lparr>mem := m\<rparr>))
      (putln D ''Bios Physical Memory Maps'') = Some t \<and> console_same (?s\<lparr>mem := m\<rparr>) t"
    by (intro bind_console prints live)
  then obtain t where t: "Option.bind (putln D ''Hello, World from the bootloader'' (?s\<lparr>mem := m\<rparr>))
      (putln D ''Bios Physical Memory Maps'') = Some t" "console_same (?s\<lparr>mem := m\<rparr>) t" by blast
  have "start_console D idt handlers fr s = Some t"
    unfolding start_console_def by (simp only: Let_def prod.case_eq_if m(1) Option.bind.simps t(1))
  moreover have "mem t x = 0" if "x \<in> span (boot_info fr) 24" for x
    using t(2) in_stackD [OF info that] that by (simp add: console_same_def m(2))
  moreover have "quiet ?R s t"
    using quiet_trans [OF q effect_console [OF effectD(1) [OF q] t(2)], of ?R] by simp
  ultimately show ?thesis by blast
qed

lemma find_root_run:
  assumes live: "serial_live D" and D: "ata_drive D disk" and fr: "frames_ok fr" and ok: "tables_ok (mem s) (pt_it s)"
    and gpt: "sz = unat (word_of_bytes (List.map disk [596..<600]) :: u32)" "gpt_table (\<lambda>i. disk (1024 + i)) sz n"
    and gpte: "gpte = (case find (named (lit (bytes ''OSDEV Root Partition''))) (table_entries (\<lambda>i. disk (1024 + i)) sz n) of
      None \<Rightarrow> empty_entry | Some g \<Rightarrow> g)"
  shows "\<exists>t. find_root D fr s = Some (gpte, t) \<and> quiet (span (gpt_buf fr) 4096) s t"
proof -
  have nul: "lit (bytes ''OSDEV Root Partition'') 20 = 0" by (simp add: lit_def)
  have off: "span (gpt_buf fr) 4096 \<inter> vga_region = {}" using in_stackD [OF frames_okD(1) [OF fr]] by blast
  obtain t where t: "find_partition_by_name D (gpt_buf fr) (lit (bytes ''OSDEV Root Partition'')) s = Some (gpte, t)"
    "io_step (span (gpt_buf fr) 4096) s t"
    using find_partition_run [where name = "lit (bytes ''OSDEV Root Partition'')" and l = 20,
        OF D live nul off gpt, of s, folded gpte] by blast
  define cond where "cond \<longleftrightarrow> starting_lba gpte \<noteq> 0 \<and> ending_lba gpte \<noteq> 0"
  have "\<exists>u. (if cond then putln D ''Partition Found, Time to load the operating system'' t else Some t) = Some u \<and>
      console_same t u"
    using prints(1) [OF live] console_same_refl [of t] by (cases cond; simp only: if_True if_False) blast+
  then obtain u where u: "(if cond then putln D ''Partition Found, Time to load the operating system'' t else Some t) = Some u"
    "console_same t u" by blast
  have "find_root D fr s = Some (gpte, u)"
    unfolding find_root_def cond_def [symmetric]
    by (simp only: t(1) Option.bind.simps prod.case cond_def [symmetric] u(1))
  moreover have "x \<in> span (gpt_buf fr) 4096 \<Longrightarrow> \<not> in_tables (mem s) x" for x
    using stack_tables [OF fr ok, of x] unfolding stack_area_def by blast
  then have "quiet (span (gpt_buf fr) 4096) s u"
    using io_step_trans [OF t(2) console_io_step [OF u(2)]] by (intro effect_io [OF ok])
  ultimately show ?thesis by blast
qed

lemma setup_window_run:
  assumes "serial_live D" and "tables_ok (mem s) (pt_it s)" and "cr3 s = p4table"
    and "unat (pt_it s) + 4096 \<le> pt_limit" and "0 < size_mem" "unat size_mem \<le> 511 * 2 ^ 30"
    and "\<forall>va. unat va < 2 ^ 20 \<longrightarrow> walk (mem s) p4table va = Some va"
  shows "\<exists>t. setup_physical_map D size_mem s = Some (Inr t) \<and>
    effect (\<lambda>va. l4_index va \<noteq> 256) {} 4096 (window size_mem) (\<lambda>m. m) s t"
proof -
  obtain t where t: "setup_physical_map D size_mem s = Some (Inr t)" "cr3 t = p4table"
    "tables_ok (mem t) (pt_it t)" "unat (pt_it t) = unat (pt_it s) + 4096"
    "\<forall>va. walk (mem t) p4table va = window size_mem (walk (mem s) p4table) va"
    "\<forall>va. l4_index va \<noteq> 256 \<longrightarrow> mappable (mem s) va \<longrightarrow> mappable (mem t) va"
    "\<forall>x. \<not> in_tables (mem s) x \<and> \<not> fresh s t x \<and> x \<notin> vga_region \<longrightarrow> mem t x = mem s x"
    "\<forall>x. in_tables (mem t) x \<longrightarrow> in_tables (mem s) x \<or> fresh s t x"
    unfolding window_def by (rule setup_run [OF assms(1,2,4-7)]) blast
  have "walk (mem t) p4table = window size_mem (walk (mem s) p4table)" using t(5) by (simp add: fun_eq_iff)
  with t assms(3) show ?thesis by (intro exI [of _ t]) (simp add: effect_def)
qed

lemma kernel_path_bytes: "cstr 257 kernel_path = bytes ''/sys/kernel.elf''"
  unfolding kernel_path_def by (subst cstr_lit; simp)

lemma find_kernel_size_run:
  assumes live: "serial_live D" and D: "ata_drive D disk" and fr: "frames_ok fr" and ok: "tables_ok (mem s) (pt_it s)"
    and found: "lookup (sector disk gpte) blocks64 (bytes ''/sys/kernel.elf'') 0 r"
  shows "\<exists>t. find_kernel_size D fr gpte s = Some t \<and> quiet (frame (ustar_buf fr) (ustar_name fr)) s t"
proof -
  let ?F = "frame (ustar_buf fr) (ustar_name fr)"
  obtain i sz t where t: "ustar_get_num_sectors D (ustar_buf fr) (ustar_name fr) gpte kernel_path 0 s = Some (i, sz, t)"
    "io_step ?F s t"
    using get_num_sectors_run [OF D frames_okD(5) [OF fr], where path = kernel_path and sectors = 0 and s = s,
        unfolded kernel_path_bytes, OF found] by (cases r) auto
  have "\<exists>u. (if i \<noteq> 0 then putln D ''Unable To File the kernel executable file'' t
      else Option.bind (putl D ''Kernel Size On Disk = '' t)
        (\<lambda>s. Option.bind (putd D (sz * 512) s) (putc D nl))) = Some u \<and> console_same t u"
    by (cases "i = 0"; simp only: if_True if_False simp_thms; intro bind_console prints live)
  then obtain u where u: "(if i \<noteq> 0 then putln D ''Unable To File the kernel executable file'' t
      else Option.bind (putl D ''Kernel Size On Disk = '' t)
        (\<lambda>s. Option.bind (putd D (sz * 512) s) (putc D nl))) = Some u" "console_same t u" by blast
  have "find_kernel_size D fr gpte s = Some u"
    unfolding find_kernel_size_def by (simp only: t(1) Option.bind.simps prod.case Let_def u(1))
  moreover have "x \<in> ?F \<Longrightarrow> \<not> in_tables (mem s) x" for x
    using stack_tables [OF fr ok, of x] unfolding stack_area_def by blast
  then have "quiet ?F s u"
    using io_step_trans [OF t(2) console_io_step [OF u(2)]] by (intro effect_io [OF ok])
  ultimately show ?thesis by blast
qed

section \<open>Up to the loading of the kernel\<close>

text \<open>The BIOS map stays where it is.\<close>

lemma map_kept:
  assumes s: "pt_it s = 0x20000" "\<And>x. in_tables (mem s) x \<Longrightarrow> 0x1000 \<le> unat x"
    and e: "effect P R n f (\<lambda>m. m) s t" and R: "\<And>x. x \<in> R \<Longrightarrow> 0x1000 \<le> unat x"
    and map: "map_at (mem s) BIOS_MEMORY_MAP_LOCATION rs" "length rs \<le> 100"
  shows "map_at (mem t) BIOS_MEMORY_MAP_LOCATION rs"
proof -
  have "mem t x = mem s x" if x: "low_map x" for x
  proof -
    have "\<not> in_tables (mem s) x" "x \<notin> R" using s(2) [of x] R [of x] x by auto
    moreover have "x \<notin> vga_region" using vga_high [of x] x by auto
    moreover have "\<not> fresh s t x" using x by (simp add: fresh_def s(1))
    ultimately show ?thesis using effectD(6) [OF e] by blast
  qed
  moreover have "24 * (length rs + 1) < 2 ^ 64" using map(2) by simp
  ultimately show ?thesis using map_at_cong [of BIOS_MEMORY_MAP_LOCATION rs "mem t" "mem s"] map map_low [OF map(2)] by blast
qed

lemma boot_machine_facts:
  "pt_it (boot_machine m) = 0x20000" "cr3 (boot_machine m) = p4table"
  "tables_ok (mem (boot_machine m)) (pt_it (boot_machine m))"
  "in_tables (mem (boot_machine m)) x \<Longrightarrow> 0x1000 \<le> unat x \<and> unat x < 0x5000"
  using boot_machine_ok boot_in_tables by (auto simp: boot_machine_simps)

lemma effect_elsewhere:
  assumes e: "effect P R n f g (boot_machine m) t"
    and "x \<notin> span 0x1000 0x4000" "\<not> (0x20000 \<le> unat x \<and> unat x < pt_limit)" "x \<notin> vga_region" "x \<notin> R"
  shows "mem t x = g (setup_paging m) x"
proof -
  have "\<not> in_tables (mem (boot_machine m)) x" using boot_machine_facts(4) [of m x] assms(2) by (auto simp: span_iff)
  moreover have "\<not> fresh (boot_machine m) t x"
    using tables_ok_it [OF effectD(1) [OF e]] assms(3) by (auto simp: fresh_def)
  ultimately show ?thesis using effectD(6) [OF e] assms(4,5) by simp
qed

lemma scan_phase_run:
  assumes "serial_live D" and "tables_ok (mem s) (pt_it s)"
    and "map_at (mem s) BIOS_MEMORY_MAP_LOCATION rs" "length rs \<le> 100"
  shows "\<exists>t. scan_bios_memmap D s = Some (free_total rs, t) \<and> quiet {} s t"
proof -
  have "span BIOS_MEMORY_MAP_LOCATION (24 * (length rs + 1)) \<inter> vga_region = {}"
    using map_low [OF assms(4)] vga_high by fastforce
  moreover have "24 * (length rs + 1) < 2 ^ 64" using assms(4) by simp
  ultimately show ?thesis using scan_run [OF assms(1,3)] effect_console [OF assms(2)] by blast
qed

lemma prefix_run:
  assumes live: "serial_live D" and D: "ata_drive D disk" and fr: "frames_ok fr" and idt: "idt_ok idt"
    and map: "map_at m BIOS_MEMORY_MAP_LOCATION rs" "length rs \<le> 100"
    and total: "0 < free_total rs" "unat (free_total rs) \<le> 511 * 2 ^ 30"
    and gpt: "sz = unat (word_of_bytes (List.map disk [596..<600]) :: u32)" "gpt_table (\<lambda>i. disk (1024 + i)) sz cnt"
    and gpte: "gpte = (case find (named (lit (bytes ''OSDEV Root Partition''))) (table_entries (\<lambda>i. disk (1024 + i)) sz cnt) of
      None \<Rightarrow> empty_entry | Some g \<Rightarrow> g)"
    and found: "lookup (sector disk gpte) blocks64 (bytes ''/sys/kernel.elf'') 0 r64"
  shows "\<exists>t. cboot_main D idt handlers fr (boot_machine m) = load_kernel D fr gpte t \<and>
    effect (\<lambda>va. l4_index va \<noteq> 256) (span idt 512 \<union> stack_area fr) 4096 (window (free_total rs)) (\<lambda>m. m) (boot_machine m) t \<and>
    (\<forall>x \<in> span (boot_info fr) 24. mem t x = 0) \<and> map_at (mem t) BIOS_MEMORY_MAP_LOCATION rs"
proof -
  let ?s = "boot_machine m" and ?P = "\<lambda>va :: u64. l4_index va \<noteq> 256"
  let ?A = "span idt 512 \<union> span (boot_info fr) 24" and ?G = "span (gpt_buf fr) 4096"
    and ?F = "frame (ustar_buf fr) (ustar_name fr)" and ?R = "span idt 512 \<union> stack_area fr"
  note b = boot_machine_facts [of m]
  have areas: "?A \<subseteq> ?R" "?G \<subseteq> ?R" "?F \<subseteq> ?R" by (auto simp: stack_area_def)
  have low: "0x1000 \<le> unat x" if "x \<in> ?R" for x
    using that stack_areaD [OF fr, of x] idt by (auto simp: idt_ok_def span_iff pt_limit_def)
  have off: "\<not> in_tables (mem ?s) x" if "x \<in> span idt 512" for x
    using that b(4) [of x] idt by (auto simp: idt_ok_def span_iff)
  have map0: "map_at (mem ?s) BIOS_MEMORY_MAP_LOCATION rs"
  proof -
    have "setup_paging m x = m x" if "low_map x" for x
      using that by (intro setup_paging_out) (simp add: span_iff)
    moreover have "24 * (length rs + 1) < 2 ^ 64" using map(2) by simp
    ultimately show ?thesis
      using map_at_cong [of BIOS_MEMORY_MAP_LOCATION rs "mem ?s" m] map(1) map_low [OF map(2)]
      by (simp add: boot_machine_simps)
  qed
  have map_s: "map_at (mem t) BIOS_MEMORY_MAP_LOCATION rs"
    if "effect P R n f (\<lambda>m. m) ?s t" "R \<subseteq> ?R" for P R n f t
    using b(4) low that by (intro map_kept [OF b(1) _ that(1) _ map0 map(2)]) blast+
  obtain s1 where s1: "start_console D idt handlers fr ?s = Some s1" "quiet ?A ?s s1"
    "\<forall>x \<in> span (boot_info fr) 24. mem s1 x = 0"
    using start_console_run [OF live fr b(3) off] by blast
  from scan_phase_run [OF live effectD(1) [OF s1(2)] map_s [OF s1(2) areas(1)] map(2)]
  obtain s2 where s2: "scan_bios_memmap D s1 = Some (free_total rs, s2)" "quiet {} s1 s2" by blast
  obtain s3 where s3: "find_root D fr s2 = Some (gpte, s3)" "quiet ?G s2 s3"
    using find_root_run [OF live D fr effectD(1) [OF s2(2)] gpt gpte] by blast
  have q: "quiet (?A \<union> ?G) ?s s3"
    using quiet_trans [OF s1(2) quiet_trans [OF s2(2) s3(2)]] by (simp add: Un_assoc)
  have it: "pt_it s3 = 0x20000"
    using q by (auto simp: effect_def b(1) word_unat_eq_iff boot_machine_simps)
  have "walk (mem s3) p4table va = Some va" if "unat va < 2 ^ 20" for va
    using effectD(4) [OF q] boot_identity that by (simp add: p4table_def boot_machine_simps)
  then obtain s4 where s4: "setup_physical_map D (free_total rs) s3 = Some (Inr s4)"
    "effect ?P {} 4096 (window (free_total rs)) (\<lambda>m. m) s3 s4"
    using setup_window_run [OF live effectD(1) [OF q] _ _ total] effectD(2) [OF q] b(2) by (auto simp: it pt_limit_def)
  obtain t where t: "find_kernel_size D fr gpte s4 = Some t" "quiet ?F s4 t"
    using find_kernel_size_run [OF live D fr effectD(1) [OF s4(2)] found] by blast
  have run: "cboot_main D idt handlers fr ?s = load_kernel D fr gpte t"
    unfolding cboot_main_def by (simp only: s1(1) s2(1) s3(1) s4(1) t(1) Option.bind.simps prod.case sum.case)
  have step: "effect ?P R 4096 (window (free_total rs)) (\<lambda>m. m) u t"
    if "quiet R' u s3" "R' \<subseteq> R" "?F \<subseteq> R" for u R R'
    using effect_quiet [OF quiet_effect [OF that(1) effect_mono [OF s4(2), of R] that(2)] t(2) that(3)] by simp
  have all: "effect ?P ?R 4096 (window (free_total rs)) (\<lambda>m. m) ?s t"
    using step [OF q, of ?R] areas by simp
  have late: "effect ?P (?G \<union> ?F) 4096 (window (free_total rs)) (\<lambda>m. m) s1 t"
    using step [OF quiet_trans [OF s2(2) s3(2)], of "?G \<union> ?F"] by simp
  have "mem t x = 0" if x: "x \<in> span (boot_info fr) 24" for x
  proof -
    have "x \<notin> ?G \<union> ?F" using frames_okD(6,7) [OF fr] x by blast
    then show ?thesis
      using effect_above [OF effectD(1) [OF s1(2)] late] in_stackD [OF frames_okD(4) [OF fr] x] s1(3) x by simp
  qed
  moreover have "map_at (mem t) BIOS_MEMORY_MAP_LOCATION rs"
    using map_s [OF all] by blast
  ultimately show ?thesis using run all by blast
qed

section \<open>Loading the file\<close>

text \<open>The translation at this point, and what clearing the memory allocated does.\<close>

lemma prefix_translation:
  assumes "effect P R n (window sz) (\<lambda>m. m) (boot_machine m) t"
  shows "walk (mem t) (cr3 t) = boot_translation m sz"
  using effectD(2) [OF assms] effectD(4) [OF assms] by (simp add: boot_translation_def)

lemma allocate_run:
  assumes "map_at (mem s) BIOS_MEMORY_MAP_LOCATION rs"
  shows "allocate_space_for_kernel n s = Some (case find (suitable n) rs of
    None \<Rightarrow> 0 | Some r \<Rightarrow> physical_to_virtual_pointer (base_address r))"
  using allocate_loop_run [OF assms] by (simp add: allocate_space_for_kernel_def)

lemma suitable_base: "find (suitable n) rs = Some r \<Longrightarrow> 0x100000 \<le> unat (base_address r)"
  by (auto simp: find_Some_iff suitable_def MINBASE_def word_le_nat_alt)

lemma allocated_run:
  assumes ok: "tables_ok (mem s) (pt_it s)" and tr: "walk (mem s) (cr3 s) = boot_translation m0 (free_total rs)"
    and total: "unat (free_total rs) \<le> 511 * 2 ^ 30"
    and map: "map_at (mem s) BIOS_MEMORY_MAP_LOCATION rs" and e: "kernel_base rs e"
  shows "\<exists>t. load_kernel D fr gpte s = load_kernel_file D fr gpte e t \<and> quiet (span e 268435456) s t \<and>
    (\<forall>x \<in> span e 268435456. mem t x = 0) \<and> trace t = trace s"
proof -
  note win = kernel_base_window [OF e total]
  define m where "m = (\<lambda>x. if x \<in> span e 268435456 then 0 else mem s x)"
  obtain r where r: "find (suitable 268435456) rs = Some r"
    "unat (base_address r) + 268435456 \<le> window_end rs" "e = physical_to_virtual_pointer (base_address r)"
    using e by (auto simp: kernel_base_def)
  have "allocate_space_for_kernel 268435456 s = Some e" using allocate_run [OF map] r(1,3) by simp
  moreover have "mmu_clear e 268435456 s = Some (Inr (s\<lparr>mem := m\<rparr>))"
    unfolding m_def by (rule clear_fits [OF tr gigs_le [OF total] suitable_base [OF r(1)] r(2,3)])
  ultimately have "load_kernel D fr gpte s = load_kernel_file D fr gpte e (s\<lparr>mem := m\<rparr>)"
    using win(3) by (simp add: load_kernel_def)
  moreover have "quiet (span e 268435456) s (s\<lparr>mem := m\<rparr>)"
    using window_tables [OF win(1) ok] by (intro effect_memory [OF ok]) (auto simp: m_def)
  ultimately show ?thesis by (intro exI [of _ "s\<lparr>mem := m\<rparr>"]) (simp add: m_def)
qed

lemma file_absent_run:
  assumes live: "serial_live D" and D: "ata_drive D disk" and fr: "frames_ok fr" and ok: "tables_ok (mem s) (pt_it s)"
    and none: "lookup (sector disk gpte) blocks32 (bytes ''/sys/kernel.elf'') 0 None"
  shows "\<exists>t cs. load_kernel_file D fr gpte e s = Some (Halted t) \<and> quiet (frame (ustar_buf fr) (ustar_name fr)) s t \<and>
    transmitted (trace t) = cs @ bytes ''Error loading kernel fileHalting''"
proof -
  let ?F = "frame (ustar_buf fr) (ustar_name fr)"
  obtain u where u: "putln D ''Loading kernel'' s = Some u" "console_same s u" using prints(1) [OF live] by blast
  obtain w where w: "ustar_load_file D (ustar_buf fr) (ustar_name fr) gpte kernel_path (e + 167772160) u = Some (0, w)"
    "io_step ?F u w"
    using load_file_absent [OF D frames_okD(5) [OF fr], where path = kernel_path, unfolded kernel_path_bytes, OF none]
    by blast
  obtain t where t: "Option.bind (putl D ''Error loading kernel file'' w) (halt D) = Some (Halted t)" "console_same w t"
    "transmitted (trace t) = transmitted (trace w) @ bytes ''Error loading kernel file'' @ bytes ''Halting''"
    using say_halt_run [OF live, of "bytes ''Error loading kernel file''" w] by auto
  have "load_kernel_file D fr gpte e s = Some (Halted t)"
    unfolding load_kernel_file_def Let_def by (simp only: u(1) w(1) Option.bind.simps prod.case simp_thms if_True t(1))
  moreover have "x \<in> ?F \<Longrightarrow> \<not> in_tables (mem s) x" for x
    using stack_tables [OF fr ok, of x] unfolding stack_area_def by blast
  then have "quiet ?F s t"
    using io_step_trans [OF io_step_trans [OF console_io_step [OF u(2)] w(2)] console_io_step [OF t(2)]]
    by (intro effect_io [OF ok])
  moreover have "transmitted (trace t) = transmitted (trace w) @ bytes ''Error loading kernel fileHalting''"
    unfolding t(3) by (simp add: bytes_def)
  ultimately show ?thesis by blast
qed

text \<open>The file loaded into cleared memory is the image followed by zeros.\<close>

lemma image_deposited:
  assumes e: "in_window e 268435456" and n: "n < 256"
    and zero: "\<forall>x \<in> span e 268435456. mem s x = 0"
    and filled: "\<forall>i < 512 * n. mem t (e + of_nat elf_offset + of_nat i) = sector disk gpte (k + 1) i"
    and other: "\<And>x. x \<in> span e 268435456 \<Longrightarrow> x \<notin> span (e + of_nat elf_offset) (512 * n) \<Longrightarrow> mem t x = mem s x"
  shows "holds (e + of_nat elf_offset) elf_room (kernel_image disk gpte k n) t"
    "\<forall>x \<in> span e elf_offset. mem t x = 0"
proof -
  let ?k = "e + of_nat elf_offset :: u64"
  have sub: "span ?k elf_room \<subseteq> span e 268435456" "span e elf_offset \<subseteq> span e 268435456"
    using in_window_sub(2) [OF e, of elf_offset elf_room] in_window_sub(2) [OF e, of 0 elf_offset] by simp_all
  have n_room: "512 * n \<le> elf_room" using n by simp
  show "holds ?k elf_room (kernel_image disk gpte k n) t"
    unfolding holds_def
  proof (intro allI impI)
    fix i
    assume i: "i < elf_room"
    then have x: "?k + of_nat i \<in> span e 268435456" by (intro subsetD [OF sub(1)] span_add) simp_all
    show "mem t (?k + of_nat i) = kernel_image disk gpte k n i"
    proof (cases "i < 512 * n")
      case True
      then show ?thesis using filled by (simp add: kernel_image_def)
    next
      case False
      then have "?k + of_nat i \<notin> span ?k (512 * n)" using i by (simp add: in_span unat_of_nat)
      then show ?thesis using other zero x False by (simp add: kernel_image_def)
    qed
  qed
  have "x \<notin> span ?k (512 * n)" if "x \<in> span e elf_offset" for x
  proof
    assume "x \<in> span ?k (512 * n)"
    then have "x \<in> span ?k elf_room" using span_mono [OF n_room] by blast
    then have "elf_offset \<le> unat (x - e)" using in_span_offset [of elf_offset elf_room x e] by simp
    then show False using that by (simp add: in_span)
  qed
  then show "\<forall>x \<in> span e elf_offset. mem t x = 0" using other zero sub(2) by auto
qed

lemma file_loaded_run:
  assumes live: "serial_live D" and D: "ata_drive D disk" and fr: "frames_ok fr" and ok: "tables_ok (mem s) (pt_it s)"
    and e: "in_window e 268435456" and zero: "\<forall>x \<in> span e 268435456. mem s x = 0"
    and found: "lookup (sector disk gpte) blocks32 (bytes ''/sys/kernel.elf'') 0 (Some k)"
    and n: "n = unat (blocks32 (sector disk gpte k)) mod 256"
    and some: "(ucast (tar_size (sector disk gpte k)) :: u32) \<noteq> 0" and v: "v = kernel_image disk gpte k n"
  shows "\<exists>t. load_kernel_file D fr gpte e s = (if List.map v [0..<4] = 0x7F # bytes ''ELF''
      then start_kernel D fr e (e + of_nat elf_offset) t
      else Option.bind (putln D ''ERR: ELF signature not matching'' t) (halt D)) \<and>
    quiet (span (e + of_nat elf_offset) elf_room \<union> frame (ustar_buf fr) (ustar_name fr)) s t \<and>
    holds (e + of_nat elf_offset) elf_room v t \<and> (\<forall>x \<in> span e elf_offset. mem t x = 0)"
proof -
  let ?F = "frame (ustar_buf fr) (ustar_name fr)" and ?k = "e + of_nat elf_offset :: u64"
  have n_room: "512 * n \<le> elf_room" using n by simp
  have kwin: "in_window ?k elf_room" "span ?k elf_room \<subseteq> span e 268435456"
    using in_window_sub [OF e, of elf_offset elf_room] by simp_all
  obtain u where u: "putln D ''Loading kernel'' s = Some u" "console_same s u" using prints(1) [OF live] by blast
  obtain w where w: "ustar_load_file D (ustar_buf fr) (ustar_name fr) gpte kernel_path ?k u
      = Some (ucast (ucast (tar_size (sector disk gpte k)) :: u32), w)"
    "\<forall>i < 512 * n. mem w (?k + of_nat i) = sector disk gpte (k + 1) i"
    "io_step (?F \<union> span ?k (512 * n)) u w"
    using load_file_run [OF D frames_okD(5) [OF fr], where path = kernel_path, unfolded kernel_path_bytes, OF found n]
    by blast
  obtain t where t: "putln D ''Loaded Kernel'' w = Some t" "console_same w t" using prints(1) [OF live] by blast
  have io: "io_step (?F \<union> span ?k (512 * n)) s t"
    using io_step_trans [OF io_step_trans [OF console_io_step [OF u(2)] w(3)] console_io_step [OF t(2)]] .
  have off: "x \<notin> vga_region" if "x \<in> span e 268435456" for x using in_windowD(3) [OF e that] .
  have same: "mem t x = mem s x" if "x \<in> span e 268435456" "x \<notin> span ?k (512 * n)" for x
  proof -
    have "x \<notin> ?F" using stack_window_apart [OF fr e] that(1) unfolding stack_area_def by blast
    then show ?thesis using io off [OF that(1)] that(2) by (simp add: io_step_def)
  qed
  have filled: "\<forall>i < 512 * n. mem t (?k + of_nat i) = sector disk gpte (k + 1) i"
  proof (intro allI impI)
    fix i
    assume i: "i < 512 * n"
    then have "?k + of_nat i \<in> span ?k elf_room" using n_room by (intro span_add) simp_all
    then have "?k + of_nat i \<notin> vga_region" using off kwin(2) by blast
    then show "mem t (?k + of_nat i) = sector disk gpte (k + 1) i"
      using t(2) w(2) i by (simp add: console_same_def)
  qed
  have "n < 256" using n by simp
  note img = image_deposited [OF e this zero filled same, folded v]
  have magic: "memcmp (at (mem t) ?k) (lit (0x7F # bytes ''ELF'')) 4 = 0 \<longleftrightarrow> List.map v [0..<4] = 0x7F # bytes ''ELF''"
  proof -
    have "at (mem t) ?k i = v i" if "i < 4" for i using img(1) that by (simp add: holds_def at_def)
    moreover have "lit (0x7F # bytes ''ELF'') i = (0x7F # bytes ''ELF'') ! i" if "i < 4" for i
      using that by (simp add: lit_def)
    ultimately have "memcmp (at (mem t) ?k) (lit (0x7F # bytes ''ELF'')) 4 = 0
        \<longleftrightarrow> (\<forall>i < 4. v i = (0x7F # bytes ''ELF'') ! i)"
      by (simp add: memcmp_0_iff)
    also have "\<dots> \<longleftrightarrow> List.map v [0..<4] = 0x7F # bytes ''ELF''"
      by (subst list_eq_iff_nth_eq) (auto simp: bytes_def)
    finally show ?thesis .
  qed
  have size: "(ucast (ucast (tar_size (sector disk gpte k)) :: u32) :: u64) \<noteq> 0"
    using some unat_ucast_up [of "ucast (tar_size (sector disk gpte k)) :: u32", where 'b = 64]
    by (auto simp: word_unat_eq_iff)
  have "load_kernel_file D fr gpte e s = (if List.map v [0..<4] = 0x7F # bytes ''ELF''
      then start_kernel D fr e ?k t else Option.bind (putln D ''ERR: ELF signature not matching'' t) (halt D))"
    using size unfolding load_kernel_file_def Let_def
    by (simp only: u(1) w(1) [unfolded of_nat_numeral] of_nat_numeral Option.bind.simps prod.case if_False t(1)
        magic [unfolded of_nat_numeral] not_not if_not_P simp_thms) simp
  moreover have "x \<in> span ?k elf_room \<union> ?F \<Longrightarrow> \<not> in_tables (mem s) x" for x
    using stack_tables [OF fr ok, of x] window_tables [OF kwin(1) ok, of x] unfolding stack_area_def by blast
  then have "quiet (span ?k elf_room \<union> ?F) s t"
    using io_step_mono [OF io, of "span ?k elf_room \<union> ?F"] span_mono [OF n_room, of ?k]
    by (intro effect_io [OF ok]) blast+
  ultimately show ?thesis using img by blast
qed

section \<open>Starting the kernel\<close>

lemma fold_copy_zero:
  "m x = 0 \<Longrightarrow> fold (copy_segment cb v) phs m x = fold (copy_segment cb v) phs (\<lambda>_. 0) x"
  using pointwise_copies [of cb v phs] unfolding pointwise_def by metis

text \<open>What the kernel finds, given the machine \<open>s\<close> before its segments were loaded.\<close>

definition kernel_started :: "boot_frame \<Rightarrow> u64 \<Rightarrow> view \<Rightarrow> machine \<Rightarrow> machine \<Rightarrow> bool" where
  "kernel_started fr e v s t \<longleftrightarrow>
     effect (\<lambda>_. True) (span (boot_info fr) 24) (sum_list (map room_for (segments v 0)))
       (fold (map_segment e) (segments v 0)) (fold (copy_segment e v) (segments v 0)) s t \<and>
     load64 (mem t) (bios_memory_map_address (boot_info fr)) = 0x500 \<and>
     load64 (mem t) (kernel_paddr (boot_info fr)) = e AND NOT 0xFFFFE00000000000 \<and>
     load64 (mem t) (kernel_size (boot_info fr))
       = load64 (mem s) (kernel_size (boot_info fr)) + sum_list (map memsz (segments v 0))"

lemma start_kernel_run:
  assumes live: "serial_live D" and info: "in_stack (boot_info fr) 24"
    and K: "kernel_ok v N k e (kernel_size (boot_info fr))"
    and ok: "tables_ok (mem s) (pt_it s)" and img: "holds k N v s"
    and free: "\<forall>ph \<in> set (segments v 0). pages_mappable (mem s) ph"
    and room: "unat (pt_it s) + sum_list (map room_for (segments v 0)) \<le> pt_limit"
  shows "\<exists>t. start_kernel D fr e k s = Some (Jumped (entry_point (elf_file_header v)) (boot_info fr) t) \<and>
    kernel_started fr e v s t"
proof -
  let ?p = "boot_info fr"
  note f = boot_info_fields [OF info]
  obtain t where t: "map_kernel D k e (kernel_size ?p) s = Some (entry_point (elf_file_header v), t)"
    "loaded e (kernel_size ?p) v (segments v 0) s t"
    using map_kernel_run [OF live K ok img free room] by blast
  note l = t(2) [unfolded loaded_def, THEN conjunct1]
  obtain u where u: "putln D ''KERNEL MAPPED, JUMPING TO KERNEL'' t = Some u" "console_same t u"
    using prints(1) [OF live] by blast
  note q = effect_console [OF effectD(1) [OF l] u(2)]
  define m where "m = store64 (store64 (mem u) (bios_memory_map_address ?p) 0x500) (kernel_paddr ?p)
    (e AND NOT 0xFFFFE00000000000)"
  have out: "m x = mem u x" if "x \<notin> span ?p 24" for x
    using subsetD [OF f(1), of x] subsetD [OF f(2), of x] that unfolding m_def by (metis store64_out)
  have "x \<notin> span ?p 24" if "in_tables (mem u) x" for x
    using above_pool_tables [OF effectD(1) [OF q]] in_stackD [OF info] that by blast
  then have w: "quiet (span ?p 24) u (u\<lparr>mem := m\<rparr>)"
    using out by (intro effect_memory [OF effectD(1) [OF q]]) blast+
  have "load64 (mem u) (kernel_size ?p) = load64 (mem t) (kernel_size ?p)"
  proof (rule load64_cong)
    fix x assume "x \<in> span (kernel_size ?p) 8"
    then have "x \<notin> vga_region" using in_stackD [OF info, of x] f(3) by blast
    then show "mem u x = mem t x" using u(2) by (simp add: console_same_def)
  qed
  then have "load64 m (kernel_size ?p) = load64 (mem s) (kernel_size ?p) + sum_list (map memsz (segments v 0))"
    using t(2) f(5,6) by (simp add: m_def load64_store64_apart loaded_def)
  moreover have "load64 m (bios_memory_map_address ?p) = 0x500"
    using f(4) by (simp add: m_def load64_store64_apart Int_commute)
  moreover have "load64 m (kernel_paddr ?p) = e AND NOT 0xFFFFE00000000000" by (simp add: m_def)
  moreover have "effect (\<lambda>_. True) (span ?p 24) (sum_list (map room_for (segments v 0)))
       (fold (map_segment e) (segments v 0)) (fold (copy_segment e v) (segments v 0)) s (u\<lparr>mem := m\<rparr>)"
    by (rule effect_quiet [OF effect_quiet [OF effect_mono [OF l f(3) order_refl] q [of _ "{}"]] w]) simp_all
  moreover have "start_kernel D fr e k s = Some (Jumped (entry_point (elf_file_header v)) ?p (u\<lparr>mem := m\<rparr>))"
    unfolding start_kernel_def by (simp only: t(1) u(1) Option.bind.simps prod.case Let_def m_def
        machine.select_convs machine.update_convs) simp
  ultimately show ?thesis unfolding kernel_started_def by (intro exI [of _ "u\<lparr>mem := m\<rparr>"]) simp
qed

lemma load_kernel_run:
  assumes live: "serial_live D" and D: "ata_drive D disk" and fr: "frames_ok fr"
    and map: "map_at (mem s) BIOS_MEMORY_MAP_LOCATION rs" and e: "kernel_base rs e"
    and found: "lookup (sector disk gpte) blocks32 (bytes ''/sys/kernel.elf'') 0 (Some k)"
    and n: "n = unat (blocks32 (sector disk gpte k)) mod 256"
    and some: "(ucast (tar_size (sector disk gpte k)) :: u32) \<noteq> 0"
    and v: "v = kernel_image disk gpte k n" and elf: "List.map v [0..<4] = 0x7F # bytes ''ELF''"
    and K: "kernel_ok v elf_room (e + of_nat elf_offset) e (kernel_size (boot_info fr))"
    and ok: "tables_ok (mem s) (pt_it s)" and tr: "walk (mem s) (cr3 s) = boot_translation m0 (free_total rs)"
    and total: "unat (free_total rs) \<le> 511 * 2 ^ 30"
    and free: "\<forall>ph \<in> set (segments v 0). pages_mappable (mem s) ph"
    and room: "unat (pt_it s) + sum_list (List.map room_for (segments v 0)) \<le> pt_limit"
  shows "\<exists>t u. load_kernel D fr gpte s = Some (Jumped (entry_point (elf_file_header v)) (boot_info fr) u) \<and>
    quiet (span e 268435456 \<union> frame (ustar_buf fr) (ustar_name fr)) s t \<and>
    (\<forall>x \<in> span e elf_offset. mem t x = 0) \<and> kernel_started fr e v t u"
proof -
  note win = kernel_base_window [OF e total]
  let ?F = "frame (ustar_buf fr) (ustar_name fr)" and ?k = "e + of_nat elf_offset :: u64"
  obtain a where a: "load_kernel D fr gpte s = load_kernel_file D fr gpte e a" "quiet (span e 268435456) s a"
    "\<forall>x \<in> span e 268435456. mem a x = 0"
    using allocated_run [OF ok tr total map e] by blast
  obtain t where t: "load_kernel_file D fr gpte e a = start_kernel D fr e ?k t"
    "quiet (span ?k elf_room \<union> ?F) a t" "holds ?k elf_room v t" "\<forall>x \<in> span e elf_offset. mem t x = 0"
    using file_loaded_run [OF live D fr effectD(1) [OF a(2)] win(1) a(3) found n some v] elf by auto
  have "span ?k elf_room \<subseteq> span e 268435456" using in_window_sub(2) [OF win(1), of elf_offset elf_room] by simp
  then have q: "quiet (span e 268435456 \<union> ?F) s t"
    by (intro effect_quiet [OF effect_mono [OF a(2)] t(2)]) auto
  have "\<forall>ph \<in> set (segments v 0). pages_mappable (mem t) ph"
    using free effectD(5) [OF q] by (simp add: pages_mappable_def)
  moreover have "unat (pt_it t) + sum_list (List.map room_for (segments v 0)) \<le> pt_limit"
    using room effectD(3) [OF q] by linarith
  ultimately obtain u where "start_kernel D fr e ?k t
      = Some (Jumped (entry_point (elf_file_header v)) (boot_info fr) u)" "kernel_started fr e v t u"
    using start_kernel_run [OF live frames_okD(4) [OF fr] K effectD(1) [OF q] t(3)] by blast
  with a(1) t(1,4) q show ?thesis by auto
qed

section \<open>The whole procedure\<close>

definition kernel_pages_free :: "ELF64ProgramHeader \<Rightarrow> bool" where
  "kernel_pages_free ph \<longleftrightarrow>
     (\<forall>j < unat (num_pages ph). l4_index (page_va ph j) \<noteq> 0 \<and> l4_index (page_va ph j) \<noteq> 256)"

lemma kernel_pages_mappable:
  assumes e: "effect (\<lambda>va. l4_index va \<noteq> 256) R n f g (boot_machine m) t" and free: "kernel_pages_free ph"
  shows "pages_mappable (mem t) ph"
  unfolding pages_mappable_def
proof (intro allI impI)
  fix j
  assume "j < unat (num_pages ph)"
  then have "l4_index (page_va ph j) \<noteq> 0" "l4_index (page_va ph j) \<noteq> 256"
    using free by (simp_all add: kernel_pages_free_def)
  then show "mappable (mem t) (page_va ph j)"
    using effectD(5) [OF e] boot_mappable [of "page_va ph j" m] by simp
qed

text \<open>
  The run from the first instruction of the C code: \<open>w\<close> is the machine when the kernel's memory is
  allocated, \<open>t\<close> the one with the file in it and \<open>u\<close> the one handed to the kernel.
\<close>

lemma cboot_main_run:
  assumes live: "serial_live D" and D: "ata_drive D disk" and fr: "frames_ok fr" and idt: "idt_ok idt"
    and map: "map_at m BIOS_MEMORY_MAP_LOCATION rs" "length rs \<le> 100"
    and total: "0 < free_total rs" "unat (free_total rs) \<le> 511 * 2 ^ 30"
    and r: "find (suitable 268435456) rs = Some r" "unat (base_address r) + 268435456 \<le> window_end rs"
    and e: "e = physical_to_virtual_pointer (base_address r)"
    and gpt: "sz = unat (word_of_bytes (List.map disk [596..<600]) :: u32)"
      "gpt_table (\<lambda>i. disk (1024 + i)) sz cnt"
      "find (named (lit (bytes ''OSDEV Root Partition''))) (table_entries (\<lambda>i. disk (1024 + i)) sz cnt) = Some gpte"
    and kfile: "lookup (sector disk gpte) blocks64 (bytes ''/sys/kernel.elf'') 0 r64"
      "lookup (sector disk gpte) blocks32 (bytes ''/sys/kernel.elf'') 0 (Some k)"
      "n = unat (blocks32 (sector disk gpte k)) mod 256"
      "(ucast (tar_size (sector disk gpte k)) :: u32) \<noteq> 0"
    and v: "v = kernel_image disk gpte k n" "List.map v [0..<4] = 0x7F # bytes ''ELF''"
    and K: "kernel_ok v elf_room (e + of_nat elf_offset) e (kernel_size (boot_info fr))"
    and free: "\<forall>ph \<in> set (segments v 0). kernel_pages_free ph"
    and room: "0x21000 + sum_list (List.map room_for (segments v 0)) \<le> pt_limit"
  shows "\<exists>t u. cboot_main D idt handlers fr (boot_machine m)
      = Some (Jumped (entry_point (elf_file_header v)) (boot_info fr) u) \<and>
    effect (\<lambda>va. l4_index va \<noteq> 256) (span idt 512 \<union> stack_area fr \<union> span e 268435456) 4096
      (window (free_total rs)) (\<lambda>m. m) (boot_machine m) t \<and>
    (\<forall>x \<in> span e elf_offset. mem t x = 0) \<and> load64 (mem t) (kernel_size (boot_info fr)) = 0 \<and>
    kernel_started fr e v t u"
proof -
  let ?F = "frame (ustar_buf fr) (ustar_name fr)" and ?p = "boot_info fr"
  have base: "kernel_base rs e" using r e by (auto simp: kernel_base_def)
  note win = kernel_base_window [OF base total(2)]
  have gpte: "gpte = (case find (named (lit (bytes ''OSDEV Root Partition''))) (table_entries (\<lambda>i. disk (1024 + i)) sz cnt) of
      None \<Rightarrow> empty_entry | Some g \<Rightarrow> g)" by (simp add: gpt(3))
  obtain w where w: "cboot_main D idt handlers fr (boot_machine m) = load_kernel D fr gpte w"
    "effect (\<lambda>va. l4_index va \<noteq> 256) (span idt 512 \<union> stack_area fr) 4096 (window (free_total rs)) (\<lambda>m. m) (boot_machine m) w"
    "\<forall>x \<in> span ?p 24. mem w x = 0" "map_at (mem w) BIOS_MEMORY_MAP_LOCATION rs"
    using prefix_run [OF live D fr idt map total gpt(1,2) gpte kfile(1)] by blast
  have "\<forall>ph \<in> set (segments v 0). pages_mappable (mem w) ph"
    using kernel_pages_mappable [OF w(2)] free by blast
  moreover have "unat (pt_it w) + sum_list (List.map room_for (segments v 0)) \<le> pt_limit"
    using room effectD(3) [OF w(2)] by simp
  ultimately obtain t u where t: "load_kernel D fr gpte w = Some (Jumped (entry_point (elf_file_header v)) ?p u)"
    "quiet (span e 268435456 \<union> ?F) w t" "\<forall>x \<in> span e elf_offset. mem t x = 0" "kernel_started fr e v t u"
    using load_kernel_run [OF live D fr w(4) base kfile(2-4) v K effectD(1) [OF w(2)] prefix_translation [OF w(2)] total(2)] by blast
  have "mem t x = 0" if x: "x \<in> span ?p 24" for x
  proof -
    have "x \<notin> span e 268435456 \<union> ?F"
      using frames_okD(7) [OF fr] stack_window [OF frames_okD(4) [OF fr] win(1)] x by blast
    then show ?thesis
      using effect_above [OF effectD(1) [OF w(2)] t(2)] in_stackD [OF frames_okD(4) [OF fr] x] w(3) x by simp
  qed
  then have "load64 (mem t) (kernel_size ?p) = 0"
    using boot_info_fields(3) [OF frames_okD(4) [OF fr]] by (intro load64_zero) blast
  moreover have "effect (\<lambda>va. l4_index va \<noteq> 256) (span idt 512 \<union> stack_area fr \<union> span e 268435456) 4096
      (window (free_total rs)) (\<lambda>m. m) (boot_machine m) t"
    by (rule effect_quiet [OF effect_mono [OF w(2)] t(2)]) (auto simp: stack_area_def)
  ultimately show ?thesis using w(1) t(1,3,4) by auto
qed

end
