(* ===== verification/BootExample.thy ===== *)
theory BootExample
  imports BootRun
begin

text \<open>
  An example for the witnesses: a disk with a partition table and an archive whose first entry is the
  kernel file, the stack frames, and the facts that meet the conditions of the boot procedure.
\<close>

section \<open>An example disk\<close>

lemma lit_pad: "lit (xs @ replicate n 0) = lit xs"
  by (auto simp: lit_def nth_append fun_eq_iff)

definition boot_blocks :: "view \<Rightarrow> nat \<Rightarrow> view" where
  "boot_blocks elf b =
     (if b = 1 then (\<lambda>i. if i = 84 then 128 else 0)
      else if b = 2 then (\<lambda>i. if i = 0 then 1 else if i = 32 then 34
        else if 56 \<le> i \<and> i < 96 \<and> even i then bytes ''OSDEV Root Partition'' ! ((i - 56) div 2) else 0)
      else if b = 34 then tar_header (bytes ''sys/kernel.elf'') 0x30 0x1008
      else if 34 < b \<and> b < 44 then (\<lambda>i. elf (512 * (b - 35) + i)) else (\<lambda>_. 0))"

definition boot_disk :: "view \<Rightarrow> disk" where
  "boot_disk elf = disk_of (boot_blocks elf)"

definition boot_entry :: "view \<Rightarrow> GPTEntry" where
  "boot_entry elf = gpt_entry (\<lambda>i. boot_disk elf (1024 + i))"

lemma boot_disk_at: "i < 512 \<Longrightarrow> boot_disk elf (512 * b + i) = boot_blocks elf b i"
  by (simp add: boot_disk_def disk_of_def)

lemma boot_disk_gpt:
  "128 = unat (word_of_bytes (map (boot_disk elf) [596..<600]) :: u32)"
  "boot_disk elf (1024 + i) = (if i < 512 then boot_blocks elf 2 i else if i < 1024 then 0 else boot_disk elf (1024 + i))"
proof -
  have "boot_disk elf (512 * 1 + 84) = 128" "boot_disk elf (512 * 1 + 85) = 0" "boot_disk elf (512 * 1 + 86) = 0"
    "boot_disk elf (512 * 1 + 87) = 0"
    by (subst boot_disk_at; simp add: boot_blocks_def)+
  then show "128 = unat (word_of_bytes (map (boot_disk elf) [596..<600]) :: u32)"
    by (simp add: upt_rec)
  show "boot_disk elf (1024 + i) = (if i < 512 then boot_blocks elf 2 i else if i < 1024 then 0 else boot_disk elf (1024 + i))"
  proof (cases "i < 512")
    case True
    then show ?thesis using boot_disk_at [of i elf 2] by simp
  next
    case False
    then show ?thesis using boot_disk_at [of "i - 512" elf 3] by (auto simp: boot_blocks_def)
  qed
qed

lemma boot_table: "gpt_table (\<lambda>i. boot_disk elf (1024 + i)) 128 1"
proof -
  have "boot_disk elf (1024 + 0) = 1" by (subst boot_disk_gpt(2)) (simp add: boot_blocks_def)
  then have "\<not> null_entry (shift (\<lambda>i. boot_disk elf (1024 + i)) 0)"
    unfolding null_entry_def not_all by (intro exI [of _ 0]) (simp add: shift_def)
  moreover have "boot_disk elf (1024 + (128 + i)) = 0" if "i < 16" for i
    by (subst boot_disk_gpt(2)) (use that in \<open>simp add: boot_blocks_def\<close>)
  then have "null_entry (shift (\<lambda>i. boot_disk elf (1024 + i)) 128)"
    unfolding null_entry_def shift_def by blast
  ultimately show ?thesis by (simp add: gpt_table_def)
qed

lemma boot_entry_fields:
  "starting_lba (boot_entry elf) = 34"
  "partition_name (boot_entry elf) = map ucast (bytes ''OSDEV Root Partition'') @ replicate 12 0"
proof -
  have "boot_disk elf (1024 + i) = boot_blocks elf 2 i" if "i < 120" for i
    using that boot_disk_gpt(2) [of elf i] by simp
  then have e: "boot_entry elf = gpt_entry (boot_blocks elf 2)"
    unfolding boot_entry_def by (rule gpt_entry_cong)
  show "starting_lba (boot_entry elf) = 34" unfolding e by (simp add: gpt_entry_def field_def boot_blocks_def upt_rec)
  show "partition_name (boot_entry elf) = map ucast (bytes ''OSDEV Root Partition'') @ replicate 12 0"
    unfolding e by (simp add: gpt_entry_def field_def boot_blocks_def upt_rec bytes_def) (simp add: eval_nat_numeral)
qed

lemma boot_sector:
  assumes "unat k < 1000" and "i < 512"
  shows "sector (boot_disk elf) (boot_entry elf) k i = boot_blocks elf (unat k + 34) i"
proof -
  have "sector (boot_disk elf) (boot_entry elf) k i = sector (boot_disk elf) at_34 k i"
    by (simp add: sector_def boot_entry_fields(1) at_34_def)
  then show ?thesis using sector_34 [OF assms] by (simp add: boot_disk_def)
qed

lemma boot_named:
  "find (named (lit (bytes ''OSDEV Root Partition''))) (table_entries (\<lambda>i. boot_disk elf (1024 + i)) 128 1)
     = Some (boot_entry elf)"
proof -
  have "map (\<lambda>x. ucast (ucast x :: 16 word)) (bytes ''OSDEV Root Partition'') = bytes ''OSDEV Root Partition''"
    by (simp add: bytes_def)
  then have "part_name (boot_entry elf) = bytes ''OSDEV Root Partition'' @ replicate 13 0"
    unfolding part_name_def boot_entry_fields by (simp add: o_def numeral_eq_Suc)
  then have "named (lit (bytes ''OSDEV Root Partition'')) (boot_entry elf)"
    by (simp only: named_def lit_pad)
  then show ?thesis by (simp add: table_entries_def boot_entry_def shift_0)
qed

lemma boot_header: "i < 512 \<Longrightarrow> sector (boot_disk elf) (boot_entry elf) 0 i = tar_header (bytes ''sys/kernel.elf'') 0x30 0x1008 i"
  by (simp add: boot_sector boot_blocks_def)

lemmas boot_file = header_facts [OF boot_header, where l = 14, simplified]

lemma boot_lookup: "lookup (sector (boot_disk elf) (boot_entry elf)) blocks (bytes ''/sys/kernel.elf'') 0 (Some 0)"
  by (rule lookup.present) (simp_all add: boot_file bytes_def)

lemma boot_image:
  assumes "\<And>i. 4608 \<le> i \<Longrightarrow> elf i = 0"
  shows "kernel_image (boot_disk elf) (boot_entry elf) 0 9 = elf"
proof
  fix i
  show "kernel_image (boot_disk elf) (boot_entry elf) 0 9 i = elf i"
  proof (cases "i < 4608")
    case True
    have b: "i div 512 < 9" using True by simp
    have "(512 * 35 + i) div 512 = 35 + i div 512" "(512 * 35 + i) mod 512 = i mod 512"
      by (simp_all only: div_mult_self4 mod_mult_self4)
    then have "boot_disk elf (512 * 35 + i) = elf i"
      using b unfolding boot_disk_def disk_of_def by (simp add: boot_blocks_def)
    then show ?thesis using True by (simp add: kernel_image_def sector_def boot_entry_fields(1))
  qed (use assms in \<open>simp add: kernel_image_def\<close>)
qed

definition boot_stack :: boot_frame where
  "boot_stack = \<lparr>gpt_buf = 0x6E000, ustar_buf = 0x6F000, ustar_name = 0x6F400, boot_info = 0x6FF00\<rparr>"

lemma boot_stack_ok: "frames_ok boot_stack"
proof -
  have "span 0x6E000 4096 \<inter> span 0x6FF00 24 = {}" "span 0x6F000 512 \<inter> span 0x6FF00 24 = {}"
    "span 0x6F400 257 \<inter> span 0x6FF00 24 = {}" "span 0x6F000 512 \<inter> span 0x6F400 257 = {}"
    by (rule span_disjoint; simp)+
  moreover have "span 0x6F000 512 \<inter> vga_region = {}" "span 0x6F400 257 \<inter> vga_region = {}"
    unfolding vga_region_def by (rule span_disjoint; simp add: vga_buffer_def)+
  ultimately show ?thesis
    by (auto simp: frames_ok_def boot_stack_def in_stack_def pt_limit_def frame_ok_def)
qed

lemma boot_size: "(ucast (tar_size (sector (boot_disk elf) (boot_entry elf) 0)) :: u32) \<noteq> 0"
  by (simp add: boot_file)

lemma boot_count: "9 = unat (blocks32 (sector (boot_disk elf) (boot_entry elf) 0)) mod 256"
  by (simp add: blocks32_def boot_file)

lemma sample_boot_image: "sample_elf = kernel_image (boot_disk sample_elf) (boot_entry sample_elf) 0 9"
  by (rule boot_image [symmetric]) (simp add: sample_elf_def)

lemma sample_signature: "List.map sample_elf [0..<4] = 0x7F # bytes ''ELF''"
  by (simp add: sample_elf_def bytes_def upt_rec)


lemma sample_free: "\<forall>ph \<in> set (segments sample_elf 0). kernel_pages_free ph"
proof -
  have "l4_index (page_va (phdr sample_elf 0) j) = 288" if "j < 2" for j
    using that by (auto simp: sample_phdr l4_index_def less_2_cases_iff)
  then show ?thesis by (simp add: sample_segments kernel_pages_free_def sample_pages)
qed

lemma sample_room_at: "it + 24576 \<le> pt_limit \<Longrightarrow> it + sum_list (List.map room_for (segments sample_elf 0)) \<le> pt_limit"
proof -
  have "card (regions (phdr sample_elf 0) 2) \<le> card {..<2 :: nat}"
    unfolding regions_def by (rule card_image_le) simp
  then show "it + 24576 \<le> pt_limit \<Longrightarrow> ?thesis" by (simp add: sample_segments room_for_def sample_pages)
qed

abbreviation sample_region :: BiosMemoryRegion where
  "sample_region \<equiv> \<lparr>base_address = 0x100000, map_size = 0x20000000, region_type = 1, acpi3 = 1\<rparr>"

lemma sample_free_total: "free_total sample_regions = 0x2009FC00"
  by (simp add: free_total_def sample_regions_def bios_types)

lemma sample_total: "0 < free_total sample_regions" "unat (free_total sample_regions) \<le> 511 * 2 ^ 30"
  by (simp_all add: sample_free_total)

lemma sample_window: "window_end sample_regions = 2 ^ 30"
  by (simp add: sample_free_total gigs_def)

lemma sample_memory:
  "length sample_regions \<le> 100" "find (suitable 268435456) sample_regions = Some sample_region"
  "unat (base_address sample_region) + 268435456 \<le> window_end sample_regions"
  "exe_base = physical_to_virtual_pointer (base_address sample_region)" "idt_ok 0x14000"
  unfolding sample_window
  by (simp_all add: sample_regions_def suitable_def bios_types MINBASE_def exe_base_def idt_ok_def
      physical_to_virtual_pointer_def physical_to_virtual_address_def)

lemma sample_kernel_fits:
  "kernel_ok sample_elf elf_room (exe_base + of_nat elf_offset) exe_base (kernel_size (boot_info boot_stack))"
proof -
  have "exe_base + of_nat elf_offset = elf_base" by (simp add: exe_base_def elf_base_def)
  moreover have "clear 0x6FF10 8"
    by (auto simp: clear_def above_pool_def span_iff pt_limit_def vga_region_def vga_buffer_def)
  ultimately show ?thesis
    using sample_kernel_ok [of elf_room "0x6FF10"] by (simp add: kernel_size_def boot_stack_def)
qed

lemma sample_inside:
  "\<forall>ph \<in> set (segments sample_elf 0). span (segment_dst exe_base ph) (unat (filesz ph)) \<subseteq> span exe_base elf_offset"
proof -
  have "span (segment_dst exe_base (phdr sample_elf 0)) 8 \<subseteq> span exe_base elf_offset"
    by (auto simp: segment_dst_def sample_phdr exe_base_def span_iff)
  then show ?thesis by (simp add: sample_segments sample_phdr)
qed

lemma sample_boot_room: "0x21000 + sum_list (List.map room_for (segments sample_elf 0)) \<le> pt_limit"
  by (rule sample_room_at) (simp add: pt_limit_def)

abbreviation sample_machine :: machine where
  "sample_machine \<equiv> boot_machine sample_map_memory"

abbreviation sample_drive :: "view \<Rightarrow> device" where
  "sample_drive elf \<equiv> with_drive (boot_disk elf) (\<lambda>_ _. 0x20)"

text \<open>The hypotheses up to the partition table, and those on the file.\<close>

lemmas sample_boot = ready_serial [of "boot_disk sample_elf"] with_drive_ata boot_stack_ok sample_memory(5) sample_map sample_memory(1) sample_total
  sample_memory(2-4) boot_disk_gpt(1) boot_table boot_named boot_lookup boot_lookup boot_count boot_size
  sample_boot_image sample_signature sample_kernel_fits sample_free sample_boot_room

text \<open>
  A machine whose free memory is not at the bottom of the physical addresses: 512 MiB from 1 GiB. The
  window is 1 GiB long and ends where the region begins.
\<close>

definition far_regions :: "BiosMemoryRegion list" where
  "far_regions =
    [\<lparr>base_address = 0, map_size = 0x9FC00, region_type = 1, acpi3 = 1\<rparr>,
     \<lparr>base_address = 0x40000000, map_size = 0x20000000, region_type = 1, acpi3 = 1\<rparr>]"

definition far_map_memory :: mem where
  "far_map_memory = store_bytes (\<lambda>_. 0) BIOS_MEMORY_MAP_LOCATION (map_bytes far_regions)"

lemma far_map: "map_at far_map_memory BIOS_MEMORY_MAP_LOCATION far_regions"
proof (rule map_at_bytes)
  show "load_bytes far_map_memory BIOS_MEMORY_MAP_LOCATION (24 * (length far_regions + 1)) = map_bytes far_regions"
    unfolding far_map_memory_def length_map_bytes [symmetric] by (rule load_store_bytes) (simp add: far_regions_def)
  show "\<forall>r \<in> set far_regions. region_type r \<noteq> 0" by (simp add: far_regions_def)
qed

lemma far_free_total: "free_total far_regions = 0x2009FC00"
  by (simp add: free_total_def far_regions_def bios_types)

lemma far_memory:
  "length far_regions \<le> 100" "0 < free_total far_regions" "unat (free_total far_regions) \<le> 511 * 2 ^ 30"
  "window_end far_regions = 2 ^ 30"
  "find (suitable 268435456) far_regions = Some \<lparr>base_address = 0x40000000, map_size = 0x20000000, region_type = 1, acpi3 = 1\<rparr>"
  unfolding far_free_total
  by (simp_all add: far_regions_def suitable_def bios_types MINBASE_def gigs_def)

text \<open>A blank disk: no partition, so the search reads sector 0, which is no header.\<close>

lemma blank_disk:
  "0 = unat (word_of_bytes (List.map (\<lambda>_. 0) [596..<600]) :: u32)" "gpt_table (\<lambda>i. 0) 0 0"
  "empty_entry = (case find (named (lit (bytes ''OSDEV Root Partition''))) (table_entries (\<lambda>i. 0) 0 0) of
      None \<Rightarrow> empty_entry | Some g \<Rightarrow> g)"
  "lookup (sector (\<lambda>_. 0) empty_entry) blocks (bytes ''/sys/kernel.elf'') 0 None"
proof -
  show "lookup (sector (\<lambda>_. 0) empty_entry) blocks (bytes ''/sys/kernel.elf'') 0 None"
    by (rule lookup.absent) (simp add: magic_def sector_def bytes_def upt_rec)
qed (simp_all add: upt_rec gpt_table_def null_entry_def shift_def table_entries_def)

end
