(* ===== verification/BootTheorems.thy ===== *)
theory BootTheorems
  imports BootExample
begin

text \<open>
  The properties of the boot procedure as a whole: the boot of a kernel and what it leaves alone, and
  the ways in which it fails.
\<close>

section \<open>The translation that stays\<close>

lemma segments_elsewhere:
  assumes "\<forall>ph \<in> set phs. kernel_pages_free ph" and "l4_index va = 0 \<or> l4_index va = 256"
  shows "fold (map_segment e) phs w va = w va"
  using assms(1)
proof (induction phs arbitrary: w)
  case (Cons ph phs)
  have "map_segment e ph w va = w va"
    using Cons.prems assms(2) by (force simp: map_segment_def kernel_pages_free_def page_path_def)
  then show ?case using Cons by simp
qed simp

lemma low_stays:
  assumes "\<forall>ph \<in> set phs. kernel_pages_free ph" and "unat va < 2 ^ 21"
  shows "fold (map_segment e) phs (boot_translation m sz) va = Some va"
proof -
  have "l4_index va = 0" using assms(2) by (simp add: word_unat_eq_iff unat_l4)
  then show ?thesis using segments_elsewhere [OF assms(1)] boot_low [OF assms(2)] by simp
qed

lemma region_stays:
  assumes "\<forall>ph \<in> set phs. kernel_pages_free ph" and b: "unat b + n \<le> gigs sz * 2 ^ 30" and sz: "gigs sz \<le> 511" and i: "i < n"
  shows "fold (map_segment e) phs (boot_translation m sz) (physical_to_virtual_pointer b + of_nat i) = Some (b + of_nat i)"
proof -
  let ?x = "physical_to_virtual_pointer b + of_nat i" and ?p = "unat b + i"
  have p: "?p < gigs sz * 2 ^ 30" using b i by linarith
  also have "\<dots> \<le> 511 * 2 ^ 30" using sz by simp
  finally have lim: "?p < 511 * 2 ^ 30" .
  have e: "unat (physical_to_virtual_pointer b) = 0xFFFF800000000000 + unat b"
    using lim by (intro window_pointer(2)) simp
  have x: "unat ?x = 0xFFFF800000000000 + ?p"
    using unat_add_of_nat [of "physical_to_virtual_pointer b" i] e lim by simp
  have "unat ?x = ?p + 2 ^ 39 * 33554176" unfolding x by simp
  then have "unat ?x div 2 ^ 39 = 33554176 + ?p div 2 ^ 39" by (simp only: div_mult_self2) simp
  then have "l4_index ?x = 256" using lim by (simp add: word_unat_eq_iff unat_l4)
  moreover have "boot_translation m sz ?x = Some (b + of_nat i)"
    using boot_window [OF x _ sz] p lim by simp
  ultimately show ?thesis using segments_elsewhere [OF assms(1)] by simp
qed

section \<open>Properties\<close>

text \<open>C1. The boot procedure, from the entry of the C code on the tables that the assembly code
  builds. With a terminated memory map that has at most 511 GiB of free memory and whose first suitable
  region of 256 MiB is in the window mapped, a partition of the expected name whose archive has the
  kernel file, and an ELF image whose segments keep to the program's part of the region, it returns by
  jumping to the entry point. The tables are then well formed and translate the window to physical
  memory, the pages of the segments as \<open>map_segment\<close> says and every other address as before; in
  particular the first 2 MiB, where the program, its stack and its tables are, and the region are
  mapped throughout. The program's 160 MiB are zero except for the bytes of the segments; and the
  structure handed over has the addresses of the memory map and of the program and the segments' total
  size.\<close>

theorem cboot_main_boots:
  assumes "serial_live D" and "ata_drive D disk" and "frames_ok fr" and "idt_ok idt"
    and "map_at m BIOS_MEMORY_MAP_LOCATION rs" "length rs \<le> 100"
    and "0 < free_total rs" "unat (free_total rs) \<le> 511 * 2 ^ 30"
    and "find (suitable 268435456) rs = Some r" "unat (base_address r) + 268435456 \<le> window_end rs"
    and "e = physical_to_virtual_pointer (base_address r)"
    and "sz = unat (word_of_bytes (List.map disk [596..<600]) :: u32)"
      "gpt_table (\<lambda>i. disk (1024 + i)) sz cnt"
      "find (named (lit (bytes ''OSDEV Root Partition''))) (table_entries (\<lambda>i. disk (1024 + i)) sz cnt) = Some gpte"
    and "lookup (sector disk gpte) blocks64 (bytes ''/sys/kernel.elf'') 0 r64"
      "lookup (sector disk gpte) blocks32 (bytes ''/sys/kernel.elf'') 0 (Some k)"
      "n = unat (blocks32 (sector disk gpte k)) mod 256"
      "(ucast (tar_size (sector disk gpte k)) :: u32) \<noteq> 0"
    and "v = kernel_image disk gpte k n" "List.map v [0..<4] = 0x7F # bytes ''ELF''"
    and "kernel_ok v elf_room (e + of_nat elf_offset) e (kernel_size (boot_info fr))"
    and "\<forall>ph \<in> set (segments v 0). kernel_pages_free ph"
    and "0x21000 + sum_list (List.map room_for (segments v 0)) \<le> pt_limit"
    and inside: "\<forall>ph \<in> set (segments v 0). span (segment_dst e ph) (unat (filesz ph)) \<subseteq> span e elf_offset"
  shows "\<exists>t. cboot_main D idt handlers fr (boot_machine m)
      = Some (Jumped (entry_point (elf_file_header v)) (boot_info fr) t) \<and>
    tables_ok (mem t) (pt_it t) \<and> cr3 t = p4table \<and>
    walk (mem t) p4table = fold (map_segment e) (segments v 0) (boot_translation m (free_total rs)) \<and>
    (\<forall>va. unat va < 2 ^ 21 \<longrightarrow> walk (mem t) p4table va = Some va) \<and>
    (\<forall>i < 268435456. walk (mem t) p4table (e + of_nat i) = Some (base_address r + of_nat i)) \<and>
    (\<forall>x \<in> span e elf_offset. mem t x = fold (copy_segment e v) (segments v 0) (\<lambda>_. 0) x) \<and>
    load64 (mem t) (bios_memory_map_address (boot_info fr)) = 0x500 \<and>
    load64 (mem t) (kernel_paddr (boot_info fr)) = base_address r \<and>
    load64 (mem t) (kernel_size (boot_info fr)) = sum_list (List.map memsz (segments v 0))"
proof -
  have "kernel_base rs e" using assms(9-11) by (auto simp: kernel_base_def)
  then have win: "in_window e elf_offset"
    using in_window_sub(1) [OF kernel_base_window(1) [OF _ assms(8)], of e 0 elf_offset] by simp
  obtain t u where run: "cboot_main D idt handlers fr (boot_machine m)
      = Some (Jumped (entry_point (elf_file_header v)) (boot_info fr) u)"
    and t: "effect (\<lambda>va. l4_index va \<noteq> 256) (span idt 512 \<union> stack_area fr \<union> span e 268435456) 4096
      (window (free_total rs)) (\<lambda>m. m) (boot_machine m) t" "\<forall>x \<in> span e elf_offset. mem t x = 0"
      "load64 (mem t) (kernel_size (boot_info fr)) = 0"
    and u: "kernel_started fr e v t u"
    using cboot_main_run [OF assms(1-23)] by blast
  note eff = u [unfolded kernel_started_def, THEN conjunct1]
  have "mem u x = fold (copy_segment e v) (segments v 0) (\<lambda>_. 0) x" if x: "x \<in> span e elf_offset" for x
  proof -
    have "x \<notin> span (boot_info fr) 24" using stack_window [OF frames_okD(4) [OF assms(3)] win] x by blast
    then have "mem u x = fold (copy_segment e v) (segments v 0) (mem t) x"
      using effect_above [OF effectD(1) [OF t(1)] eff] in_windowD [OF win x] by simp
    then show ?thesis using fold_copy_zero [of "mem t" x] t(2) x by simp
  qed
  moreover have w: "walk (mem u) p4table = fold (map_segment e) (segments v 0) (boot_translation m (free_total rs))"
    using effectD(4) [OF eff] effectD(4) [OF t(1)] by (simp add: boot_translation_def)
  moreover have "walk (mem u) p4table va = Some va" if "unat va < 2 ^ 21" for va
    unfolding w by (rule low_stays [OF assms(22) that])
  moreover have "walk (mem u) p4table (e + of_nat i) = Some (base_address r + of_nat i)" if "i < 268435456" for i
    unfolding w assms(11) by (rule region_stays [OF assms(22,10) gigs_le [OF assms(8)] that])
  moreover have "cr3 u = p4table" using effectD(2) [OF eff] effectD(2) [OF t(1)] by simp
  moreover have "e AND NOT 0xFFFFE00000000000 = base_address r"
    unfolding assms(11) using assms(10) window_end_le [OF assms(8)] by (intro kernel_paddr_value) simp
  ultimately show ?thesis using run effectD(1) [OF eff] u t(3) by (auto simp: kernel_started_def)
qed

theorem cboot_main_boots_witness:
  "\<exists>t. cboot_main (sample_drive sample_elf) 0x14000 (\<lambda>_. 0x10000) boot_stack sample_machine
      = Some (Jumped 0xFFFF900000000000 0x6FF00 t) \<and>
    walk (mem t) p4table 0xFFFF900000000123 = Some 0x100123 \<and>
    mem t 0xFFFF800000100003 = 0xAB \<and> load64 (mem t) 0x6FF08 = 0x100000"
proof -
  obtain t where t: "cboot_main (sample_drive sample_elf) 0x14000 (\<lambda>_. 0x10000) boot_stack sample_machine
      = Some (Jumped (entry_point (elf_file_header sample_elf)) (boot_info boot_stack) t)"
    "walk (mem t) p4table = fold (map_segment exe_base) (segments sample_elf 0)
       (boot_translation sample_map_memory (free_total sample_regions))"
    "\<forall>x \<in> span exe_base elf_offset. mem t x = fold (copy_segment exe_base sample_elf) (segments sample_elf 0) (\<lambda>_. 0) x"
    "load64 (mem t) (kernel_paddr (boot_info boot_stack)) = base_address sample_region"
    using cboot_main_boots [where handlers = "\<lambda>_. 0x10000", OF sample_boot sample_inside] by (elim exE conjE)
  have "0xFFFF800000100003 \<in> span exe_base elf_offset" by (simp add: in_span exe_base_def)
  then have "mem t 0xFFFF800000100003 = 0xAB"
    using t(3) sample_copied by (simp add: sample_segments)
  moreover have "walk (mem t) p4table 0xFFFF900000000123 = Some 0x100123"
    unfolding t(2) sample_segments using sample_translated by simp
  ultimately show ?thesis
    using t(1,4) by (simp add: sample_file_header boot_stack_def kernel_paddr_def)
qed

text \<open>C2. Nothing else is touched. Under the same conditions the boot changes no memory below 1 MiB except
  the boot tables at 0x1000, what the program occupies from 0x10000 to 0x70000 (its image with its
  variables and the interrupt table, the table pool and the stack) and the screen, and no memory of the
  window from 1 MiB on except the region allocated. The BIOS map whose address the kernel is given is
  therefore still there.\<close>

theorem cboot_main_confined:
  assumes "serial_live D" and "ata_drive D disk" and "frames_ok fr" and "idt_ok idt"
    and "map_at m BIOS_MEMORY_MAP_LOCATION rs" "length rs \<le> 100"
    and "0 < free_total rs" "unat (free_total rs) \<le> 511 * 2 ^ 30"
    and "find (suitable 268435456) rs = Some r" "unat (base_address r) + 268435456 \<le> window_end rs"
    and "e = physical_to_virtual_pointer (base_address r)"
    and "sz = unat (word_of_bytes (List.map disk [596..<600]) :: u32)"
      "gpt_table (\<lambda>i. disk (1024 + i)) sz cnt"
      "find (named (lit (bytes ''OSDEV Root Partition''))) (table_entries (\<lambda>i. disk (1024 + i)) sz cnt) = Some gpte"
    and "lookup (sector disk gpte) blocks64 (bytes ''/sys/kernel.elf'') 0 r64"
      "lookup (sector disk gpte) blocks32 (bytes ''/sys/kernel.elf'') 0 (Some k)"
      "n = unat (blocks32 (sector disk gpte k)) mod 256"
      "(ucast (tar_size (sector disk gpte k)) :: u32) \<noteq> 0"
    and "v = kernel_image disk gpte k n" "List.map v [0..<4] = 0x7F # bytes ''ELF''"
    and "kernel_ok v elf_room (e + of_nat elf_offset) e (kernel_size (boot_info fr))"
    and "\<forall>ph \<in> set (segments v 0). kernel_pages_free ph"
    and "0x21000 + sum_list (List.map room_for (segments v 0)) \<le> pt_limit"
    and inside: "\<forall>ph \<in> set (segments v 0). span (segment_dst e ph) (unat (filesz ph)) \<subseteq> span e elf_offset"
  shows "\<exists>entry t. cboot_main D idt handlers fr (boot_machine m) = Some (Jumped entry (boot_info fr) t) \<and>
    (\<forall>x. unat x < 0x100000 \<and> x \<notin> span 0x1000 0x4000 \<and> x \<notin> span 0x10000 0x60000 \<and> x \<notin> vga_region \<longrightarrow>
       mem t x = m x) \<and>
    (\<forall>x. 0xFFFF800000100000 \<le> unat x \<and> unat x < 0xFFFF808000000000 \<and> x \<notin> span e 268435456 \<longrightarrow> mem t x = m x) \<and>
    map_at (mem t) BIOS_MEMORY_MAP_LOCATION rs"
proof -
  let ?R = "span idt 512 \<union> stack_area fr \<union> span e 268435456"
  obtain t u where run: "cboot_main D idt handlers fr (boot_machine m)
      = Some (Jumped (entry_point (elf_file_header v)) (boot_info fr) u)"
    and t: "effect (\<lambda>va. l4_index va \<noteq> 256) ?R 4096 (window (free_total rs)) (\<lambda>m. m) (boot_machine m) t"
    and u: "kernel_started fr e v t u"
    using cboot_main_run [OF assms(1-23)] by blast
  have "span (boot_info fr) 24 \<subseteq> ?R" by (auto simp: stack_area_def)
  note eff = effect_trans [OF t effect_restrict [OF effect_mono [OF u [unfolded kernel_started_def, THEN conjunct1]
        this order_refl]] pointwise_copies]
  have "kernel_base rs e" using assms(9-11) by (auto simp: kernel_base_def)
  then have win: "in_window e 268435456" using kernel_base_window(1) assms(8) by blast
  have sub: "span e elf_offset \<subseteq> span e 268435456" using in_window_sub(2) [OF win, of 0 elf_offset] by simp
  have same: "mem u x = m x"
    if "x \<notin> span 0x1000 0x4000" "\<not> (0x20000 \<le> unat x \<and> unat x < pt_limit)" "x \<notin> vga_region" "x \<notin> ?R" for x
  proof -
    have "mem u x = fold (copy_segment e v) (segments v 0) (setup_paging m) x"
      by (rule effect_elsewhere [OF eff that]) simp
    also have "\<dots> = setup_paging m x" using inside sub that(4) by (intro copies_out) blast
    also have "\<dots> = m x" using that(1) by (intro setup_paging_out) simp
    finally show ?thesis .
  qed
  have low: "mem u x = m x" if "unat x < 0x100000" "x \<notin> span 0x1000 0x4000" "x \<notin> span 0x10000 0x60000"
    "x \<notin> vga_region" for x
  proof (rule same)
    show "x \<notin> ?R" using stack_areaD [OF assms(3), of x] in_windowD(1) [OF win, of x] assms(4) that
      by (auto simp: idt_ok_def span_iff pt_limit_def)
  qed (use that in \<open>auto simp: span_iff pt_limit_def\<close>)
  have high: "mem u x = m x" if "0xFFFF800000100000 \<le> unat x" "x \<notin> span e 268435456" for x
  proof (rule same)
    show "x \<notin> ?R" using stack_areaD [OF assms(3), of x] assms(4) that by (auto simp: idt_ok_def span_iff)
    show "x \<notin> vga_region" using that by (auto simp: vga_region_def vga_buffer_def span_iff)
  qed (use that in \<open>auto simp: span_iff pt_limit_def\<close>)
  have "mem u x = m x" if "x \<in> span BIOS_MEMORY_MAP_LOCATION (24 * (length rs + 1))" for x
    using map_low [OF assms(6) that] vga_high [of x] assms(4) by (intro low) (auto simp: span_iff idt_ok_def)
  moreover have "24 * (length rs + 1) < 2 ^ 64" using assms(6) by simp
  ultimately have "map_at (mem u) BIOS_MEMORY_MAP_LOCATION rs"
    using map_at_cong [of BIOS_MEMORY_MAP_LOCATION rs "mem u" m] assms(5) by blast
  then show ?thesis using run low high by blast
qed

theorem cboot_main_confined_witness:
  "\<exists>entry t. cboot_main (sample_drive sample_elf) 0x14000 (\<lambda>_. 0x10000) boot_stack sample_machine
      = Some (Jumped entry 0x6FF00 t) \<and> mem t 0x7C00 = sample_map_memory 0x7C00 \<and>
    map_at (mem t) BIOS_MEMORY_MAP_LOCATION sample_regions"
  using cboot_main_confined [where handlers = "\<lambda>_. 0x10000", OF sample_boot sample_inside]
  by (auto simp: span_iff vga_region_def vga_buffer_def boot_stack_def)

text \<open>C5. The memory for the kernel is cleared whether or not it is mapped. When the memory map has a
  suitable region in the window, which ends at the sum of the free regions rounded up to 1 GiB, the
  region is cleared and the loading of the file goes on. When the region is, or reaches, beyond the
  window, the clearing ends in a page fault at the first address that is not mapped. When there is no
  suitable region, the null pointer is cleared before it is tested: the first page, with the BIOS map,
  is zeroed, and the next store overwrites the page tables; the test and its message are not reached.\<close>

theorem kernel_memory_cleared:
  assumes "serial_live D" and "ata_drive D disk" and "frames_ok fr" and "idt_ok idt"
    and "map_at m BIOS_MEMORY_MAP_LOCATION rs" "length rs \<le> 100"
    and "0 < free_total rs" "unat (free_total rs) \<le> 511 * 2 ^ 30"
    and "sz = unat (word_of_bytes (List.map disk [596..<600]) :: u32)"
      "gpt_table (\<lambda>i. disk (1024 + i)) sz cnt"
    and "gpte = (case find (named (lit (bytes ''OSDEV Root Partition''))) (table_entries (\<lambda>i. disk (1024 + i)) sz cnt) of
      None \<Rightarrow> empty_entry | Some g \<Rightarrow> g)"
    and "lookup (sector disk gpte) blocks64 (bytes ''/sys/kernel.elf'') 0 r64"
    and below: "\<forall>r \<in> set rs. unat (base_address r) + 268435456 \<le> 2 ^ 47"
  shows "case find (suitable 268435456) rs of
      None \<Rightarrow> \<exists>t. cboot_main D idt handlers fr (boot_machine m) = Some (Stopped (Overwrite 0x1000) t) \<and>
        walk (mem t) p4table = boot_translation m (free_total rs) \<and> (\<forall>x. unat x < 0x1000 \<longrightarrow> mem t x = 0)
    | Some r \<Rightarrow>
        let b = base_address r; e = physical_to_virtual_pointer b
        in if unat b + 268435456 \<le> window_end rs
           then \<exists>t. cboot_main D idt handlers fr (boot_machine m) = load_kernel_file D fr gpte e t \<and>
             walk (mem t) p4table = boot_translation m (free_total rs) \<and> (\<forall>x \<in> span e 268435456. mem t x = 0)
           else \<exists>t. cboot_main D idt handlers fr (boot_machine m)
               = Some (Stopped (PageFault (0xFFFF800000000000 + of_nat (max (unat b) (window_end rs)))) t) \<and>
             walk (mem t) p4table = boot_translation m (free_total rs) \<and>
             (\<forall>x \<in> span e (window_end rs - unat b). mem t x = 0)"
proof -
  obtain w where w: "cboot_main D idt handlers fr (boot_machine m) = load_kernel D fr gpte w"
    "effect (\<lambda>va. l4_index va \<noteq> 256) (span idt 512 \<union> stack_area fr) 4096 (window (free_total rs)) (\<lambda>m. m) (boot_machine m) w"
    "map_at (mem w) BIOS_MEMORY_MAP_LOCATION rs"
    using prefix_run [OF assms(1-12)] by blast
  note ok = effectD(1) [OF w(2)] and tr = prefix_translation [OF w(2)]
  have root: "cr3 w = p4table" using effectD(2) [OF w(2)] by simp
  show ?thesis
  proof (cases "find (suitable 268435456) rs")
    case None
    let ?t = "w\<lparr>mem := \<lambda>x. if unat x < 0x1000 then 0 else mem w x\<rparr>"
    have run: "load_kernel D fr gpte w = Some (Stopped (Overwrite 0x1000) ?t)"
      using allocate_run [OF w(3)] None clear_null [OF tr] by (simp add: load_kernel_def)
    have "\<not> in_tables (mem w) x" if "unat x < 0x1000" for x
      using effectD(7) [OF w(2), of x] boot_machine_facts(4) [of m x] that by (auto simp: fresh_def)
    then have q: "quiet {x. unat x < 0x1000} w ?t" by (intro effect_memory [OF ok]) auto
    have "walk (mem ?t) p4table = boot_translation m (free_total rs)" using effectD(4) [OF q] tr root by simp
    then show ?thesis unfolding None option.case w(1) run by (intro exI [of _ ?t]) simp
  next
    case (Some r)
    let ?e = "physical_to_virtual_pointer (base_address r)"
    have b: "0x100000 \<le> unat (base_address r)" "unat (base_address r) + 268435456 \<le> 2 ^ 47"
      using suitable_base [OF Some] below Some by (auto simp: find_Some_iff)
    have cleared: "walk (mem (w\<lparr>mem := m'\<rparr>)) p4table = boot_translation m (free_total rs)"
      if "m' = (\<lambda>x. if x \<in> span ?e n then 0 else mem w x)" "in_window ?e n" for m' n
    proof -
      have q: "quiet (span ?e n) w (w\<lparr>mem := m'\<rparr>)"
        using window_tables [OF that(2) ok] by (intro effect_memory [OF ok]) (auto simp: that(1))
      show ?thesis using effectD(4) [OF q] tr root by simp
    qed
    show ?thesis
    proof (cases "unat (base_address r) + 268435456 \<le> window_end rs")
      case True
      then have base: "kernel_base rs ?e" using Some by (auto simp: kernel_base_def)
      obtain t where t: "load_kernel D fr gpte w = load_kernel_file D fr gpte ?e t" "quiet (span ?e 268435456) w t"
        "\<forall>x \<in> span ?e 268435456. mem t x = 0"
        using allocated_run [OF ok tr assms(8) w(3) base] by blast
      have "walk (mem t) p4table = boot_translation m (free_total rs)" using effectD(4) [OF t(2)] tr root by simp
      then show ?thesis
        unfolding Some option.case Let_def w(1) using True t(1,3) by (simp only: if_True) (intro exI [of _ t] conjI; simp)
    next
      case False
      let ?n = "window_end rs - unat (base_address r)"
      let ?q = "0xFFFF800000000000 + of_nat (max (unat (base_address r)) (window_end rs))"
      let ?m = "\<lambda>x. if x \<in> span ?e ?n then 0 else mem w x"
      have f: "mmu_clear ?e 268435456 w = Some (Inl (PageFault ?q, w\<lparr>mem := ?m\<rparr>))"
        using False by (intro clear_faults [OF tr gigs_le [OF assms(8)] b(1,2) _ refl refl]) simp
      have run: "load_kernel D fr gpte w = Some (Stopped (PageFault ?q) (w\<lparr>mem := ?m\<rparr>))"
        unfolding load_kernel_def using allocate_run [OF w(3)] Some f by simp
      have "in_window ?e ?n"
        using window_pointer(2) [of "base_address r"] b window_end_le [OF assms(8)] by (simp add: in_window_def)
      from cleared [OF refl this] show ?thesis
        unfolding Some option.case Let_def w(1) run using False
        by (simp only: if_False) (intro exI [of _ "w\<lparr>mem := ?m\<rparr>"] conjI; simp)
    qed
  qed
qed

theorem kernel_memory_cleared_witness:
  "\<exists>t. cboot_main (with_drive (\<lambda>_. 0) (\<lambda>_ _. 0x20)) 0x14000 (\<lambda>_. 0x10000) boot_stack (boot_machine far_map_memory)
     = Some (Stopped (PageFault 0xFFFF800040000000) t)"
proof -
  have "\<forall>r \<in> set far_regions. unat (base_address r) + 268435456 \<le> 2 ^ 47" by (simp add: far_regions_def)
  from kernel_memory_cleared [where handlers = "\<lambda>_. 0x10000" and disk = "\<lambda>_. 0", OF ready_serial with_drive_ata
      boot_stack_ok sample_memory(5) far_map far_memory(1-3) blank_disk this]
  show ?thesis unfolding far_memory(4,5) option.case Let_def by auto
qed

text \<open>C6. When the archive has no kernel file, also because no partition has the expected name and
  the search starts at the first sector of the disk, and the memory for the kernel is in the window,
  \<open>cboot_main\<close> reports it and halts; that memory is cleared by then.\<close>

theorem missing_kernel_halts:
  assumes "serial_live D" and "ata_drive D disk" and "frames_ok fr" and "idt_ok idt"
    and "map_at m BIOS_MEMORY_MAP_LOCATION rs" "length rs \<le> 100"
    and "0 < free_total rs" "unat (free_total rs) \<le> 511 * 2 ^ 30"
    and "kernel_base rs e"
    and "sz = unat (word_of_bytes (List.map disk [596..<600]) :: u32)"
      "gpt_table (\<lambda>i. disk (1024 + i)) sz cnt"
    and "gpte = (case find (named (lit (bytes ''OSDEV Root Partition''))) (table_entries (\<lambda>i. disk (1024 + i)) sz cnt) of
      None \<Rightarrow> empty_entry | Some g \<Rightarrow> g)"
    and "lookup (sector disk gpte) blocks64 (bytes ''/sys/kernel.elf'') 0 r64"
      "lookup (sector disk gpte) blocks32 (bytes ''/sys/kernel.elf'') 0 None"
  shows "\<exists>t cs. cboot_main D idt handlers fr (boot_machine m) = Some (Halted t) \<and>
    transmitted (trace t) = cs @ bytes ''Error loading kernel fileHalting'' \<and>
    (\<forall>x \<in> span e 268435456. mem t x = 0) \<and> walk (mem t) p4table = boot_translation m (free_total rs)"
proof -
  let ?F = "frame (ustar_buf fr) (ustar_name fr)"
  note win = kernel_base_window(1) [OF assms(9,8)]
  obtain w where w: "cboot_main D idt handlers fr (boot_machine m) = load_kernel D fr gpte w"
    "effect (\<lambda>va. l4_index va \<noteq> 256) (span idt 512 \<union> stack_area fr) 4096 (window (free_total rs)) (\<lambda>m. m) (boot_machine m) w"
    "map_at (mem w) BIOS_MEMORY_MAP_LOCATION rs"
    using prefix_run [OF assms(1-8,10-13)] by blast
  obtain a where a: "load_kernel D fr gpte w = load_kernel_file D fr gpte e a" "quiet (span e 268435456) w a"
    "\<forall>x \<in> span e 268435456. mem a x = 0"
    using allocated_run [OF effectD(1) [OF w(2)] prefix_translation [OF w(2)] assms(8) w(3) assms(9)] by blast
  obtain t cs where t: "load_kernel_file D fr gpte e a = Some (Halted t)" "quiet ?F a t"
    "transmitted (trace t) = cs @ bytes ''Error loading kernel fileHalting''"
    using file_absent_run [OF assms(1-3) effectD(1) [OF a(2)] assms(14)] by blast
  have "mem t x = 0" if "x \<in> span e 268435456" for x
  proof -
    have "x \<notin> ?F" using stack_window_apart [OF assms(3) win] that unfolding stack_area_def by blast
    then show ?thesis using effect_above [OF effectD(1) [OF a(2)] t(2)] in_windowD [OF win that] a(3) that by simp
  qed
  moreover have "walk (mem t) p4table = boot_translation m (free_total rs)"
    using effectD(4) [OF t(2)] effectD(4) [OF a(2)] effectD(4) [OF w(2)] by (simp add: boot_translation_def)
  ultimately show ?thesis using w(1) a(1) t(1,3) by auto
qed

theorem missing_kernel_halts_witness:
  "\<exists>t cs. cboot_main (with_drive (\<lambda>_. 0) (\<lambda>_ _. 0x20)) 0x14000 (\<lambda>_. 0x10000) boot_stack sample_machine
      = Some (Halted t) \<and> transmitted (trace t) = cs @ bytes ''Error loading kernel fileHalting'' \<and>
    mem t 0xFFFF800000100000 = 0"
proof -
  have base: "kernel_base sample_regions exe_base" using sample_memory(2-4) by (auto simp: kernel_base_def)
  obtain t cs where
    "cboot_main (with_drive (\<lambda>_. 0) (\<lambda>_ _. 0x20)) 0x14000 (\<lambda>_. 0x10000) boot_stack sample_machine = Some (Halted t)"
    "transmitted (trace t) = cs @ bytes ''Error loading kernel fileHalting''"
    "\<forall>x \<in> span exe_base 268435456. mem t x = 0"
    using missing_kernel_halts [where handlers = "\<lambda>_. 0x10000" and disk = "\<lambda>_. 0", OF ready_serial with_drive_ata
      boot_stack_ok sample_memory(5) sample_map sample_memory(1) sample_total base blank_disk blank_disk(4)] by blast
  then show ?thesis by (intro exI [of _ t] exI [of _ cs]) (simp add: exe_base_def)
qed

text \<open>C7. When the memory for the kernel is in the window, a kernel file that is not an ELF file is loaded
  but not run: \<open>cboot_main\<close> reports the signature and halts, with the file in memory and no segment
  mapped.\<close>

theorem wrong_signature_halts:
  assumes "serial_live D" and "ata_drive D disk" and "frames_ok fr" and "idt_ok idt"
    and "map_at m BIOS_MEMORY_MAP_LOCATION rs" "length rs \<le> 100"
    and "0 < free_total rs" "unat (free_total rs) \<le> 511 * 2 ^ 30"
    and "kernel_base rs e"
    and "sz = unat (word_of_bytes (List.map disk [596..<600]) :: u32)"
      "gpt_table (\<lambda>i. disk (1024 + i)) sz cnt"
      "find (named (lit (bytes ''OSDEV Root Partition''))) (table_entries (\<lambda>i. disk (1024 + i)) sz cnt) = Some gpte"
    and "lookup (sector disk gpte) blocks64 (bytes ''/sys/kernel.elf'') 0 r64"
      "lookup (sector disk gpte) blocks32 (bytes ''/sys/kernel.elf'') 0 (Some k)"
      "n = unat (blocks32 (sector disk gpte k)) mod 256"
      "(ucast (tar_size (sector disk gpte k)) :: u32) \<noteq> 0"
    and "v = kernel_image disk gpte k n" "List.map v [0..<4] \<noteq> 0x7F # bytes ''ELF''"
  shows "\<exists>t cs. cboot_main D idt handlers fr (boot_machine m) = Some (Halted t) \<and>
    transmitted (trace t) = cs @ bytes ''ERR: ELF signature not matching'' @ [nl] @ bytes ''Halting'' \<and>
    holds (e + of_nat elf_offset) elf_room v t \<and> walk (mem t) p4table = boot_translation m (free_total rs)"
proof -
  note win = kernel_base_window(1) [OF assms(9,8)]
  have kwin: "in_window (e + of_nat elf_offset) elf_room" using in_window_sub(1) [OF win, of elf_offset elf_room] by simp
  have gpte: "gpte = (case find (named (lit (bytes ''OSDEV Root Partition''))) (table_entries (\<lambda>i. disk (1024 + i)) sz cnt) of
      None \<Rightarrow> empty_entry | Some g \<Rightarrow> g)" by (simp add: assms(12))
  obtain w where w: "cboot_main D idt handlers fr (boot_machine m) = load_kernel D fr gpte w"
    "effect (\<lambda>va. l4_index va \<noteq> 256) (span idt 512 \<union> stack_area fr) 4096 (window (free_total rs)) (\<lambda>m. m) (boot_machine m) w"
    "map_at (mem w) BIOS_MEMORY_MAP_LOCATION rs"
    using prefix_run [OF assms(1-8,10,11) gpte assms(13)] by blast
  obtain a where a: "load_kernel D fr gpte w = load_kernel_file D fr gpte e a" "quiet (span e 268435456) w a"
    "\<forall>x \<in> span e 268435456. mem a x = 0"
    using allocated_run [OF effectD(1) [OF w(2)] prefix_translation [OF w(2)] assms(8) w(3) assms(9)] by blast
  obtain u where u: "load_kernel_file D fr gpte e a = Option.bind (putln D ''ERR: ELF signature not matching'' u) (halt D)"
    "quiet (span (e + of_nat elf_offset) elf_room \<union> frame (ustar_buf fr) (ustar_name fr)) a u"
    "holds (e + of_nat elf_offset) elf_room v u"
    using file_loaded_run [OF assms(1-3) effectD(1) [OF a(2)] win a(3) assms(14-17)] assms(18) by auto
  obtain t where t: "Option.bind (putln D ''ERR: ELF signature not matching'' u) (halt D) = Some (Halted t)"
    "console_same u t" "transmitted (trace t) = transmitted (trace u) @ (bytes ''ERR: ELF signature not matching'' @ [nl]) @ bytes ''Halting''"
    using say_halt_run [OF assms(1), of "bytes ''ERR: ELF signature not matching'' @ [nl]" u] by auto
  note q = effect_console [OF effectD(1) [OF u(2)] t(2)]
  have "holds (e + of_nat elf_offset) elf_room v t"
    using holds_clear [OF in_window_clear [OF kwin], of t u v] console_clear [OF t(2) in_window_clear [OF kwin]] u(3) by blast
  moreover have "walk (mem t) p4table = boot_translation m (free_total rs)"
    using effectD(4) [OF q] effectD(4) [OF u(2)] effectD(4) [OF a(2)] effectD(4) [OF w(2)] by (simp add: boot_translation_def)
  ultimately show ?thesis using w(1) a(1) u(1) t(1,3) by auto
qed

theorem wrong_signature_halts_witness:
  "\<exists>t cs. cboot_main (sample_drive (\<lambda>_. 0)) 0x14000 (\<lambda>_. 0x10000) boot_stack sample_machine = Some (Halted t) \<and>
    transmitted (trace t) = cs @ bytes ''ERR: ELF signature not matching'' @ [nl] @ bytes ''Halting''"
proof -
  have "kernel_base sample_regions exe_base" using sample_memory(2-4) by (auto simp: kernel_base_def)
  note base = this
  have image: "(\<lambda>_. 0) = kernel_image (boot_disk (\<lambda>_. 0)) (boot_entry (\<lambda>_. 0)) 0 9" by (rule boot_image [symmetric]) simp
  have bad: "List.map (\<lambda>_. 0 :: u8) [0..<4] \<noteq> 0x7F # bytes ''ELF''" by (simp add: upt_rec)
  show ?thesis
    using wrong_signature_halts [where handlers = "\<lambda>_. 0x10000", OF ready_serial with_drive_ata boot_stack_ok
      sample_memory(5) sample_map sample_memory(1) sample_total base boot_disk_gpt(1) boot_table boot_named
      boot_lookup boot_lookup boot_count boot_size image bad] by blast
qed

end
