(* ===== verification/Mappings.thy ===== *)
theory Mappings
  imports KernelMap
begin

text \<open>
  Sequences of page mappings on the tables that \<open>src/start.asm\<close> leaves behind. A mapping is an
  update of the translation; the machines that the mapping functions of \<open>src/paging.c\<close> reach
  are an inductive set, and the invariant relates them to the updates made so far.
\<close>

section \<open>Mappings as updates of a translation\<close>

datatype mapping = Small u64 u64 | Large u64 u64

fun virtual :: "mapping \<Rightarrow> u64" where
  "virtual (Small va pa) = va"
| "virtual (Large va pa) = va"

fun run_mapping :: "mapping \<Rightarrow> machine \<Rightarrow> machine option" where
  "run_mapping (Small va pa) s = map_4kb_page va pa s"
| "run_mapping (Large va pa) s = map_2mb_page va pa s"

text \<open>The mappings of a list one after the other.\<close>

primrec run_all :: "mapping list \<Rightarrow> machine \<Rightarrow> machine option" where
  "run_all [] s = Some s"
| "run_all (mp # ms) s = do { s \<leftarrow> run_mapping mp s; run_all ms s }"

lemma run_all_snoc: "run_all (ms @ [mp]) s = Option.bind (run_all ms s) (run_mapping mp)"
  by (induction ms arbitrary: s) (auto split: bind_split)

text \<open>The addresses that a mapping is about, and where they go.\<close>

fun covers :: "mapping \<Rightarrow> u64 \<Rightarrow> bool" where
  "covers (Small va pa) a \<longleftrightarrow> page_path a = page_path va"
| "covers (Large va pa) a \<longleftrightarrow> huge_path a = huge_path va"

fun target :: "mapping \<Rightarrow> u64 \<Rightarrow> u64" where
  "target (Small va pa) a = pa OR take_bit 12 a"
| "target (Large va pa) a = pa OR take_bit 21 a"

fun mapped :: "mapping \<Rightarrow> translation \<Rightarrow> translation" where
  "mapped (Small va pa) t = (\<lambda>a. if page_path a = page_path va then Some (pa OR take_bit 12 a) else t a)"
| "mapped (Large va pa) t = (\<lambda>a. if huge_path a = huge_path va then Some (pa OR take_bit 21 a) else t a)"

lemma fold_mapped:
  "fold mapped ms t a = (case find (\<lambda>mp. covers mp a) (rev ms) of Some mp \<Rightarrow> Some (target mp a) | None \<Rightarrow> t a)"
proof (induction ms rule: rev_induct)
  case (snoc mp ms)
  then show ?case by (cases mp) simp_all
qed simp

text \<open>The frame is aligned to its size and the addresses are not those of the boot tables.\<close>

fun aligned :: "mapping \<Rightarrow> bool" where
  "aligned (Small va pa) \<longleftrightarrow> frame pa = pa"
| "aligned (Large va pa) \<longleftrightarrow> frame pa = pa \<and> 2 ^ 21 dvd unat pa"

text \<open>The regions of two megabytes that large pages fill; such a region is not mapped again.\<close>

fun filled :: "mapping list \<Rightarrow> index list set" where
  "filled [] = {}"
| "filled (Small va pa # ms) = filled ms"
| "filled (Large va pa # ms) = insert (huge_path va) (filled ms)"

definition legal :: "mapping list \<Rightarrow> mapping \<Rightarrow> bool" where
  "legal ms mp \<longleftrightarrow> aligned mp \<and> l4_index (virtual mp) \<noteq> 0 \<and> huge_path (virtual mp) \<notin> filled ms"

fun all_legal :: "mapping list \<Rightarrow> mapping list \<Rightarrow> bool" where
  "all_legal earlier [] = True"
| "all_legal earlier (mp # ms) \<longleftrightarrow> legal earlier mp \<and> all_legal (earlier @ [mp]) ms"

inductive reached :: "mem \<Rightarrow> mapping list \<Rightarrow> machine \<Rightarrow> bool" for m where
  start: "reached m [] (boot_machine m)"
| step: "reached m ms s \<Longrightarrow> legal ms mp \<Longrightarrow> run_mapping mp s = Some s' \<Longrightarrow> reached m (ms @ [mp]) s'"

inductive_simps reached_none [simp]: "reached m [] s"

section \<open>The invariant\<close>

text \<open>The boot tables and the part of the pool in use.\<close>

definition table_area :: "machine \<Rightarrow> u64 \<Rightarrow> bool" where
  "table_area s a \<longleftrightarrow> 0x1000 \<le> unat a \<and> unat a < 0x5000 \<or> 0x20000 \<le> unat a \<and> unat a < unat (pt_it s)"

definition well_mapped :: "mem \<Rightarrow> mapping list \<Rightarrow> machine \<Rightarrow> bool" where
  "well_mapped m ms s \<longleftrightarrow> tables_ok (mem s) (pt_it s) \<and>
     unat (pt_it s) \<le> 0x20000 + 12288 * length ms \<and>
     walk (mem s) p4table = fold mapped ms (walk (setup_paging m) p4table) \<and>
     0x20000 \<le> unat (pt_it s) \<and>
     (\<forall>a. in_tables (mem s) a \<longrightarrow> table_area s a) \<and> (\<forall>a. \<not> table_area s a \<longrightarrow> mem s a = m a) \<and>
     (\<forall>va. l4_index va \<noteq> 0 \<and> huge_path va \<notin> filled ms \<longrightarrow> mappable (mem s) va)"

lemma filled_snoc: "filled (ms @ [mp]) = filled [mp] \<union> filled ms"
  by (induction ms rule: filled.induct) auto

lemma well_mapped_start: "well_mapped m [] (boot_machine m)"
proof -
  have "setup_paging m a = m a" if "\<not> table_area (boot_machine m) a" for a
    using that by (intro setup_paging_out) (auto simp: table_area_def span_iff)
  then show ?thesis
    using boot_machine_ok boot_mappable boot_in_tables by (auto simp: well_mapped_def table_area_def)
qed

text \<open>A mapping writes to the tables only.\<close>

lemma paging_step_area:
  assumes "paging_step s s'" and "0x20000 \<le> unat (pt_it s)" and "\<And>a. in_tables (mem s) a \<Longrightarrow> table_area s a"
  shows "in_tables (mem s') a \<Longrightarrow> table_area s' a" "\<not> table_area s' a \<Longrightarrow> mem s' a = mem s a" "table_area s a \<Longrightarrow> table_area s' a"
    "0x20000 \<le> unat (pt_it s')"
proof -
  have le: "unat (pt_it s) \<le> unat (pt_it s')" using assms(1) by (simp add: paging_step_def)
  then show "0x20000 \<le> unat (pt_it s')" using assms(2) by simp
  show mono: "table_area s a \<Longrightarrow> table_area s' a" for a using le by (auto simp: table_area_def)
  have new: "table_area s' a" if "fresh s s' a" for a using that assms(2) by (auto simp: fresh_def table_area_def)
  show "in_tables (mem s') a \<Longrightarrow> table_area s' a" using assms(1,3) mono new unfolding paging_step_def by blast
  show "\<not> table_area s' a \<Longrightarrow> mem s' a = mem s a" using assms(1,3) mono new unfolding paging_step_def by blast
qed

lemma well_mapped_step:
  assumes inv: "well_mapped m ms s" and legal: "legal ms mp" and few: "unat (pt_it s) + 12288 \<le> pt_limit"
  shows "\<exists>s'. run_mapping mp s = Some s' \<and> well_mapped m (ms @ [mp]) s'"
proof (cases mp)
  case (Small va pa)
  have "frame pa = pa" "mappable (mem s) va" and ok: "tables_ok (mem s) (pt_it s)"
    using inv legal Small by (auto simp: legal_def well_mapped_def)
  from map_4kb_run [OF ok few this(1,2)] obtain s' where s': "map_4kb_page va pa s = Some s'"
    "tables_ok (mem s') (pt_it s')" "paging_step s s'" "unat (pt_it s') \<le> unat (pt_it s) + 12288"
    "\<forall>va'. mappable (mem s) va' \<longrightarrow> mappable (mem s') va'"
    "\<forall>va'. walk (mem s') p4table va' = (if page_path va' = page_path va
       then Some (pa OR take_bit 12 va') else walk (mem s) p4table va')"
    by (elim exE conjE)
  have inv': "0x20000 \<le> unat (pt_it s)" "\<And>a. in_tables (mem s) a \<Longrightarrow> table_area s a"
    "\<And>a. \<not> table_area s a \<Longrightarrow> mem s a = m a" using inv by (simp_all add: well_mapped_def)
  note area = paging_step_area [OF s'(3) inv'(1,2)]
  have same: "mem s' a = m a" if "\<not> table_area s' a" for a using area(2,3) inv'(3) that by metis
  have "walk (mem s') p4table = mapped mp (walk (mem s) p4table)" using s'(6) by (simp add: Small fun_eq_iff)
  then show ?thesis
    using inv s' area(4) same by (auto simp: Small well_mapped_def filled_snoc intro: area(1))
next
  case (Large va pa)
  have pa: "frame pa = pa" "2 ^ 21 dvd unat pa" and "mappable (mem s) va" and ok: "tables_ok (mem s) (pt_it s)"
    using inv legal Large by (auto simp: legal_def well_mapped_def)
  then have "\<not> huge_page (pte (mem s) [l4_index va])" "\<not> huge_page (pte (mem s) [l3_index va, l4_index va])"
    by (simp_all add: mappable_def)
  moreover have "unat (pt_it s) + 8192 \<le> pt_limit" using few by simp
  ultimately obtain s' where s': "map_2mb_page va pa s = Some s'"
    "tables_ok (mem s') (pt_it s')" "paging_step s s'" "unat (pt_it s') \<le> unat (pt_it s) + 8192"
    "\<forall>va'. huge_path va' \<noteq> huge_path va \<longrightarrow> mappable (mem s) va' \<longrightarrow> mappable (mem s') va'"
    "\<forall>va'. walk (mem s') p4table va' = (if huge_path va' = huge_path va
       then Some (pa OR take_bit 21 va') else walk (mem s) p4table va')"
    using map_2mb_run [OF ok _ pa, of va] by (elim impE exE conjE meta_impE)
  have inv': "0x20000 \<le> unat (pt_it s)" "\<And>a. in_tables (mem s) a \<Longrightarrow> table_area s a"
    "\<And>a. \<not> table_area s a \<Longrightarrow> mem s a = m a" using inv by (simp_all add: well_mapped_def)
  note area = paging_step_area [OF s'(3) inv'(1,2)]
  have same: "mem s' a = m a" if "\<not> table_area s' a" for a using area(2,3) inv'(3) that by metis
  have "walk (mem s') p4table = mapped mp (walk (mem s) p4table)" using s'(6) by (simp add: Large fun_eq_iff)
  then show ?thesis
    using inv s' area(4) same by (auto simp: Large well_mapped_def filled_snoc intro: area(1))
qed

lemma few_mappings: "well_mapped m ms s \<Longrightarrow> length ms \<le> 20 \<Longrightarrow> unat (pt_it s) + 12288 \<le> pt_limit"
  by (simp add: well_mapped_def pt_limit_def)

lemma reached_well_mapped: "reached m ms s \<Longrightarrow> length ms \<le> 21 \<Longrightarrow> well_mapped m ms s"
proof (induction rule: reached.induct)
  case (step ms s mp s')
  then have "well_mapped m ms s" "unat (pt_it s) + 12288 \<le> pt_limit"
    using few_mappings by simp_all
  with well_mapped_step [OF this(1) step.hyps(2)] step.hyps(3) show ?case by simp
qed (rule well_mapped_start)

lemma legal_snoc: "all_legal earlier (ms @ [mp]) \<longleftrightarrow> all_legal earlier ms \<and> legal (earlier @ ms) mp"
  by (induction ms arbitrary: earlier) simp_all

lemma reached_total: "all_legal [] ms \<Longrightarrow> length ms \<le> 21 \<Longrightarrow> \<exists>s. reached m ms s"
proof (induction ms rule: rev_induct)
  case (snoc mp ms)
  then obtain s where s: "reached m ms s" and legal: "legal ms mp" by (auto simp: legal_snoc)
  then have "well_mapped m ms s" using snoc.prems(2) by (intro reached_well_mapped) simp_all
  then obtain s' where "run_mapping mp s = Some s'"
    using well_mapped_step [OF _ legal] few_mappings snoc.prems(2) by fastforce
  then show ?case using reached.step [OF s legal] by blast
qed (use reached.start in blast)

lemma reached_run: "reached m ms s \<Longrightarrow> run_all ms (boot_machine m) = Some s"
  by (induction rule: reached.induct) (simp_all add: run_all_snoc)

section \<open>Properties\<close>

text \<open>C9. Every machine that a sequence of at most 21 legal mappings reaches from the boot tables has
  well-formed tables and translates each address as the mappings say, the latest one first, and
  otherwise as the boot tables did. Apart from the boot tables at 0x1000 to 0x5000 and the tables taken
  from the pool, which start at 0x20000 and are at most three for each mapping, no byte of memory has
  changed.\<close>

theorem mappings_invariant:
  assumes "reached m ms s" and "length ms \<le> 21"
  shows "tables_ok (mem s) (pt_it s) \<and> unat (pt_it s) \<le> 0x20000 + 3 * 4096 * length ms \<and>
    walk (mem s) p4table = fold mapped ms (walk (setup_paging m) p4table) \<and>
    (\<forall>a. \<not> (0x1000 \<le> unat a \<and> unat a < 0x5000) \<and> \<not> (0x20000 \<le> unat a \<and> unat a < unat (pt_it s)) \<longrightarrow> mem s a = m a)"
  using reached_well_mapped [OF assms] by (simp add: well_mapped_def table_area_def)

definition sample_mappings :: "mapping list" where
  "sample_mappings = [Small 0xFFFF900000003000 0x200000, Large 0xFFFF900000200000 0x400000,
     Small 0xFFFF900000003000 0x300000]"

lemma sample_legal: "all_legal [] sample_mappings"
  by (simp add: sample_mappings_def legal_def frame_def huge_path_def l4_index_def l3_index_def l2_index_def)

theorem mappings_invariant_witness:
  "\<exists>s. reached (\<lambda>_. 0) sample_mappings s \<and> walk (mem s) p4table 0xFFFF900000003ABC = Some 0x300ABC \<and>
    walk (mem s) p4table 0xFFFF900000212345 = Some 0x412345 \<and> walk (mem s) p4table 0xABC = Some 0xABC \<and> mem s 0x500 = 0"
proof -
  have few: "length sample_mappings \<le> 21" by (simp add: sample_mappings_def)
  obtain s where s: "reached (\<lambda>_. 0) sample_mappings s" using reached_total [OF sample_legal few] by blast
  have "walk (setup_paging (\<lambda>_. 0)) p4table 0xABC = Some 0xABC"
    using boot_identity [of "0xABC"] by (simp add: p4table_def)
  then have "fold mapped sample_mappings (walk (setup_paging (\<lambda>_. 0)) p4table) a = Some b"
    if "(a, b) \<in> {(0xFFFF900000003ABC, 0x300ABC), (0xFFFF900000212345, 0x412345), (0xABC, 0xABC)}" for a b
    using that
    by (auto simp: sample_mappings_def page_path_def huge_path_def l4_index_def l3_index_def l2_index_def l1_index_def)
  then show ?thesis using s mappings_invariant [OF s few] by (intro exI [of _ s]) simp
qed

text \<open>C10. The mapping functions serve any sequence of at most 21 legal mappings, of either size and in
  any order: every call returns, the tables they take are pairwise different pages of the pool, which
  suffices, and in the end each address that some mapping is about translates to the frame that the
  last such mapping gave it, and each other address as before.\<close>

theorem mappings_reached:
  assumes "all_legal [] ms" and "length ms \<le> 21"
  shows "\<exists>s. run_all ms (boot_machine m) = Some s \<and> unat (pt_it s) \<le> pt_limit \<and> tables_ok (mem s) (pt_it s) \<and>
    (\<forall>va. walk (mem s) p4table va = (case find (\<lambda>mp. covers mp va) (rev ms) of
       Some mp \<Rightarrow> Some (target mp va) | None \<Rightarrow> walk (setup_paging m) p4table va))"
proof -
  obtain s where s: "reached m ms s" using reached_total [OF assms] by blast
  from reached_well_mapped [OF s assms(2)]
  have "tables_ok (mem s) (pt_it s)" "walk (mem s) p4table = fold mapped ms (walk (setup_paging m) p4table)"
    by (simp_all add: well_mapped_def)
  then show ?thesis
    using reached_run [OF s] tables_ok_it [of "mem s" "pt_it s"] by (intro exI [of _ s]) (simp add: fold_mapped)
qed

theorem mappings_reached_witness:
  "\<exists>s. run_all (sample_mappings @ [Small 0xFFFF900000600000 0x1000]) (boot_machine (\<lambda>_. 0)) = Some s \<and>
    walk (mem s) p4table 0xFFFF900000600123 = Some 0x1123 \<and> walk (mem s) p4table 0xFFFF900000003ABC = Some 0x300ABC"
proof -
  have "all_legal [] (sample_mappings @ [Small 0xFFFF900000600000 0x1000])" "length (sample_mappings @ [Small 0xFFFF900000600000 0x1000]) \<le> 21"
    by (simp_all add: legal_snoc sample_legal, simp_all add: sample_mappings_def legal_def frame_def huge_path_def l4_index_def l3_index_def l2_index_def)
  from mappings_reached [OF this, of "\<lambda>_. 0"] show ?thesis
    by (auto simp: sample_mappings_def page_path_def huge_path_def l4_index_def l3_index_def l2_index_def l1_index_def take_bit_eq_mod)
qed

end
