(* ===== verification/Screen.thy ===== *)
theory Screen
  imports Print
begin

text \<open>
  The text screen as its user sees it, rows of cells that scroll, and the proof that the
  operations of \<open>src/vga.c\<close> and the console output of \<open>src/print.c\<close> implement it.
\<close>

section \<open>The display\<close>

record display =
  rows :: "vga_char list list"
  cursor :: nat
  ink :: u32
  paper :: u32

definition display_of :: "machine \<Rightarrow> display" where
  "display_of s = \<lparr>rows = map (\<lambda>i. map (\<lambda>j. get_cell (mem s) (VGA_COLS * i + j)) [0..<VGA_COLS]) [0..<VGA_ROWS],
     cursor = unat (column_counter s), ink = foreground s, paper = background s\<rparr>"

definition coloured :: "u8 \<Rightarrow> display \<Rightarrow> vga_char" where
  "coloured c d = \<lparr>character = c, colour = ucast (ink d OR paper d)\<rparr>"

definition blank_row :: "display \<Rightarrow> vga_char list" where
  "blank_row d = replicate VGA_COLS (coloured (of_char CHR '' '') d)"

definition scrolled :: "display \<Rightarrow> display" where
  "scrolled d = d\<lparr>rows := tl (rows d) @ [blank_row d], cursor := 0\<rparr>"

definition shown :: "u8 \<Rightarrow> display \<Rightarrow> display" where
  "shown c d =
     (if VGA_COLS \<le> cursor d \<or> c = 10 then scrolled d
      else if c = 13 then d\<lparr>cursor := 0\<rparr>
      else d\<lparr>rows := (rows d)[24 := (last (rows d))[cursor d := coloured c d]], cursor := cursor d + 1\<rparr>)"

definition blanked :: "display \<Rightarrow> display" where
  "blanked d = d\<lparr>rows := replicate VGA_ROWS (blank_row d)\<rparr>"

text \<open>The operations that other files may call.\<close>

datatype screen_op = Draw u8 | Clear | Foreground bios_colours | Background bios_colours

fun perform :: "screen_op \<Rightarrow> machine \<Rightarrow> machine" where
  "perform (Draw c) s = draw_char c s"
| "perform Clear s = clear_screen s"
| "perform (Foreground c) s = set_foreground c s"
| "perform (Background c) s = set_background c s"

fun displayed :: "screen_op \<Rightarrow> display \<Rightarrow> display" where
  "displayed (Draw c) d = shown c d"
| "displayed Clear d = blanked d"
| "displayed (Foreground c) d = d\<lparr>ink := if LIGHT_GREEN \<le> c then 0x10 else 0\<rparr>"
| "displayed (Background c) d = d\<lparr>paper := 0\<rparr>"

section \<open>The cells of the display\<close>

lemma display_of_simps [simp]:
  "cursor (display_of s) = unat (column_counter s)" "ink (display_of s) = foreground s"
  "paper (display_of s) = background s" "length (rows (display_of s)) = VGA_ROWS"
  by (simp_all add: display_of_def)

lemma display_cell: "i < VGA_ROWS \<Longrightarrow> j < VGA_COLS \<Longrightarrow> rows (display_of s) ! i ! j = get_cell (mem s) (VGA_COLS * i + j)"
  by (simp add: display_of_def)

lemma display_row_length [simp]: "i < VGA_ROWS \<Longrightarrow> length (rows (display_of s) ! i) = VGA_COLS"
  by (simp add: display_of_def)

lemma coloured_cell: "coloured c (display_of s) = cell_of c s"
  by (simp add: coloured_def cell_of_def)

text \<open>Two displays are the same when their cells, cursors and colours are.\<close>

lemma display_eqI:
  assumes "length (rows d) = VGA_ROWS" and "\<And>i. i < VGA_ROWS \<Longrightarrow> length (rows d ! i) = VGA_COLS"
    and "\<And>i j. i < VGA_ROWS \<Longrightarrow> j < VGA_COLS \<Longrightarrow> get_cell (mem s) (VGA_COLS * i + j) = rows d ! i ! j"
    and "unat (column_counter s) = cursor d" "foreground s = ink d" "background s = paper d"
  shows "display_of s = d"
proof -
  have "rows (display_of s) = rows d"
    by (intro nth_equalityI) (use assms(1-3) in \<open>simp_all add: display_cell\<close>)
  then show ?thesis using assms(4-6) by (cases d) (simp add: display_of_def)
qed

lemma on_screen_at: "i < VGA_ROWS \<Longrightarrow> j < VGA_COLS \<Longrightarrow> on_screen (VGA_COLS * i + j)"
  by (simp add: on_screen_def)

lemma newline_display: "display_of (newline s) = scrolled (display_of s)"
proof (rule display_eqI)
  fix i j
  assume ij: "i < VGA_ROWS" "j < VGA_COLS"
  have cell: "get_cell (mem (newline s)) (VGA_COLS * i + j)
      = (if i < 24 then get_cell (mem s) (VGA_COLS * Suc i + j) else cell_of (of_char CHR '' '') s)"
    using newline_cell [OF on_screen_at [OF ij], of s] ij by (auto simp: add.commute add.left_commute)
  have "(tl (rows (display_of s)) @ [blank_row (display_of s)]) ! i ! j
      = (if i < 24 then rows (display_of s) ! Suc i ! j else coloured (of_char CHR '' '') (display_of s))"
    using ij by (auto simp: nth_append nth_tl blank_row_def)
  then show "get_cell (mem (newline s)) (VGA_COLS * i + j) = rows (scrolled (display_of s)) ! i ! j"
    using cell ij by (simp add: scrolled_def display_cell coloured_cell)
next
  fix i
  assume "i < VGA_ROWS"
  then show "length (rows (scrolled (display_of s)) ! i) = VGA_COLS"
    by (auto simp: scrolled_def nth_append nth_tl blank_row_def)
qed (simp_all add: scrolled_def newline_frame)

lemma draw_display: "display_of (draw_char c s) = shown c (display_of s)"
proof (cases "VGA_COLS \<le> unat (column_counter s) \<or> c = 10 \<or> c = 13")
  case True
  then show ?thesis
    by (auto simp: draw_char_def shown_def newline_display word_le_nat_alt)
      (simp_all add: display_of_def)
next
  case False
  let ?u = "unat (column_counter s)" and ?d = "display_of s"
  have u: "?u < VGA_COLS" "unat (column_counter s + 1) = ?u + 1"
    using False unat_add_of_nat [of "column_counter s" 1] by simp_all
  have draw: "draw_char c s = s\<lparr>mem := put_cell (mem s) (VGA_COLS * 24 + ?u) (cell_of c s),
      column_counter := column_counter s + 1\<rparr>"
    using False by (simp add: draw_char_def word_le_nat_alt)
  have shown: "shown c ?d = ?d\<lparr>rows := (rows ?d)[24 := (rows ?d ! 24)[?u := cell_of c s]], cursor := ?u + 1\<rparr>"
    using False last_conv_nth [of "rows ?d"] by (auto simp: shown_def coloured_cell simp flip: length_0_conv)
  show ?thesis
    unfolding shown
  proof (rule display_eqI)
    fix i j
    assume ij: "i < VGA_ROWS" "j < VGA_COLS"
    have "get_cell (mem (draw_char c s)) (VGA_COLS * i + j)
        = (if i = 24 \<and> j = ?u then cell_of c s else get_cell (mem s) (VGA_COLS * i + j))"
    proof (cases "i = 24 \<and> j = ?u")
      case False
      then have "VGA_COLS * 24 + ?u \<noteq> VGA_COLS * i + j" using ij u(1) by presburger
      then show ?thesis
        using on_screen_at [OF ij] on_screen_at [of 24 ?u] u(1) unfolding draw if_not_P [OF False]
        by (simp add: apart_cells_def screen.get_put_apart)
    qed (simp add: draw get_put_cell)
    then show "get_cell (mem (draw_char c s)) (VGA_COLS * i + j)
        = rows (?d\<lparr>rows := (rows ?d)[24 := (rows ?d ! 24)[?u := cell_of c s]], cursor := ?u + 1\<rparr>) ! i ! j"
      using ij u(1) by (auto simp: nth_list_update display_cell)
  next
    fix i
    assume "i < VGA_ROWS"
    then show "length (rows (?d\<lparr>rows := (rows ?d)[24 := (rows ?d ! 24)[?u := cell_of c s]], cursor := ?u + 1\<rparr>) ! i) = VGA_COLS"
      by (auto simp: nth_list_update)
  qed (use u(2) in \<open>simp_all add: draw\<close>)
qed

lemma clear_rows:
  assumes "n \<le> VGA_ROWS" and "on_screen k"
  shows "get_cell (fold (\<lambda>i. fold (\<lambda>j m. put_cell m (VGA_COLS * i + j) b) [0..<VGA_COLS]) [0..<n] m) k
    = (if k < VGA_COLS * n then b else get_cell m k)"
  using assms(1)
proof (induction n)
  case (Suc n)
  let ?m = "fold (\<lambda>i. fold (\<lambda>j m. put_cell m (VGA_COLS * i + j) b) [0..<VGA_COLS]) [0..<n] m"
  let ?f = "fold (\<lambda>j m. put_cell m (VGA_COLS * n + j) b) [0..<VGA_COLS] ?m"
  have row: "on_screen (VGA_COLS * n + j)" if "j < VGA_COLS" for j
    using Suc.prems that by (simp add: on_screen_def)
  show ?case
  proof (cases "VGA_COLS * n \<le> k \<and> k < VGA_COLS * Suc n")
    case True
    then obtain j where j: "k = VGA_COLS * n + j" "j < VGA_COLS"
      using le_Suc_ex [of "VGA_COLS * n" k] by auto
    have "get_cell ?f (VGA_COLS * n + j) = b"
      using j(2) row by (intro screen.fill_get) (auto simp: apart_cells_def)
    then show ?thesis using True j(1) by simp
  next
    case False
    then have "get_cell ?f k = get_cell ?m k"
      using row assms(2) by (intro screen.fill_apart) (auto simp: apart_cells_def)
    then show ?thesis using Suc False by auto
  qed
qed simp

lemma clear_display: "display_of (clear_screen s) = blanked (display_of s)"
proof (rule display_eqI)
  fix i j
  assume ij: "i < VGA_ROWS" "j < VGA_COLS"
  then have "VGA_COLS * i + j < VGA_COLS * VGA_ROWS" by simp
  then show "get_cell (mem (clear_screen s)) (VGA_COLS * i + j) = rows (blanked (display_of s)) ! i ! j"
    using clear_rows [of VGA_ROWS "VGA_COLS * i + j"] on_screen_at [OF ij] ij
    by (simp add: clear_screen_def Let_def blanked_def blank_row_def coloured_cell)
qed (simp_all add: clear_screen_def Let_def blanked_def blank_row_def)

section \<open>Sequences of operations\<close>

lemma clear_rows_outside:
  assumes "a \<notin> vga_region" and "n \<le> VGA_ROWS"
  shows "fold (\<lambda>i. fold (\<lambda>j m. put_cell m (VGA_COLS * i + j) b) [0..<VGA_COLS]) [0..<n] m a = m a"
  using assms(2)
proof (induction n)
  case (Suc n)
  then show ?case
    using fold_put_cell_outside [of "[0..<VGA_COLS]" "\<lambda>j. VGA_COLS * n + j" a] assms(1)
    by (simp add: on_screen_def)
qed simp

lemma no_background: "push_bit 4 c AND 0x0F = 0" for c :: u32
proof -
  have m: "(0x0F :: u32) = mask 4" by (simp add: mask_eq_exp_minus_1)
  show ?thesis unfolding m by (auto intro!: bit_word_eqI simp: bit_and_iff bit_push_bit_iff bit_mask_iff)
qed

lemma ink_nibble: "colour_value c AND 0xF0 = (if LIGHT_GREEN \<le> c then 0x10 else 0)"
  by (cases c) (simp_all add: less_eq_bios_colours_def word_le_nat_alt)

lemma perform_display: "display_of (perform op s) = displayed op (display_of s)"
  by (cases op) (simp_all add: draw_display clear_display, simp_all add: display_of_def set_foreground_def set_background_def no_background ink_nibble)

lemma perform_outside: "a \<notin> vga_region \<Longrightarrow> mem (perform op s) a = mem s a"
  by (cases op) (simp_all add: draw_char_outside clear_screen_def Let_def clear_rows_outside
      set_foreground_def set_background_def)

lemma perform_column:
  "unat (column_counter s) \<le> VGA_COLS \<Longrightarrow> unat (column_counter (perform op s)) \<le> VGA_COLS"
  by (cases op) (simp_all add: draw_char_column clear_screen_def Let_def set_foreground_def set_background_def)

lemma serial_same_display: "serial_same s t \<Longrightarrow> display_of t = display_of s"
  by (auto simp: serial_same_def display_of_def)

lemma putc_display:
  assumes "serial_live D" and "putc D c s = Some t"
  shows "display_of t = shown c (display_of s)"
proof -
  obtain s' where "serial_write_char D c (draw_char c s) = Some s'" "serial_same (draw_char c s) s'"
    using serial.out_ok [OF assms(1)] by blast
  then show ?thesis using assms(2) serial_same_display draw_display by (simp add: putc_def)
qed

lemma emit_display:
  assumes "serial_live D" and "emit (putc D) cs s = Some t"
  shows "display_of t = fold shown cs (display_of s)"
  using assms(2)
proof (induction cs arbitrary: s)
  case (Cons c cs)
  then obtain u where "putc D c s = Some u" "emit (putc D) cs u = Some t"
    by (auto split: Option.bind_splits)
  then show ?case using Cons.IH putc_display [OF assms(1)] by simp
qed simp

lemma emit_shows:
  assumes "serial_live D"
  shows "\<exists>t. emit (putc D) cs s = Some t \<and> console_same s t \<and>
    transmitted (trace t) = transmitted (trace s) @ cs \<and> display_of t = fold shown cs (display_of s)"
  using console.emit_ok [OF assms, of cs s] emit_display [OF assms, of cs s] by blast

section \<open>Reading a dump back\<close>

text \<open>The bytes of a dump: blanks and line ends skipped, two digits for each byte.\<close>

fun undump :: "u8 list \<Rightarrow> u8 list" where
  "undump (a # b # cs) =
     (if a = nl \<or> a = of_char CHR '' '' then undump (b # cs) else of_nat (hex_value [a, b]) # undump cs)"
| "undump cs = []"

lemma hex_digit_visible:
  assumes "d < 16"
  shows "hex_digit d \<noteq> 10" "hex_digit d \<noteq> 32"
proof -
  have "unat (of_nat k :: u8) = k" if "k < 256" for k using that by (simp add: unat_of_nat)
  then have "unat (hex_digit d) = (if d < 10 then 48 + d else 55 + d)"
    using assms unfolding hex_digit_def hexdigits_nth [OF assms] by (simp del: of_nat_add)
  then have "48 \<le> unat (hex_digit d)" by (simp split: if_splits)
  then show "hex_digit d \<noteq> 10" "hex_digit d \<noteq> 32" by auto
qed

lemma undump_separator: "undump (nl # cs) = undump cs" "undump (of_char CHR '' '' # cs) = undump cs"
  by (cases cs; simp)+

lemma undump_byte: "undump (hex_string 2 (unat b) @ cs) = b # undump cs"
proof -
  have b: "unat b < 256" using unsigned_less [of b] by simp
  have "hex_string 2 (unat b) = [hex_digit (unat b div 16 mod 16), hex_digit (unat b mod 16)]"
    by (simp add: numeral_2_eq_2)
  moreover have "hex_value (hex_string 2 (unat b)) = unat b"
    using b by (simp add: hex_value_string)
  ultimately show ?thesis by (simp add: hex_digit_visible)
qed

lemma undump_dump: "1 \<le> i \<Longrightarrow> undump (dump_string k buf i) = map buf [i - 1..<i - 1 + k]"
proof (induction k arbitrary: i)
  case (Suc k)
  have "undump ((if i mod 32 = 0 then [nl] else if i mod 2 = 0 then [of_char CHR '' ''] else []) @ cs) = undump cs" for cs
    by (simp add: undump_separator [simplified])
  then have "undump (dump_string (Suc k) buf i) = buf (i - 1) # undump (dump_string k buf (Suc i))"
    by (simp only: dump_string.simps undump_byte)
  also have "\<dots> = map buf [i - 1..<i - 1 + Suc k]"
    using Suc by (simp add: upt_conv_Cons)
  finally show ?case .
qed simp

section \<open>Properties\<close>

text \<open>C31. Any sequence of drawing, clearing and colour operations shows on the screen what the display
  shows: rows that scroll up, a cursor that wraps and drops the character of a full row, and of the
  colours only one bit, set for the foregrounds from light green on. The cursor stays within the row and no memory
  outside the screen changes.\<close>

theorem screen_refines:
  assumes "unat (column_counter s) \<le> VGA_COLS"
  shows "display_of (fold perform ops s) = fold displayed ops (display_of s) \<and>
    unat (column_counter (fold perform ops s)) \<le> VGA_COLS \<and>
    (\<forall>a. a \<notin> vga_region \<longrightarrow> mem (fold perform ops s) a = mem s a)"
  using assms
  by (induction ops arbitrary: s) (simp_all add: perform_display perform_column perform_outside)

theorem screen_refines_witness:
  "rows (display_of (fold perform [Clear, Draw 0x41, Draw 10, Draw 0x42] sample_state)) ! 23 ! 0 = cell_of 0x41 sample_state \<and>
   rows (display_of (fold perform [Clear, Draw 0x41, Draw 10, Draw 0x42] sample_state)) ! 24 ! 0 = cell_of 0x42 sample_state"
proof -
  have start: "unat (column_counter sample_state) = 0" by (simp add: sample_state_def vga_init_def)
  then have "display_of (fold perform [Clear, Draw 0x41, Draw 10, Draw 0x42] sample_state)
      = fold displayed [Clear, Draw 0x41, Draw 10, Draw 0x42] (display_of sample_state)"
    by (intro conjunct1 [OF screen_refines]) (simp only: le0)
  then show ?thesis
    using start by (simp add: shown_def scrolled_def blanked_def blank_row_def coloured_def cell_of_def nth_append nth_tl)
qed

text \<open>C32. While the serial port is live, printing a string returns, sends the bytes before its first
  NUL, shows exactly them on the screen, and changes nothing but the screen, the cursor column and the
  history of the serial port.\<close>

theorem puts_shows:
  assumes "serial_live D" and "str n = 0"
  shows "\<exists>t. puts D str s = Some t \<and> console_same s t \<and>
    transmitted (trace t) = transmitted (trace s) @ cstr n str \<and>
    display_of t = fold shown (cstr n str) (display_of s)"
  unfolding puts_view [of str n D s, OF assms(2)] by (rule emit_shows [OF assms(1)])

theorem puts_shows_witness:
  "\<exists>t. puts ready_device (lit (bytes ''ok'')) sample_state = Some t \<and>
    transmitted (trace t) = [0x6F, 0x6B] \<and> cursor (display_of t) = 2 \<and>
    rows (display_of t) ! 24 ! 0 = cell_of 0x6F sample_state"
proof -
  have start: "unat (column_counter sample_state) = 0" "transmitted (trace sample_state) = []"
    by (simp_all add: sample_state_def vga_init_def)
  have "cstr 2 (lit (bytes ''ok'')) = [0x6F, 0x6B]" by (simp add: cstr_takeWhile upt_conv_Cons bytes_def)
  moreover have "last (rows (display_of sample_state)) = rows (display_of sample_state) ! 24"
    by (subst last_conv_nth) (simp_all flip: length_0_conv)
  moreover have "rows (display_of sample_state) \<noteq> []"
    by (simp flip: length_0_conv)
  moreover obtain t where "puts ready_device (lit (bytes ''ok'')) sample_state = Some t"
      "transmitted (trace t) = transmitted (trace sample_state) @ cstr 2 (lit (bytes ''ok''))"
      "display_of t = fold shown (cstr 2 (lit (bytes ''ok''))) (display_of sample_state)"
    using puts_shows [OF ready_device_live, of "lit (bytes ''ok'')" 2 sample_state] by (auto simp: lit_def bytes_def)
  ultimately show ?thesis
    using start by (simp add: shown_def coloured_cell last_list_update del: display_of_simps(1)) (simp add: start)
qed

text \<open>C33. \<open>hexdump\<close> of any size but the largest returns on a live port, and what it sends reads back
  as the bytes dumped; the screen shows the same characters.\<close>

theorem hexdump_roundtrip:
  assumes "serial_live D" and "unat sz < 2 ^ 64 - 1"
  shows "\<exists>t ds. hexdump D buf sz s = Some t \<and> console_same s t \<and>
    transmitted (trace t) = transmitted (trace s) @ ds \<and> undump ds = map buf [0..<unat sz] \<and>
    display_of t = fold shown ds (display_of s)"
  using emit_shows [OF assms(1), of "dump_string (unat sz) buf 1" s] undump_dump [of 1 "unat sz" buf]
  unfolding hexdump_emit [OF assms(2)] by auto

theorem hexdump_roundtrip_witness:
  "\<exists>t ds. hexdump ready_device (lit [0xDE, 0xAD]) 2 sample_state = Some t \<and>
    transmitted (trace t) = ds \<and> undump ds = [0xDE, 0xAD]"
  using hexdump_roundtrip [OF ready_device_live, of 2 "lit [0xDE, 0xAD]" sample_state]
  by (auto simp: sample_state_def vga_init_def upt_rec)

end
