(* ===== verification/LongMode.thy ===== *)
theory LongMode
  imports Startup Interrupts
begin

text \<open>
  The rest of \<open>asm/start.asm\<close>: the checks of the processor, the switch to long mode and the global
  descriptor table, with the effect of each instruction on the registers named below, on the flags
  and on the stack. The program is entered as \<open>mbr.asm\<close> leaves the machine, in protected mode with
  the direction flag clear.

  What differs between processors is a parameter: the flags that can be changed, what \<open>cpuid\<close> returns,
  and the auxiliary carry after a logical instruction, which the manual leaves undefined. The return
  addresses that calls push are chosen by the assembler and a parameter as well.
\<close>

section \<open>Registers\<close>

record processor =
  eflags :: u32
  cr0 :: u32
  cr4 :: u32
  efer :: u64
  page_root :: u32
  code_selector :: u16
  data_selector :: u16
  stack_pointer :: u32


type_synonym cpu_state = "processor \<times> mem"

text \<open>The six arithmetic flags: carry, parity, auxiliary carry, zero, sign and overflow.\<close>

definition arithmetic_flags :: u32 where "arithmetic_flags = 0x8D5"

definition flag_bits :: "bool \<Rightarrow> bool \<Rightarrow> bool \<Rightarrow> bool \<Rightarrow> bool \<Rightarrow> bool \<Rightarrow> u32" where
  "flag_bits cf pf af zf sf ovf =
     (if cf then 0x1 else 0) OR (if pf then 0x4 else 0) OR (if af then 0x10 else 0) OR
     (if zf then 0x40 else 0) OR (if sf then 0x80 else 0) OR (if ovf then 0x800 else 0)"





definition arith :: "u32 \<Rightarrow> processor \<Rightarrow> processor" where
  "arith f c = c\<lparr>eflags := (eflags c AND NOT arithmetic_flags) OR f\<rparr>"

section \<open>The stack\<close>

definition push :: "u32 \<Rightarrow> cpu_state \<Rightarrow> cpu_state" where
  "push v = (\<lambda>(c, m). (c\<lparr>stack_pointer := stack_pointer c - 4\<rparr>, store32 m (ucast (stack_pointer c - 4)) v))"

definition pop :: "cpu_state \<Rightarrow> u32 \<times> cpu_state" where
  "pop = (\<lambda>(c, m). (load32 m (ucast (stack_pointer c)), c\<lparr>stack_pointer := stack_pointer c + 4\<rparr>, m))"



section \<open>The checks\<close>








section \<open>The descriptor table\<close>

definition GDT64 :: "u8 list" where
  "GDT64 = [0xFF, 0xFF, 0, 0, 0, 0, 1, 0,
            0, 0, 0, 0, 0, 0x9A, 0xAF, 0,
            0, 0, 0, 0, 0, 0x92, 0, 0]"


definition GDT64_limit :: u16 where "GDT64_limit = of_nat (length GDT64) - 1"

text \<open>A descriptor as the processor reads it: the access byte and the four flag bits.\<close>

record segment =
  access :: u8
  granularity :: u8

text \<open>A selector is the offset of its descriptor; its low three bits do not count.\<close>

definition descriptor :: "u8 list \<Rightarrow> u16 \<Rightarrow> u16 \<Rightarrow> segment option" where
  "descriptor table limit sel =
     (let off = unat (sel AND NOT 7)
      in if off = 0 \<or> unat limit < off + 7 then None
         else Some \<lparr>access = table ! (off + 5), granularity = drop_bit 4 (table ! (off + 6))\<rparr>)"

text \<open>Present, privilege 0, code rather than system or data, 64-bit and not 32-bit.\<close>

definition code64 :: "segment \<Rightarrow> bool" where
  "code64 d \<longleftrightarrow> bit (access d) 7 \<and> access d AND 0x60 = 0 \<and> bit (access d) 4 \<and> bit (access d) 3 \<and>
     bit (granularity d) 1 \<and> \<not> bit (granularity d) 2"

section \<open>The start\<close>



section \<open>Facts\<close>

lemma code_descriptor: "\<exists>d. descriptor GDT64 GDT64_limit 8 = Some d \<and> code64 d"
proof -
  have "descriptor GDT64 GDT64_limit 8 = Some \<lparr>access = 0x9A, granularity = 0xA\<rparr>"
    by (simp add: descriptor_def GDT64_limit_def GDT64_def Let_def)
  then show ?thesis by (simp add: code64_def)
qed

lemma flag_bits_arith: "flag_bits cf pf af zf sf ovf AND NOT arithmetic_flags = 0"
  by (simp add: flag_bits_def arithmetic_flags_def)

lemma arith_arith:
  "arith f (arith (flag_bits cf pf af zf sf ovf) c) = arith f c"
proof -
  have "((x AND NOT a) OR g) AND NOT a = x AND NOT a" if "g AND NOT a = 0" for x a g :: u32
    using that by (simp add: bit_eq_iff bit_simps) blast
  then show ?thesis by (simp add: arith_def flag_bits_arith)
qed


lemma arith_updates:
  "arith f (c\<lparr>cr0 := v\<rparr>) = (arith f c)\<lparr>cr0 := v\<rparr>" "arith f (c\<lparr>cr4 := x\<rparr>) = (arith f c)\<lparr>cr4 := x\<rparr>" "arith f (c\<lparr>efer := y\<rparr>) = (arith f c)\<lparr>efer := y\<rparr>"
  "arith f (c\<lparr>page_root := z\<rparr>) = (arith f c)\<lparr>page_root := z\<rparr>" "arith f (c\<lparr>stack_pointer := w\<rparr>) = (arith f c)\<lparr>stack_pointer := w\<rparr>"
  by (simp_all add: arith_def)

lemma arith_fields [simp]:
  "cr0 (arith f c) = cr0 c" "cr4 (arith f c) = cr4 c" "efer (arith f c) = efer c" "page_root (arith f c) = page_root c"
  "stack_pointer (arith f c) = stack_pointer c"
  by (simp_all add: arith_def)

lemma pop_push [simp]: "pop (push v (c, m)) = (v, c, store32 m (ucast (stack_pointer c - 4)) v)"
  by (simp add: pop_def push_def load32_store32)



text \<open>A processor up to its arithmetic flags.\<close>

definition up_to_flags :: "processor \<Rightarrow> processor \<Rightarrow> bool" where
  "up_to_flags c c' \<longleftrightarrow> (\<exists>cf pf af zf sf ovf. c' = arith (flag_bits cf pf af zf sf ovf) c)"


lemma up_to_flags_arith: "up_to_flags c c' \<Longrightarrow> arith f c' = arith f c"
  by (auto simp: up_to_flags_def arith_arith)




lemma up_to_flags_stack:
  "up_to_flags c c' \<Longrightarrow> up_to_flags (c\<lparr>stack_pointer := x\<rparr>) (c'\<lparr>stack_pointer := x\<rparr>)"
  unfolding up_to_flags_def by (elim exE) (simp only: arith_updates [symmetric], blast)








text \<open>An interrupt gate that the processor accepts with the descriptor table of \<open>start.asm\<close>.\<close>

definition well_typed_gate :: "gate \<Rightarrow> bool" where
  "well_typed_gate g = (case g of (_, sel, opt) \<Rightarrow>
     bit opt 15 \<and> opt AND 0x6000 = 0 \<and> drop_bit 8 opt AND 0x1F = 0xE \<and> opt AND 7 = 0 \<and>
     (case descriptor GDT64 GDT64_limit sel of None \<Rightarrow> False | Some d \<Rightarrow> code64 d))"

lemma well_typed_installed: "well_typed_gate (a, 8, 0x8E00)"
  using code_descriptor by (auto simp: well_typed_gate_def)

section \<open>Properties\<close>


text \<open>C15. Every gate that \<open>setup_interrupts\<close> installs is well typed for the descriptor table of
  \<open>start.asm\<close>: a present interrupt gate of privilege 0 without a separate stack whose selector is
  that of a present 64-bit code segment of privilege 0.\<close>

theorem gates_well_typed:
  "\<forall>(num, h) \<in> set interrupt_table.
     well_typed_gate (gate_at (mem (setup_interrupts IDT address s)) (IDT + 16 * num))"
  using setup_interrupts_at [of _ IDT address s] well_typed_installed by fastforce

theorem gates_well_typed_witness:
  "well_typed_gate (gate_at (mem (setup_interrupts 0x14000 (\<lambda>_. 0x10400) (boot_machine (\<lambda>_. 0)))) (0x14000 + 16 * 14))"
proof -
  have "(14, page_fault_handler) \<in> set interrupt_table" by (simp add: interrupt_table_def)
  with gates_well_typed [of "0x14000" "\<lambda>_. 0x10400" "boot_machine (\<lambda>_. 0)"] show ?thesis by fastforce
qed

end
