(* ===== verification/Md5.thy ===== *)
theory Md5
  imports Mem
begin

text \<open>
  The message digest of \<open>src/md5.c\<close> and \<open>include/md5.h\<close>, as compiled for x86-64 (\<open>SET\<close> and
  \<open>GET\<close> read the data in place), with the context and the data in memory; and RFC 1321 as a function on
  byte lists. The rounds of the code are proved equal to those of the RFC.
\<close>

section \<open>The basic functions\<close>

definition F :: "u32 \<Rightarrow> u32 \<Rightarrow> u32 \<Rightarrow> u32" where "F x y z = z XOR (x AND (y XOR z))"
definition G :: "u32 \<Rightarrow> u32 \<Rightarrow> u32 \<Rightarrow> u32" where "G x y z = y XOR (z AND (x XOR y))"
definition H :: "u32 \<Rightarrow> u32 \<Rightarrow> u32 \<Rightarrow> u32" where "H x y z = (x XOR y) XOR z"
definition H2 :: "u32 \<Rightarrow> u32 \<Rightarrow> u32 \<Rightarrow> u32" where "H2 x y z = x XOR (y XOR z)"
definition I :: "u32 \<Rightarrow> u32 \<Rightarrow> u32 \<Rightarrow> u32" where "I x y z = y XOR (x OR NOT z)"

definition STEP :: "(u32 \<Rightarrow> u32 \<Rightarrow> u32 \<Rightarrow> u32) \<Rightarrow> u32 \<Rightarrow> u32 \<Rightarrow> u32 \<Rightarrow> u32 \<Rightarrow> u32 \<Rightarrow> u32 \<Rightarrow> nat \<Rightarrow> u32" where
  "STEP f a b c d x t s =
     (let a = a + (f b c d + x + t);
          a = push_bit s a OR drop_bit (32 - s) (a AND 0xffffffff)
      in a + b)"

type_synonym registers = "u32 \<times> u32 \<times> u32 \<times> u32"

definition md5_round1 :: "(nat \<Rightarrow> u32) \<Rightarrow> registers \<Rightarrow> registers" where
  "md5_round1 x = (\<lambda>(a, b, c, d). let
     a = STEP F a b c d (x 0) 0xd76aa478 7;
     d = STEP F d a b c (x 1) 0xe8c7b756 12;
     c = STEP F c d a b (x 2) 0x242070db 17;
     b = STEP F b c d a (x 3) 0xc1bdceee 22;
     a = STEP F a b c d (x 4) 0xf57c0faf 7;
     d = STEP F d a b c (x 5) 0x4787c62a 12;
     c = STEP F c d a b (x 6) 0xa8304613 17;
     b = STEP F b c d a (x 7) 0xfd469501 22;
     a = STEP F a b c d (x 8) 0x698098d8 7;
     d = STEP F d a b c (x 9) 0x8b44f7af 12;
     c = STEP F c d a b (x 10) 0xffff5bb1 17;
     b = STEP F b c d a (x 11) 0x895cd7be 22;
     a = STEP F a b c d (x 12) 0x6b901122 7;
     d = STEP F d a b c (x 13) 0xfd987193 12;
     c = STEP F c d a b (x 14) 0xa679438e 17;
     b = STEP F b c d a (x 15) 0x49b40821 22
     in (a, b, c, d))"

definition md5_round2 :: "(nat \<Rightarrow> u32) \<Rightarrow> registers \<Rightarrow> registers" where
  "md5_round2 x = (\<lambda>(a, b, c, d). let
     a = STEP G a b c d (x 1) 0xf61e2562 5;
     d = STEP G d a b c (x 6) 0xc040b340 9;
     c = STEP G c d a b (x 11) 0x265e5a51 14;
     b = STEP G b c d a (x 0) 0xe9b6c7aa 20;
     a = STEP G a b c d (x 5) 0xd62f105d 5;
     d = STEP G d a b c (x 10) 0x02441453 9;
     c = STEP G c d a b (x 15) 0xd8a1e681 14;
     b = STEP G b c d a (x 4) 0xe7d3fbc8 20;
     a = STEP G a b c d (x 9) 0x21e1cde6 5;
     d = STEP G d a b c (x 14) 0xc33707d6 9;
     c = STEP G c d a b (x 3) 0xf4d50d87 14;
     b = STEP G b c d a (x 8) 0x455a14ed 20;
     a = STEP G a b c d (x 13) 0xa9e3e905 5;
     d = STEP G d a b c (x 2) 0xfcefa3f8 9;
     c = STEP G c d a b (x 7) 0x676f02d9 14;
     b = STEP G b c d a (x 12) 0x8d2a4c8a 20
     in (a, b, c, d))"

definition md5_round3 :: "(nat \<Rightarrow> u32) \<Rightarrow> registers \<Rightarrow> registers" where
  "md5_round3 x = (\<lambda>(a, b, c, d). let
     a = STEP H a b c d (x 5) 0xfffa3942 4;
     d = STEP H2 d a b c (x 8) 0x8771f681 11;
     c = STEP H c d a b (x 11) 0x6d9d6122 16;
     b = STEP H2 b c d a (x 14) 0xfde5380c 23;
     a = STEP H a b c d (x 1) 0xa4beea44 4;
     d = STEP H2 d a b c (x 4) 0x4bdecfa9 11;
     c = STEP H c d a b (x 7) 0xf6bb4b60 16;
     b = STEP H2 b c d a (x 10) 0xbebfbc70 23;
     a = STEP H a b c d (x 13) 0x289b7ec6 4;
     d = STEP H2 d a b c (x 0) 0xeaa127fa 11;
     c = STEP H c d a b (x 3) 0xd4ef3085 16;
     b = STEP H2 b c d a (x 6) 0x04881d05 23;
     a = STEP H a b c d (x 9) 0xd9d4d039 4;
     d = STEP H2 d a b c (x 12) 0xe6db99e5 11;
     c = STEP H c d a b (x 15) 0x1fa27cf8 16;
     b = STEP H2 b c d a (x 2) 0xc4ac5665 23
     in (a, b, c, d))"

definition md5_round4 :: "(nat \<Rightarrow> u32) \<Rightarrow> registers \<Rightarrow> registers" where
  "md5_round4 x = (\<lambda>(a, b, c, d). let
     a = STEP I a b c d (x 0) 0xf4292244 6;
     d = STEP I d a b c (x 7) 0x432aff97 10;
     c = STEP I c d a b (x 14) 0xab9423a7 15;
     b = STEP I b c d a (x 5) 0xfc93a039 21;
     a = STEP I a b c d (x 12) 0x655b59c3 6;
     d = STEP I d a b c (x 3) 0x8f0ccc92 10;
     c = STEP I c d a b (x 10) 0xffeff47d 15;
     b = STEP I b c d a (x 1) 0x85845dd1 21;
     a = STEP I a b c d (x 8) 0x6fa87e4f 6;
     d = STEP I d a b c (x 15) 0xfe2ce6e0 10;
     c = STEP I c d a b (x 6) 0xa3014314 15;
     b = STEP I b c d a (x 13) 0x4e0811a1 21;
     a = STEP I a b c d (x 4) 0xf7537e82 6;
     d = STEP I d a b c (x 11) 0xbd3af235 10;
     c = STEP I c d a b (x 2) 0x2ad7d2bb 15;
     b = STEP I b c d a (x 9) 0xeb86d391 21
     in (a, b, c, d))"


section \<open>Processing blocks\<close>

definition SET :: "mem \<Rightarrow> u64 \<Rightarrow> nat \<Rightarrow> u32" where
  "SET m ptr n = load32 m (ptr + 4 * of_nat n)"

text \<open>The rounds and the additions for one block, with \<open>x n\<close> its \<open>n\<close>-th word.\<close>

definition md5_block :: "(nat \<Rightarrow> u32) \<Rightarrow> registers \<Rightarrow> registers" where
  "md5_block x = (\<lambda>(saved_a, saved_b, saved_c, saved_d).
     let (a, b, c, d) = md5_round4 x (md5_round3 x (md5_round2 x (md5_round1 x (saved_a, saved_b, saved_c, saved_d))))
     in (a + saved_a, b + saved_b, c + saved_c, d + saved_d))"

text \<open>The do-while loop ends only for a positive multiple of 64.\<close>

partial_function (option) body_loop :: "mem \<Rightarrow> u64 \<Rightarrow> u64 \<Rightarrow> registers \<Rightarrow> (u64 \<times> registers) option" where
  "body_loop m ptr n r =
     (let r = md5_block (SET m ptr) r; ptr = ptr + 64; n = n - 64
      in if n \<noteq> 0 then body_loop m ptr n r else Some (ptr, r))"

text \<open>The fields of \<open>MD5_CTX\<close>, by address.\<close>

definition ctx_lo :: "u64 \<Rightarrow> u64" where "ctx_lo ctx = ctx"
definition ctx_hi :: "u64 \<Rightarrow> u64" where "ctx_hi ctx = ctx + 4"
definition ctx_a :: "u64 \<Rightarrow> u64" where "ctx_a ctx = ctx + 8"
definition ctx_b :: "u64 \<Rightarrow> u64" where "ctx_b ctx = ctx + 12"
definition ctx_c :: "u64 \<Rightarrow> u64" where "ctx_c ctx = ctx + 16"
definition ctx_d :: "u64 \<Rightarrow> u64" where "ctx_d ctx = ctx + 20"
definition ctx_buffer :: "u64 \<Rightarrow> u64" where "ctx_buffer ctx = ctx + 24"

definition body :: "u64 \<Rightarrow> u64 \<Rightarrow> u64 \<Rightarrow> mem \<Rightarrow> (u64 \<times> mem) option" where
  "body ctx data n m = do {
     let a = load32 m (ctx_a ctx);
     let b = load32 m (ctx_b ctx);
     let c = load32 m (ctx_c ctx);
     let d = load32 m (ctx_d ctx);
     (ptr, a, b, c, d) \<leftarrow> body_loop m data n (a, b, c, d);
     let m = store32 m (ctx_a ctx) a;
     let m = store32 m (ctx_b ctx) b;
     let m = store32 m (ctx_c ctx) c;
     let m = store32 m (ctx_d ctx) d;
     Some (ptr, m) }"

section \<open>The interface\<close>

definition MD5_Init :: "u64 \<Rightarrow> mem \<Rightarrow> mem" where
  "MD5_Init ctx m = (let
     m = store32 m (ctx_a ctx) 0x67452301;
     m = store32 m (ctx_b ctx) 0xefcdab89;
     m = store32 m (ctx_c ctx) 0x98badcfe;
     m = store32 m (ctx_d ctx) 0x10325476;
     m = store32 m (ctx_lo ctx) 0;
     m = store32 m (ctx_hi ctx) 0
     in m)"

text \<open>The count of bytes, in the low 29 bits of \<open>lo\<close> and in \<open>hi\<close>.\<close>

definition update_count :: "u64 \<Rightarrow> u64 \<Rightarrow> mem \<Rightarrow> mem" where
  "update_count ctx n m = (let
     saved_lo = load32 m (ctx_lo ctx);
     lo = ucast ((ucast saved_lo + n) AND 0x1fffffff);
     m = store32 m (ctx_lo ctx) lo;
     m = (if lo < saved_lo then store32 m (ctx_hi ctx) (load32 m (ctx_hi ctx) + 1) else m)
     in store32 m (ctx_hi ctx) (ucast (ucast (load32 m (ctx_hi ctx)) + drop_bit 29 n :: u64)))"

definition update_blocks :: "u64 \<Rightarrow> u64 \<Rightarrow> u64 \<Rightarrow> mem \<Rightarrow> mem option" where
  "update_blocks ctx data n m = do {
     (data, n, m) \<leftarrow> (if n \<ge> 64
       then do { (data, m) \<leftarrow> body ctx data (n AND NOT 0x3f) m; Some (data, n AND 0x3f, m) }
       else Some (data, n, m));
     memcpy m (ctx_buffer ctx) data n }"

definition MD5_Update :: "u64 \<Rightarrow> u64 \<Rightarrow> u64 \<Rightarrow> mem \<Rightarrow> mem option" where
  "MD5_Update ctx data n m = do {
     let used = ucast (load32 m (ctx_lo ctx) AND 0x3f);
     let m = update_count ctx n m;
     if used \<noteq> 0
     then do {
       let available = 64 - used;
       if n < available
       then memcpy m (ctx_buffer ctx + used) data n
       else do {
         m \<leftarrow> memcpy m (ctx_buffer ctx + used) data available;
         (_, m) \<leftarrow> body ctx (ctx_buffer ctx) 64 m;
         update_blocks ctx (data + available) (n - available) m } }
     else update_blocks ctx data n m }"

definition OUT :: "mem \<Rightarrow> u64 \<Rightarrow> u32 \<Rightarrow> mem" where
  "OUT m dst src = m(dst := ucast src, (dst + 1) := ucast (drop_bit 8 src),
     (dst + 2) := ucast (drop_bit 16 src), (dst + 3) := ucast (drop_bit 24 src))"

definition MD5_Final :: "u64 \<Rightarrow> u64 \<Rightarrow> mem \<Rightarrow> mem option" where
  "MD5_Final result ctx m = do {
     let used = (ucast (load32 m (ctx_lo ctx) AND 0x3f) :: u64);
     let m = m((ctx_buffer ctx + used) := 0x80);
     let used = used + 1;
     let available = 64 - used;
     (used, available, m) \<leftarrow> (if available < 8
       then do {
         m \<leftarrow> memset m (ctx_buffer ctx + used) 0 available;
         (_, m) \<leftarrow> body ctx (ctx_buffer ctx) 64 m;
         Some (0, 64, m) }
       else Some (used, available, m));
     m \<leftarrow> memset m (ctx_buffer ctx + used) 0 (available - 8);
     let m = store32 m (ctx_lo ctx) (push_bit 3 (load32 m (ctx_lo ctx)));
     let m = OUT m (ctx_buffer ctx + 56) (load32 m (ctx_lo ctx));
     let m = OUT m (ctx_buffer ctx + 60) (load32 m (ctx_hi ctx));
     (_, m) \<leftarrow> body ctx (ctx_buffer ctx) 64 m;
     let m = OUT m result (load32 m (ctx_a ctx));
     let m = OUT m (result + 4) (load32 m (ctx_b ctx));
     let m = OUT m (result + 8) (load32 m (ctx_c ctx));
     let m = OUT m (result + 12) (load32 m (ctx_d ctx));
     memset m ctx 0 152 }"

section \<open>RFC 1321\<close>

text \<open>
  The functions, the order of the words, the shifts and the table of the RFC, for the steps 0 to 63;
  a step moves the registers round.
\<close>

definition rfc_function :: "nat \<Rightarrow> u32 \<Rightarrow> u32 \<Rightarrow> u32 \<Rightarrow> u32" where
  "rfc_function i x y z =
     (if i < 16 then (x AND y) OR (NOT x AND z)
      else if i < 32 then (x AND z) OR (y AND NOT z)
      else if i < 48 then x XOR y XOR z
      else y XOR (x OR NOT z))"

definition rfc_word :: "nat \<Rightarrow> nat" where
  "rfc_word i =
     (if i < 16 then i else if i < 32 then (5 * i + 1) mod 16
      else if i < 48 then (3 * i + 5) mod 16 else 7 * i mod 16)"

definition rfc_shift :: "nat \<Rightarrow> nat" where
  "rfc_shift i = [[7, 12, 17, 22], [5, 9, 14, 20], [4, 11, 16, 23], [6, 10, 15, 21]] ! (i div 16) ! (i mod 4)"

definition rfc_table :: "u32 list" where
  "rfc_table =
     [0xd76aa478, 0xe8c7b756, 0x242070db, 0xc1bdceee,
      0xf57c0faf, 0x4787c62a, 0xa8304613, 0xfd469501,
      0x698098d8, 0x8b44f7af, 0xffff5bb1, 0x895cd7be,
      0x6b901122, 0xfd987193, 0xa679438e, 0x49b40821,
      0xf61e2562, 0xc040b340, 0x265e5a51, 0xe9b6c7aa,
      0xd62f105d, 0x02441453, 0xd8a1e681, 0xe7d3fbc8,
      0x21e1cde6, 0xc33707d6, 0xf4d50d87, 0x455a14ed,
      0xa9e3e905, 0xfcefa3f8, 0x676f02d9, 0x8d2a4c8a,
      0xfffa3942, 0x8771f681, 0x6d9d6122, 0xfde5380c,
      0xa4beea44, 0x4bdecfa9, 0xf6bb4b60, 0xbebfbc70,
      0x289b7ec6, 0xeaa127fa, 0xd4ef3085, 0x04881d05,
      0xd9d4d039, 0xe6db99e5, 0x1fa27cf8, 0xc4ac5665,
      0xf4292244, 0x432aff97, 0xab9423a7, 0xfc93a039,
      0x655b59c3, 0x8f0ccc92, 0xffeff47d, 0x85845dd1,
      0x6fa87e4f, 0xfe2ce6e0, 0xa3014314, 0x4e0811a1,
      0xf7537e82, 0xbd3af235, 0x2ad7d2bb, 0xeb86d391]"

definition rfc_step :: "(nat \<Rightarrow> u32) \<Rightarrow> nat \<Rightarrow> registers \<Rightarrow> registers" where
  "rfc_step x i = (\<lambda>(a, b, c, d).
     (d, b + word_rotl (rfc_shift i) (a + rfc_function i b c d + x (rfc_word i) + rfc_table ! i), b, c))"

definition rfc_block :: "(nat \<Rightarrow> u32) \<Rightarrow> registers \<Rightarrow> registers" where
  "rfc_block x = (\<lambda>(a, b, c, d).
     let (a', b', c', d') = fold (rfc_step x) [0..<64] (a, b, c, d)
     in (a + a', b + b', c + c', d + d'))"

text \<open>The whole message: blocks of 64 bytes, the padding, the length in bits, the digest.\<close>

definition block_word :: "u8 list \<Rightarrow> nat \<Rightarrow> u32" where
  "block_word xs n = word_of_bytes (take 4 (drop (4 * n) xs))"

fun absorb :: "registers \<Rightarrow> u8 list \<Rightarrow> registers" where
  "absorb r xs = (if length xs < 64 then r else absorb (rfc_block (block_word (take 64 xs)) r) (drop 64 xs))"

declare absorb.simps [simp del]

definition rfc_initial :: registers where
  "rfc_initial = (0x67452301, 0xefcdab89, 0x98badcfe, 0x10325476)"

definition padding :: "u8 list \<Rightarrow> u8 list" where
  "padding xs = 0x80 # replicate ((119 - length xs mod 64) mod 64) 0 @ bytes_of 8 (of_nat (8 * length xs) :: u64)"

definition digest :: "registers \<Rightarrow> u8 list" where
  "digest = (\<lambda>(a, b, c, d). bytes_of 4 a @ bytes_of 4 b @ bytes_of 4 c @ bytes_of 4 d)"

definition rfc_md5 :: "u8 list \<Rightarrow> u8 list" where
  "rfc_md5 xs = digest (absorb rfc_initial (xs @ padding xs))"

section \<open>The rounds\<close>

lemma basic_functions:
  "i < 16 \<Longrightarrow> F = rfc_function i"
  "16 \<le> i \<Longrightarrow> i < 32 \<Longrightarrow> G = rfc_function i"
  "32 \<le> i \<Longrightarrow> i < 48 \<Longrightarrow> H = rfc_function i"
  "32 \<le> i \<Longrightarrow> i < 48 \<Longrightarrow> H2 = rfc_function i"
  "48 \<le> i \<Longrightarrow> I = rfc_function i"
  unfolding F_def G_def H_def H2_def I_def rfc_function_def
  by (auto simp: fun_eq_iff bit_eq_iff bit_simps)

lemma rotate_left:
  fixes a :: u32
  assumes "0 < s" and "s < 32"
  shows "push_bit s a OR drop_bit (32 - s) (a AND 0xffffffff) = word_rotl s a"
proof -
  have m: "(0xffffffff :: u32) = mask 32" by (simp add: mask_eq_exp_minus_1)
  show ?thesis
  proof (rule bit_word_eqI)
    fix n
    assume n: "n < LENGTH(32)"
    show "bit (push_bit s a OR drop_bit (32 - s) (a AND 0xffffffff)) n = bit (word_rotl s a) n"
    proof (cases "n < s")
      case True
      then have "(n + (32 - s)) mod 32 = 32 + n - s" using assms by simp
      then show ?thesis using True assms n unfolding m by (auto simp: bit_simps bit_word_rotl_iff)
    next
      case False
      then have eq: "n + (32 - s) = (n - s) + 32" using assms by simp
      have "(n + (32 - s)) mod 32 = n - s" unfolding eq mod_add_self2 using n by simp
      moreover have "\<not> 32 + n - s < 32" using False by simp
      ultimately show ?thesis using False assms n unfolding m by (simp add: bit_simps bit_word_rotl_iff)
    qed
  qed
qed

lemma step_rotates: "0 < s \<Longrightarrow> s < 32 \<Longrightarrow> STEP f a b c d x t s = b + word_rotl s (a + f b c d + x + t)"
  unfolding STEP_def Let_def by (subst rotate_left) (simp_all add: ac_simps)

text \<open>A row of the code's rounds as data: function, word, constant and shift.\<close>

definition row_step :: "(nat \<Rightarrow> u32) \<Rightarrow> (u32 \<Rightarrow> u32 \<Rightarrow> u32 \<Rightarrow> u32) \<times> nat \<times> u32 \<times> nat \<Rightarrow> registers \<Rightarrow> registers" where
  "row_step x = (\<lambda>(f, k, t, s) (a, b, c, d). (d, STEP f a b c d (x k) t s, b, c))"

lemma fold_rows:
  "fold (row_step x) ((f, k, t, s) # rows) (a, b, c, d)
     = (let a' = STEP f a b c d (x k) t s in fold (row_step x) rows (d, a', b, c))"
  "fold (row_step x) [] r = r"
  by (simp_all add: row_step_def)

definition code_rows :: "(nat \<Rightarrow> u32 \<Rightarrow> u32 \<Rightarrow> u32 \<Rightarrow> u32) \<Rightarrow> nat \<Rightarrow> nat \<Rightarrow> ((u32 \<Rightarrow> u32 \<Rightarrow> u32 \<Rightarrow> u32) \<times> nat \<times> u32 \<times> nat) list" where
  "code_rows f i j = map (\<lambda>i. (f i, rfc_word i, rfc_table ! i, rfc_shift i)) [i..<j]"

lemma upt_16: "[0..<16] = [0, 1, 2, 3, 4, 5, 6, 7, 8, 9, 10, 11, 12, 13, 14, 15]"
  by (simp add: upt_rec)

lemmas row_values = code_rows_def upt_16 rfc_word_def rfc_shift_def rfc_table_def

lemma rows_1: "md5_round1 x (a, b, c, d) = fold (row_step x) (code_rows (\<lambda>_. F) 0 16) (a, b, c, d)"
  by (simp add: row_values del: fold.simps(2)) (simp only: fold_rows md5_round1_def prod.case One_nat_def)

lemma rows_2: "md5_round2 x (a, b, c, d) = fold (row_step x) (code_rows (\<lambda>_. G) 16 32) (a, b, c, d)"
  by (simp add: row_values del: fold.simps(2)) (simp only: fold_rows md5_round2_def prod.case One_nat_def)

lemma rows_3: "md5_round3 x (a, b, c, d)
    = fold (row_step x) (code_rows (\<lambda>i. if even i then H else H2) 32 48) (a, b, c, d)"
  by (simp add: row_values del: fold.simps(2)) (simp only: fold_rows md5_round3_def prod.case One_nat_def)

lemma rows_4: "md5_round4 x (a, b, c, d) = fold (row_step x) (code_rows (\<lambda>_. I) 48 64) (a, b, c, d)"
  by (simp add: row_values del: fold.simps(2)) (simp only: fold_rows md5_round4_def prod.case One_nat_def)

lemma rfc_shift_bounds:
  assumes "i < 64"
  shows "0 < rfc_shift i \<and> rfc_shift i < 32"
proof -
  have "i div 16 < 4" "i mod 4 < 4" using assms by simp_all
  then have "i div 16 \<in> {0, 1, 2, 3}" "i mod 4 \<in> {0, 1, 2, 3}" by auto
  then show ?thesis unfolding rfc_shift_def by auto
qed

lemma rows_rfc:
  assumes "n \<le> 64" and "\<And>i. k \<le> i \<Longrightarrow> i < n \<Longrightarrow> f i = rfc_function i"
  shows "fold (row_step x) (code_rows f k n) r = fold (rfc_step x) [k..<n] r"
proof -
  have "row_step x (f i, rfc_word i, rfc_table ! i, rfc_shift i) = rfc_step x i" if "k \<le> i" "i < n" for i
    using assms(2) [OF that] rfc_shift_bounds [of i] assms(1) that
    by (auto simp: fun_eq_iff row_step_def rfc_step_def step_rotates)
  then show ?thesis
    unfolding code_rows_def fold_map o_def by (intro fold_cong) auto
qed

text \<open>The rounds of the code are those of the RFC.\<close>

lemma md5_block_rfc: "md5_block x r = rfc_block x r"
proof -
  obtain a b c d where r: "r = (a, b, c, d)" by (cases r)
  have all: "[0..<64] = [0..<16] @ [16..<32] @ [32..<48] @ [48..<64 :: nat]"
    by (simp add: upt_add_eq_append [of _ 16 48, simplified] upt_add_eq_append [of 16 32 32, simplified]
        upt_add_eq_append [of 32 48 16, simplified])
  have "md5_round1 x r = fold (rfc_step x) [0..<16] r" for r
    by (cases r) (simp only: rows_1, rule rows_rfc, simp_all add: basic_functions(1))
  moreover have "md5_round2 x r = fold (rfc_step x) [16..<32] r" for r
    by (cases r) (simp only: rows_2, rule rows_rfc, simp_all add: basic_functions(2))
  moreover have "md5_round3 x r = fold (rfc_step x) [32..<48] r" for r
    by (cases r) (simp only: rows_3, rule rows_rfc, simp_all add: basic_functions(3) basic_functions(4) [symmetric])
  moreover have "md5_round4 x r = fold (rfc_step x) [48..<64] r" for r
    by (cases r) (simp only: rows_4, rule rows_rfc, simp_all add: basic_functions(5))
  ultimately have "md5_round4 x (md5_round3 x (md5_round2 x (md5_round1 x r))) = fold (rfc_step x) [0..<64] r"
    unfolding all fold_append o_apply by simp
  then show ?thesis
    by (simp add: md5_block_def rfc_block_def r Let_def add.commute split: prod.splits)
qed

section \<open>Absorbing\<close>

lemma rfc_word_bound: "i < 64 \<Longrightarrow> rfc_word i < 16"
  by (simp add: rfc_word_def)

lemma rfc_block_cong:
  assumes "\<And>n. n < 16 \<Longrightarrow> x n = y n"
  shows "rfc_block x r = rfc_block y r"
proof -
  have "fold (rfc_step x) [0..<64] r = fold (rfc_step y) [0..<64] r" for r
    by (rule fold_cong) (auto simp: rfc_step_def assms rfc_word_bound)
  then show ?thesis by (simp add: rfc_block_def)
qed

text \<open>What is left of a message after its whole blocks.\<close>

definition rest :: "u8 list \<Rightarrow> u8 list" where
  "rest xs = drop (64 * (length xs div 64)) xs"

lemma length_rest: "length (rest xs) = length xs mod 64"
  by (simp add: rest_def minus_mult_div_eq_mod)

lemma rest_less [simp]: "length xs < 64 \<Longrightarrow> rest xs = xs"
  by (simp add: rest_def)

lemma rest_drop: "64 \<le> length xs \<Longrightarrow> rest (drop 64 xs) = rest xs"
proof -
  assume "64 \<le> length xs"
  then have "64 * (length xs div 64) = 64 * ((length xs - 64) div 64) + 64"
    by (simp add: le_div_geq)
  then show ?thesis by (simp add: rest_def)
qed

lemma absorb_less [simp]: "length xs < 64 \<Longrightarrow> absorb r xs = r"
  by (simp add: absorb.simps)

lemma absorb_block: "length b = 64 \<Longrightarrow> absorb r (b @ xs) = absorb (rfc_block (block_word b) r) xs"
  by (subst absorb.simps) simp

lemma absorb_append: "absorb r (xs @ ys) = absorb (absorb r xs) (rest xs @ ys)"
proof (induction r xs rule: absorb.induct)
  case (1 r xs)
  show ?case
  proof (cases "length xs < 64")
    case False
    then have "xs = take 64 xs @ drop 64 xs" "length (take 64 xs) = 64" by simp_all
    then have "absorb r (xs @ ys) = absorb (rfc_block (block_word (take 64 xs)) r) (drop 64 xs @ ys)"
      "absorb r xs = absorb (rfc_block (block_word (take 64 xs)) r) (drop 64 xs)"
      using absorb_block by (metis append.assoc)+
    then show ?thesis using False 1 by (simp add: rest_drop)
  qed simp
qed

lemma rest_append: "rest (xs @ ys) = rest (rest xs @ ys)"
proof (induction xs rule: length_induct)
  case (1 xs)
  show ?case
  proof (cases "length xs < 64")
    case False
    then have "rest (drop 64 xs @ ys) = rest (rest (drop 64 xs) @ ys)" using 1 by simp
    then show ?thesis using False rest_drop [of "xs @ ys"] rest_drop [of xs] by simp
  qed simp
qed

end
