(* ===== verification/Md5Hash.thy ===== *)
theory Md5Hash
  imports Md5
begin

text \<open>
  The interface of \<open>src/md5.c\<close> against RFC 1321: what the context in memory stands for, that
  initialising and updating keep it, and that finishing writes the digest.
\<close>

section \<open>Fields of the context\<close>

lemma in_field:
  assumes "unat c + n \<le> 2 ^ 64"
  shows "x \<in> span (d + c) n \<longleftrightarrow> unat c \<le> unat (x - d) \<and> unat (x - d) < unat c + n"
  using in_span_offset [of "unat c" n x d] assms unat_lt_64 [of c] by simp

lemma load32_store32_apart: "span a 4 \<inter> span b 4 = {} \<Longrightarrow> load32 (store32 m a v) b = load32 m b"
  by (rule load32_cong) (auto intro: store32_out)

interpretation words32: cell_store load32 store32 "\<lambda>a b. span a 4 \<inter> span b 4 = {}"
  by unfold_locales (simp_all add: load32_store32 load32_store32_apart)

lemmas ctx_fields = ctx_lo_def ctx_hi_def ctx_a_def ctx_b_def ctx_c_def ctx_d_def ctx_buffer_def

lemma field_sub: "unat c + n \<le> k \<Longrightarrow> k \<le> 2 ^ 64 \<Longrightarrow> x \<in> span (d + c) n \<Longrightarrow> x \<in> span d k"
  using in_field [of c n x d] by (simp add: in_span [of x d])

definition registers_at :: "mem \<Rightarrow> u64 \<Rightarrow> registers" where
  "registers_at m ctx = (load32 m (ctx_a ctx), load32 m (ctx_b ctx), load32 m (ctx_c ctx), load32 m (ctx_d ctx))"

definition count_at :: "mem \<Rightarrow> u64 \<Rightarrow> nat \<Rightarrow> bool" where
  "count_at m ctx n \<longleftrightarrow> load32 m (ctx_lo ctx) = of_nat (n mod 2 ^ 29) \<and> load32 m (ctx_hi ctx) = of_nat (n div 2 ^ 29)"

definition set_registers :: "u64 \<Rightarrow> registers \<Rightarrow> mem \<Rightarrow> mem" where
  "set_registers ctx = (\<lambda>(a, b, c, d) m.
     store32 (store32 (store32 (store32 m (ctx_a ctx) a) (ctx_b ctx) b) (ctx_c ctx) c) (ctx_d ctx) d)"

lemma registers_at_set [simp]: "registers_at (set_registers ctx r m) ctx = r"
proof -
  have "span (ctx + 8) 4 \<inter> span (ctx + 12) 4 = {}" "span (ctx + 8) 4 \<inter> span (ctx + 16) 4 = {}"
    "span (ctx + 8) 4 \<inter> span (ctx + 20) 4 = {}" "span (ctx + 12) 4 \<inter> span (ctx + 16) 4 = {}"
    "span (ctx + 12) 4 \<inter> span (ctx + 20) 4 = {}" "span (ctx + 16) 4 \<inter> span (ctx + 20) 4 = {}"
    by (auto simp: in_field)
  then show ?thesis
    by (cases r) (simp add: set_registers_def registers_at_def ctx_fields load32_store32 load32_store32_apart Int_commute)
qed

lemma set_registers_out: "x \<notin> span (ctx + 8) 16 \<Longrightarrow> set_registers ctx r m x = m x"
proof -
  assume "x \<notin> span (ctx + 8) 16"
  then have "x \<notin> span (ctx + 8) 4" "x \<notin> span (ctx + 12) 4" "x \<notin> span (ctx + 16) 4" "x \<notin> span (ctx + 20) 4"
    by (auto simp: in_field)
  then show ?thesis by (cases r) (simp add: set_registers_def ctx_fields store32_out)
qed

lemma registers_at_cong:
  "(\<And>x. x \<in> span (ctx + 8) 16 \<Longrightarrow> m x = m' x) \<Longrightarrow> registers_at m ctx = registers_at m' ctx"
  unfolding registers_at_def ctx_fields by (intro arg_cong2 [where f = Pair] load32_cong) (auto simp: in_field)

lemma count_at_cong:
  assumes "\<And>x. x \<in> span ctx 8 \<Longrightarrow> m x = m' x"
  shows "count_at m ctx n \<longleftrightarrow> count_at m' ctx n"
proof -
  have "load32 m (ctx_lo ctx) = load32 m' (ctx_lo ctx)" "load32 m (ctx_hi ctx) = load32 m' (ctx_hi ctx)"
    unfolding ctx_fields using field_sub [of 4 4 8 _ ctx] span_mono [of 4 8 ctx]
    by (auto intro!: load32_cong assms)
  then show ?thesis by (simp add: count_at_def)
qed

lemma load_bytes_append: "load_bytes m a (j + k) = load_bytes m a j @ load_bytes m (a + of_nat j) k"
  by (rule nth_equalityI) (simp_all add: nth_append add.assoc flip: of_nat_add)

section \<open>body\<close>

lemma SET_word:
  assumes "n < 16"
  shows "SET m ptr n = block_word (load_bytes m ptr 64) n"
proof -
  have "load_bytes m (ptr + of_nat (4 * n)) 4 = take 4 (drop (4 * n) (load_bytes m ptr 64))"
    using assms by (intro load_bytes_offset) simp
  then show ?thesis by (simp add: SET_def block_word_def load32_def)
qed

lemma body_loop_run:
  assumes "0 < k" and "64 * k < 2 ^ 64"
  shows "body_loop m ptr (of_nat (64 * k)) r = Some (ptr + of_nat (64 * k), absorb r (load_bytes m ptr (64 * k)))"
  using assms
proof (induction k arbitrary: ptr r)
  case 0
  then show ?case by simp
next
  case (Suc k)
  let ?r = "md5_block (SET m ptr) r"
  have "?r = rfc_block (block_word (load_bytes m ptr 64)) r"
    unfolding md5_block_rfc by (rule rfc_block_cong) (simp add: SET_word)
  moreover have "load_bytes m ptr (64 * Suc k) = load_bytes m ptr 64 @ load_bytes m (ptr + 64) (64 * k)"
    using load_bytes_append [of m ptr 64 "64 * k"] by simp
  ultimately have r: "absorb r (load_bytes m ptr (64 * Suc k)) = absorb ?r (load_bytes m (ptr + 64) (64 * k))"
    using absorb_block [of "load_bytes m ptr 64" r] by simp
  have n: "of_nat (64 * Suc k) - 64 = (of_nat (64 * k) :: u64)" by simp
  show ?case
  proof (cases "k = 0")
    case True
    then show ?thesis using r by (subst body_loop.simps) (simp add: Let_def)
  next
    case False
    then have "(of_nat (64 * k) :: u64) \<noteq> 0" using Suc.prems by (simp add: word_unat_eq_iff unat_of_nat del: of_nat_mult)
    then have "body_loop m ptr (of_nat (64 * Suc k)) r = body_loop m (ptr + 64) (of_nat (64 * k)) ?r"
      by (subst body_loop.simps) (simp only: Let_def n if_True not_False_eq_True)
    then show ?thesis using Suc False r by (simp add: add.assoc)
  qed
qed

lemma body_run:
  assumes "0 < k" and "64 * k < 2 ^ 64"
  shows "body ctx data (of_nat (64 * k)) m = Some (data + of_nat (64 * k),
    set_registers ctx (absorb (registers_at m ctx) (load_bytes m data (64 * k))) m)"
  unfolding body_def Let_def registers_at_def body_loop_run [OF assms]
  by (simp add: set_registers_def Let_def split: prod.split)

section \<open>Counting\<close>

lemma ucast_of_nat_down: "(ucast (of_nat n :: u64) :: u32) = of_nat n"
  by (simp add: word_unat_eq_iff unsigned_ucast_eq unsigned_of_nat take_bit_take_bit)

lemma ucast_add_down: "(ucast (a + b :: u64) :: u32) = ucast a + ucast b"
  using ucast_of_nat_down [of "unat a + unat b"] ucast_of_nat_down [of "unat a"] ucast_of_nat_down [of "unat b"]
  by simp

lemma take_29: "(of_nat k AND 0x1fffffff :: u64) = of_nat (k mod 2 ^ 29)"
proof -
  have "(0x1fffffff :: u64) = mask 29" by (simp add: mask_eq_exp_minus_1)
  then have "(of_nat k AND 0x1fffffff :: u64) = take_bit 29 (of_nat k)" by (simp add: take_bit_eq_mask)
  then show ?thesis
    by (simp add: word_unat_eq_iff unsigned_take_bit_eq unsigned_of_nat take_bit_take_bit)
      (simp add: take_bit_eq_mod)
qed

lemma count_carry:
  fixes N n :: nat
  shows "(N + n) div 2 ^ 29 = N div 2 ^ 29 + n div 2 ^ 29 + (if (N + n) mod 2 ^ 29 < N mod 2 ^ 29 then 1 else 0)"
proof -
  have "N mod 2 ^ 29 < 2 ^ 29" "n mod 2 ^ 29 < 2 ^ 29" for N n :: nat by simp_all
  then show ?thesis
    unfolding div_add1_eq [of N n] mod_add_eq [of N "2 ^ 29" n, symmetric]
    by (cases "N mod 2 ^ 29 + n mod 2 ^ 29 < 2 ^ 29") (auto simp: le_div_geq le_mod_geq)
qed

lemma update_count_run:
  assumes "count_at m ctx N" and "n < 2 ^ 64"
  shows "count_at (update_count ctx (of_nat n) m) ctx (N + n)"
    "x \<notin> span ctx 8 \<Longrightarrow> update_count ctx (of_nat n) m x = m x"
proof -
  let ?s = "N mod 2 ^ 29" and ?lo = "of_nat ((N + n) mod 2 ^ 29) :: u32"
  have lo: "load32 m (ctx_lo ctx) = of_nat ?s" "load32 m (ctx_hi ctx) = of_nat (N div 2 ^ 29)"
    using assms(1) by (simp_all add: count_at_def)
  have small: "k mod 2 ^ 29 < 2 ^ 32" for k :: nat
    by (rule less_trans [OF mod_less_divisor]) simp_all
  have "(ucast (of_nat ?s :: u32) :: u64) = of_nat ?s"
    using small [of N] by (simp add: word_unat_eq_iff unat_ucast_up unat_of_nat)
  then have "(ucast (of_nat ?s :: u32) + of_nat n) AND 0x1fffffff = (of_nat ((?s + n) mod 2 ^ 29) :: u64)"
    using take_29 [of "?s + n"] by simp
  then have new: "ucast ((ucast (of_nat ?s :: u32) + of_nat n :: u64) AND 0x1fffffff) = ?lo"
    by (simp only: ucast_of_nat_down mod_add_left_eq)
  have carry: "?lo < of_nat ?s \<longleftrightarrow> (N + n) mod 2 ^ 29 < ?s"
    using small [of N] small [of "N + n"] by (simp add: word_less_nat_alt unat_of_nat del: of_nat_mod)
  have "drop_bit 29 (of_nat n :: u64) = of_nat (n div 2 ^ 29)"
    using assms(2) by (simp add: word_unat_eq_iff unat_div unat_of_nat drop_bit_eq_div)
  then have up: "ucast (ucast h + drop_bit 29 (of_nat n :: u64)) = h + (of_nat (n div 2 ^ 29) :: u32)" for h :: u32
    by (simp only: ucast_add_down ucast_of_nat_down) simp
  have apart: "span (ctx_lo ctx) 4 \<inter> span (ctx_hi ctx) 4 = {}"
    by (auto simp: ctx_fields in_field in_span [of _ ctx])
  let ?c = "if (N + n) mod 2 ^ 29 < ?s then 1 else 0 :: nat"
  define m1 where "m1 = store32 m (ctx_lo ctx) ?lo"
  define m2 where "m2 = (if (N + n) mod 2 ^ 29 < ?s then store32 m1 (ctx_hi ctx) (load32 m1 (ctx_hi ctx) + 1) else m1)"
  have m1: "load32 m1 (ctx_hi ctx) = of_nat (N div 2 ^ 29)"
    using lo(2) load32_store32_apart [OF apart] by (simp add: m1_def)
  have m2: "load32 m2 (ctx_hi ctx) = of_nat (N div 2 ^ 29 + ?c)" "load32 m2 (ctx_lo ctx) = ?lo"
    using m1 load32_store32_apart [of "ctx_hi ctx" "ctx_lo ctx"] apart
    by (simp_all add: m2_def load32_store32 m1_def Int_commute)
  have eq: "update_count ctx (of_nat n) m = store32 m2 (ctx_hi ctx) (of_nat ((N + n) div 2 ^ 29))"
    unfolding update_count_def Let_def lo(1) new carry m1_def [symmetric] m2_def [symmetric] up m2(1)
    by (simp only: count_carry [of N n] of_nat_add ac_simps)
  show "count_at (update_count ctx (of_nat n) m) ctx (N + n)"
    unfolding eq count_at_def using apart m2(2)
    by (simp add: load32_store32 load32_store32_apart Int_commute)
  show "x \<notin> span ctx 8 \<Longrightarrow> update_count ctx (of_nat n) m x = m x"
  proof -
    assume "x \<notin> span ctx 8"
    then have "x \<notin> span (ctx_lo ctx) 4" "x \<notin> span (ctx_hi ctx) 4"
      using field_sub [of 4 4 8 x ctx] span_mono [of 4 8 ctx] by (auto simp: ctx_fields)
    then show ?thesis unfolding eq by (simp add: store32_out m2_def m1_def)
  qed
qed

section \<open>Updating\<close>

text \<open>Data that the routines may read: it does not wrap around and is apart from the context.\<close>

definition data_ok :: "u64 \<Rightarrow> u64 \<Rightarrow> nat \<Rightarrow> bool" where
  "data_ok ctx data n \<longleftrightarrow> unat data + n < 2 ^ 64 \<and> span data n \<inter> span ctx 152 = {}"

lemma data_ok_sub:
  assumes "data_ok ctx data n" and "j + k \<le> n"
  shows "data_ok ctx (data + of_nat j) k" "unat (data + of_nat j) = unat data + j"
proof -
  have n: "unat data + n < 2 ^ 64" using assms(1) by (simp add: data_ok_def)
  then show u: "unat (data + of_nat j) = unat data + j" using assms(2) by (intro unat_add_of_nat) simp
  then have "span (data + of_nat j) k \<subseteq> span data n" using assms(2) n by (auto simp: span_iff)
  then show "data_ok ctx (data + of_nat j) k" using assms n u by (auto simp: data_ok_def)
qed

lemma data_ok_apart:
  assumes "data_ok ctx data n" and "unat ctx + 152 \<le> 2 ^ 64"
  shows "n = 0 \<or> unat data + n \<le> unat ctx \<or> unat ctx + 152 \<le> unat data"
proof (rule ccontr)
  assume not: "\<not> ?thesis"
  have wrap: "unat data + n < 2 ^ 64" using assms(1) by (simp add: data_ok_def)
  let ?x = "if unat data \<le> unat ctx then ctx else data"
  have "?x \<in> span data n \<inter> span ctx 152"
    using not assms(2) wrap by (cases "unat data \<le> unat ctx") (simp_all add: span_iff)
  then show False using assms(1) by (auto simp: data_ok_def)
qed

lemma copy_in:
  assumes ctx: "unat ctx + 160 < 2 ^ 64" and data: "data_ok ctx data n" and n: "used + n \<le> 64"
  shows "\<exists>m'. memcpy m (ctx_buffer ctx + of_nat used) data (of_nat n) = Some m' \<and>
    load_bytes m' (ctx_buffer ctx) (used + n) = load_bytes m (ctx_buffer ctx) used @ load_bytes m data n \<and>
    (\<forall>x. x \<notin> span (ctx + 24) 64 \<longrightarrow> m' x = m x)"
proof -
  let ?b = "ctx + 24" and ?d = "ctx + 24 + of_nat used"
  have u: "unat ?b = unat ctx + 24" using ctx unat_add_of_nat [of ctx 24] by simp
  then have ud: "unat ?d = unat ctx + 24 + used" using ctx n by (subst unat_add_of_nat) simp_all
  have nn: "unat (of_nat n :: u64) = n" using n by (simp add: unat_of_nat)
  have "copy_ok ?d data n"
    using data_ok_apart [OF data] ctx n data ud by (auto simp: copy_ok_def data_ok_def)
  then obtain m' where m': "memcpy m ?d data (of_nat n) = Some m'"
    "m' = (\<lambda>x. if x \<in> span ?d n then m (data + (x - ?d)) else m x)"
    using memcpy_copy [of ?d data "of_nat n" m] nn by auto
  have d: "x \<in> span ?d n \<longleftrightarrow> unat ctx + 24 + used \<le> unat x \<and> unat x < unat ctx + 24 + used + n" for x
    using span_iff [of ?d n x] ud ctx n by simp
  have "load_bytes m' ?b (used + n) = load_bytes m ?b used @ load_bytes m data n"
  proof (rule nth_equalityI)
    fix i
    assume "i < length (load_bytes m' ?b (used + n))"
    then have i: "i < used + n" by simp
    have ui: "unat (?b + of_nat i) = unat ctx + 24 + i" using u i n ctx by (subst unat_add_of_nat) simp_all
    have "?b + of_nat i - ?d = of_nat (i - used)" if "used \<le> i" using that by (simp add: of_nat_diff)
    then show "load_bytes m' ?b (used + n) ! i = (load_bytes m ?b used @ load_bytes m data n) ! i"
      using i ui by (auto simp: nth_append m'(2) d)
  qed simp
  moreover have "m' x = m x" if "x \<notin> span ?b 64" for x
  proof -
    have "x \<notin> span ?d n" using that d [of x] span_iff [of ?b 64 x] u n ctx by auto
    then show ?thesis by (simp add: m'(2))
  qed
  ultimately show ?thesis using m'(1) by (simp add: ctx_buffer_def)
qed

lemma masks_63:
  assumes "n < 2 ^ 64"
  shows "(of_nat n AND NOT 0x3f :: u64) = of_nat (64 * (n div 64))" "(of_nat n AND 0x3f :: u64) = of_nat (n mod 64)"
proof -
  have m: "(0x3f :: u64) = mask 6" by (simp add: mask_eq_exp_minus_1)
  show mod: "(of_nat n AND 0x3f :: u64) = of_nat (n mod 64)"
    using assms unfolding m take_bit_eq_mask [symmetric]
    by (simp add: word_unat_eq_iff unat_mod unat_of_nat take_bit_eq_mod del: of_nat_mod)
  have "(x AND NOT 0x3f) + (x AND 0x3f) = x" for x :: u64
  proof -
    have "(x AND NOT 0x3f) AND (x AND 0x3f) = 0" by (rule bit_word_eqI) (auto simp: bit_simps)
    then have "(x AND NOT 0x3f) + (x AND 0x3f) = (x AND NOT 0x3f) OR (x AND 0x3f)" by (rule disjunctive_add_eq_or)
    also have "\<dots> = x" by (rule bit_word_eqI) (auto simp: bit_simps)
    finally show ?thesis .
  qed
  then have "(of_nat n AND NOT 0x3f :: u64) = of_nat n - (of_nat n AND 0x3f)"
    by (simp only: eq_diff_eq)
  also have "\<dots> = of_nat (n - n mod 64)" unfolding mod by (simp add: of_nat_diff)
  finally show "(of_nat n AND NOT 0x3f :: u64) = of_nat (64 * (n div 64))"
    by (simp add: minus_mod_eq_mult_div)
qed

lemma update_blocks_run:
  assumes ctx: "unat ctx + 160 < 2 ^ 64" and data: "data_ok ctx data n"
  shows "\<exists>m'. update_blocks ctx data (of_nat n) m = Some m' \<and>
    registers_at m' ctx = absorb (registers_at m ctx) (load_bytes m data n) \<and>
    load_bytes m' (ctx_buffer ctx) (n mod 64) = rest (load_bytes m data n) \<and>
    (\<forall>x. x \<notin> span (ctx + 8) 80 \<longrightarrow> m' x = m x)"
proof -
  let ?k = "n div 64" and ?D = "load_bytes m data n" and ?r = "registers_at m ctx"
  have n: "n < 2 ^ 64" "64 * ?k + n mod 64 = n" using data by (auto simp: data_ok_def)
  then have k: "64 * ?k < 2 ^ 64" by linarith
  define m1 where "m1 = (if 64 \<le> n then set_registers ctx (absorb ?r (load_bytes m data (64 * ?k))) m else m)"
  note sub = data_ok_sub [OF data, of "64 * ?k" "n mod 64"]
  have D: "?D = load_bytes m data (64 * ?k) @ load_bytes m (data + of_nat (64 * ?k)) (n mod 64)"
    using load_bytes_append [of m data "64 * ?k" "n mod 64"] n(2) by simp
  have "rest (load_bytes m data (64 * ?k)) = []" by (simp add: rest_def)
  then have whole: "absorb ?r ?D = absorb ?r (load_bytes m data (64 * ?k))"
    using absorb_append [of ?r "load_bytes m data (64 * ?k)"] unfolding D by simp
  have step: "(if (64 :: u64) \<le> of_nat n
      then Option.bind (body ctx data (of_nat n AND NOT 0x3f) m) (\<lambda>(data, m). Some (data, of_nat n AND 0x3f, m))
      else Some (data, of_nat n :: u64, m)) = Some (data + of_nat (64 * ?k), of_nat (n mod 64), m1)"
  proof (cases "64 \<le> n")
    case True
    then have "(64 :: u64) \<le> of_nat n" using n(1) by (simp add: word_le_nat_alt unat_of_nat)
    moreover have "0 < ?k" using True by (simp add: div_greater_zero_iff)
    ultimately show ?thesis
      using True k body_run [of ?k ctx data m] by (simp only: masks_63 [OF n(1)]) (simp add: m1_def)
  next
    case False
    then have "\<not> (64 :: u64) \<le> of_nat n" using n(1) by (simp add: word_le_nat_alt unat_of_nat)
    then show ?thesis using False by (simp add: m1_def)
  qed
  have out: "m1 x = m x" if "x \<notin> span (ctx + 8) 16" for x
    using that by (simp add: m1_def set_registers_out)
  have r1: "registers_at m1 ctx = absorb ?r ?D"
    using whole by (simp add: m1_def)
  obtain m' where m': "memcpy m1 (ctx_buffer ctx) (data + of_nat (64 * ?k)) (of_nat (n mod 64)) = Some m'"
    "load_bytes m' (ctx_buffer ctx) (n mod 64) = load_bytes m1 (data + of_nat (64 * ?k)) (n mod 64)"
    "\<forall>x. x \<notin> span (ctx + 24) 64 \<longrightarrow> m' x = m1 x"
    using copy_in [OF ctx sub(1), of 0 m1] n(2) by (auto simp: load_bytes_def)
  have "registers_at m' ctx = registers_at m1 ctx"
    by (rule registers_at_cong) (use m'(3) in \<open>auto simp: in_field\<close>)
  moreover have "load_bytes m1 (data + of_nat (64 * ?k)) (n mod 64) = rest ?D"
  proof -
    have "m1 x = m x" if "x \<in> span (data + of_nat (64 * ?k)) (n mod 64)" for x
    proof -
      have "x \<notin> span ctx 152" using sub(1) n(2) that by (auto simp: data_ok_def)
      then have "x \<notin> span (ctx + 8) 16" using field_sub [of 8 16 152 x ctx] by auto
      then show ?thesis by (rule out)
    qed
    then have "load_bytes m1 (data + of_nat (64 * ?k)) (n mod 64) = load_bytes m (data + of_nat (64 * ?k)) (n mod 64)"
      by (intro load_bytes_cong) (auto intro: less_imp_le less_trans [of _ 64])
    moreover have "drop (64 * ?k) ?D = load_bytes m (data + of_nat (64 * ?k)) (n mod 64)"
      by (subst D) (simp del: of_nat_mult)
    ultimately show ?thesis by (simp add: rest_def)
  qed
  moreover have "m' x = m x" if "x \<notin> span (ctx + 8) 80" for x
  proof -
    have "x \<notin> span (ctx + 8) 16" "x \<notin> span (ctx + 24) 64" using that by (auto simp: in_field)
    then show ?thesis using m'(3) out by simp
  qed
  moreover have "update_blocks ctx data (of_nat n) m = Some m'"
    unfolding update_blocks_def step Option.bind.simps prod.case by (rule m'(1))
  ultimately show ?thesis using m'(2) r1 by auto
qed

text \<open>What the context stands for: the bytes absorbed so far.\<close>

definition fed :: "u64 \<Rightarrow> u8 list \<Rightarrow> mem \<Rightarrow> bool" where
  "fed ctx xs m \<longleftrightarrow> registers_at m ctx = absorb rfc_initial xs \<and>
     load_bytes m (ctx_buffer ctx) (length xs mod 64) = rest xs"

definition md5_state :: "u64 \<Rightarrow> u8 list \<Rightarrow> mem \<Rightarrow> bool" where
  "md5_state ctx xs m \<longleftrightarrow> count_at m ctx (length xs) \<and> fed ctx xs m"

text \<open>Steps that change the registers and the buffer only.\<close>

definition inner :: "u64 \<Rightarrow> mem \<Rightarrow> mem \<Rightarrow> bool" where
  "inner ctx m m' \<longleftrightarrow> (\<forall>x. x \<notin> span (ctx + 8) 80 \<longrightarrow> m' x = m x)"

lemma inner_trans: "inner ctx m m' \<Longrightarrow> inner ctx m' m'' \<Longrightarrow> inner ctx m m''"
  by (simp add: inner_def)

lemma inner_buffer: "\<forall>x. x \<notin> span (ctx + 24) 64 \<longrightarrow> m' x = m x \<Longrightarrow> inner ctx m m'"
  unfolding inner_def using in_field [of 24 64 _ ctx] in_field [of 8 80 _ ctx] by auto

lemma inner_registers: "inner ctx m (set_registers ctx r m)"
  unfolding inner_def using in_field [of 8 16 _ ctx] in_field [of 8 80 _ ctx] by (auto intro!: set_registers_out)

lemma inner_count: "inner ctx m m' \<Longrightarrow> count_at m' ctx n \<longleftrightarrow> count_at m ctx n"
  by (rule count_at_cong) (auto simp: inner_def in_field in_span [of _ ctx])

lemma inner_out: "inner ctx m m' \<Longrightarrow> x \<notin> span ctx 152 \<Longrightarrow> m' x = m x"
  using field_sub [of 8 80 152 x ctx] by (auto simp: inner_def)

lemma registers_buffer: "\<forall>x. x \<notin> span (ctx + 24) 64 \<longrightarrow> m' x = m x \<Longrightarrow> registers_at m' ctx = registers_at m ctx"
  by (rule registers_at_cong) (auto simp: in_field)

text \<open>Data in memory is not touched.\<close>

lemma data_kept:
  assumes "data_ok ctx data n" and "\<And>x. x \<notin> span ctx 152 \<Longrightarrow> m' x = m x"
  shows "load_bytes m' data n = load_bytes m data n"
  using assms by (intro load_bytes_cong) (auto simp: data_ok_def)

lemma fed_append_mod: "length xs mod 64 + k = 64 \<Longrightarrow> (length xs + k) mod 64 = 0"
  by (metis mod_add_left_eq mod_self)

text \<open>The data fits into the buffer, or fills it.\<close>

lemma fed_copy:
  assumes ctx: "unat ctx + 160 < 2 ^ 64" and xs: "fed ctx xs m" and data: "data_ok ctx data n"
    and n: "length xs mod 64 + n < 64"
  shows "\<exists>m'. memcpy m (ctx_buffer ctx + of_nat (length xs mod 64)) data (of_nat n) = Some m' \<and>
    fed ctx (xs @ load_bytes m data n) m' \<and> inner ctx m m'"
proof -
  let ?u = "length xs mod 64" and ?D = "load_bytes m data n"
  obtain m' where m': "memcpy m (ctx_buffer ctx + of_nat ?u) data (of_nat n) = Some m'"
    "load_bytes m' (ctx_buffer ctx) (?u + n) = load_bytes m (ctx_buffer ctx) ?u @ ?D"
    "\<forall>x. x \<notin> span (ctx + 24) 64 \<longrightarrow> m' x = m x"
    using copy_in [OF ctx data less_imp_le [OF n], of m] by blast
  have short: "length (rest xs @ ?D) < 64" using n by (simp add: length_rest)
  have "length (xs @ ?D) mod 64 = ?u + n" using n mod_add_left_eq [of "length xs" 64 n] by simp
  moreover have "registers_at m' ctx = absorb rfc_initial (xs @ ?D)"
    using registers_buffer [OF m'(3)] xs absorb_append [of rfc_initial xs ?D] absorb_less [OF short] by (simp add: fed_def)
  moreover have "rest (xs @ ?D) = rest xs @ ?D" using rest_append [of xs ?D] rest_less [OF short] by simp
  ultimately have "fed ctx (xs @ ?D) m'" using m'(2) xs by (simp add: fed_def)
  with m'(1) inner_buffer [OF m'(3)] show ?thesis by blast
qed

lemma fed_fill:
  assumes ctx: "unat ctx + 160 < 2 ^ 64" and xs: "fed ctx xs m" and data: "data_ok ctx data n"
    and n: "length xs mod 64 + n = 64"
  shows "\<exists>m1 m'. memcpy m (ctx_buffer ctx + of_nat (length xs mod 64)) data (of_nat n) = Some m1 \<and>
    body ctx (ctx_buffer ctx) 64 m1 = Some (ctx_buffer ctx + 64, m') \<and>
    fed ctx (xs @ load_bytes m data n) m' \<and> inner ctx m m'"
proof -
  let ?u = "length xs mod 64" and ?b = "rest xs @ load_bytes m data n"
  obtain m1 where m1: "memcpy m (ctx_buffer ctx + of_nat ?u) data (of_nat n) = Some m1"
    "load_bytes m1 (ctx_buffer ctx) 64 = ?b" "\<forall>x. x \<notin> span (ctx + 24) 64 \<longrightarrow> m1 x = m x"
    using copy_in [OF ctx data, of ?u m] n xs by (auto simp: fed_def)
  let ?m = "set_registers ctx (absorb (registers_at m1 ctx) ?b) m1"
  have "body ctx (ctx_buffer ctx) 64 m1 = Some (ctx_buffer ctx + 64, ?m)"
    using body_run [of 1 ctx "ctx_buffer ctx" m1] m1(2) by simp
  moreover have "registers_at ?m ctx = absorb rfc_initial (xs @ load_bytes m data n)"
    using registers_buffer [OF m1(3)] xs absorb_append [of rfc_initial xs "load_bytes m data n"] by (simp add: fed_def)
  moreover have "length ?b = 64" using n by (simp add: length_rest)
  then have "rest (xs @ load_bytes m data n) = []" unfolding rest_append [of xs] by (simp add: rest_def)
  ultimately show ?thesis
    using m1(1) inner_trans [OF inner_buffer [OF m1(3)] inner_registers] fed_append_mod [OF n]
    by (intro exI [of _ m1] exI [of _ ?m]) (simp add: fed_def load_bytes_def)
qed

lemma fed_blocks:
  assumes ctx: "unat ctx + 160 < 2 ^ 64" and xs: "fed ctx xs m" "length xs mod 64 = 0" and data: "data_ok ctx data n"
  shows "\<exists>m'. update_blocks ctx data (of_nat n) m = Some m' \<and> fed ctx (xs @ load_bytes m data n) m' \<and> inner ctx m m'"
proof -
  obtain m' where m': "update_blocks ctx data (of_nat n) m = Some m'"
    "registers_at m' ctx = absorb (registers_at m ctx) (load_bytes m data n)"
    "load_bytes m' (ctx_buffer ctx) (n mod 64) = rest (load_bytes m data n)" "inner ctx m m'"
    using update_blocks_run [OF ctx data, of m] unfolding inner_def by blast
  have "rest xs = []" using length_rest [of xs] xs(2) by simp
  then have "fed ctx (xs @ load_bytes m data n) m'"
    using m'(2,3) xs mod_add_left_eq [of "length xs" 64 n]
      absorb_append [of rfc_initial xs "load_bytes m data n"] rest_append [of xs "load_bytes m data n"]
    by (simp add: fed_def)
  with m'(1,4) show ?thesis by blast
qed

lemma used_63: "(ucast ((of_nat (N mod 2 ^ 29) :: u32) AND 0x3f) :: u64) = of_nat (N mod 64)"
proof -
  have m: "(0x3f :: u32) = mask 6" by (simp add: mask_eq_exp_minus_1)
  have "N mod 2 ^ 29 mod 64 = N mod 64" by (rule mod_mod_cancel) simp
  then have "(of_nat (N mod 2 ^ 29) AND 0x3f :: u32) = of_nat (N mod 64)"
    unfolding m take_bit_eq_mask [symmetric]
    by (simp add: word_unat_eq_iff unat_mod unat_of_nat take_bit_eq_mod del: of_nat_mod)
  then show ?thesis by (simp add: word_unat_eq_iff unat_ucast_up unat_of_nat del: of_nat_mod)
qed

text \<open>The branches of \<open>MD5_Update\<close>, with \<open>u\<close> bytes in the buffer.\<close>

lemma MD5_Update_branches:
  assumes used: "(ucast (load32 m (ctx_lo ctx) AND 0x3f) :: u64) = of_nat u" and u: "u < 64" and n: "n < 2 ^ 64"
  shows "MD5_Update ctx data (of_nat n) m = (let m = update_count ctx (of_nat n) m in
    if u = 0 then update_blocks ctx data (of_nat n) m
    else if n < 64 - u then memcpy m (ctx_buffer ctx + of_nat u) data (of_nat n)
    else do {
      m \<leftarrow> memcpy m (ctx_buffer ctx + of_nat u) data (of_nat (64 - u));
      (_, m) \<leftarrow> body ctx (ctx_buffer ctx) 64 m;
      update_blocks ctx (data + of_nat (64 - u)) (of_nat (n - (64 - u))) m })"
proof -
  have nz: "(of_nat u :: u64) \<noteq> 0 \<longleftrightarrow> u \<noteq> 0" using u by (simp add: word_unat_eq_iff unat_of_nat)
  have a: "64 - of_nat u = (of_nat (64 - u) :: u64)" using u by (simp add: of_nat_diff)
  have "unat (of_nat (64 - u) :: u64) = 64 - u" "unat (of_nat n :: u64) = n"
    using n by (simp_all only: unat_of_nat) simp_all
  then have less: "of_nat n < (of_nat (64 - u) :: u64) \<longleftrightarrow> n < 64 - u" by (simp only: word_less_nat_alt)
  have diff: "of_nat n - (of_nat (64 - u) :: u64) = of_nat (n - (64 - u))" if "\<not> n < 64 - u"
    using that by (simp add: of_nat_diff)
  show ?thesis
    unfolding MD5_Update_def Let_def used a nz less
    by (cases "u = 0"; cases "n < 64 - u") (simp_all only: diff if_True if_False not_False_eq_True simp_thms)
qed

text \<open>After the count is updated.\<close>

lemma counted:
  assumes st: "md5_state ctx xs m" and n: "n < 2 ^ 64"
  shows "count_at (update_count ctx (of_nat n) m) ctx (length xs + n)" "fed ctx xs (update_count ctx (of_nat n) m)"
    "x \<notin> span ctx 152 \<Longrightarrow> update_count ctx (of_nat n) m x = m x"
proof -
  let ?m = "update_count ctx (of_nat n) m"
  have count: "count_at m ctx (length xs)" using st by (simp add: md5_state_def)
  show "count_at ?m ctx (length xs + n)" by (rule update_count_run(1) [OF count n])
  note out = update_count_run(2) [OF count n]
  show "x \<notin> span ctx 152 \<Longrightarrow> ?m x = m x" using out span_mono [of 8 152 ctx] by auto
  have "registers_at ?m ctx = registers_at m ctx"
    by (rule registers_at_cong) (use out in \<open>auto simp: in_field in_span [of _ ctx]\<close>)
  moreover have "load_bytes ?m (ctx_buffer ctx) (length xs mod 64) = load_bytes m (ctx_buffer ctx) (length xs mod 64)"
    by (rule load_bytes_cong)
      (use out in \<open>auto simp: ctx_buffer_def in_field in_span [of _ ctx] intro: less_imp_le less_trans [of _ 64]\<close>)
  ultimately show "fed ctx xs ?m" using st by (simp add: md5_state_def fed_def)
qed

lemma MD5_Update_run:
  assumes ctx: "unat ctx + 160 < 2 ^ 64" and st: "md5_state ctx xs m" and data: "data_ok ctx data n"
  shows "\<exists>m'. MD5_Update ctx data (of_nat n) m = Some m' \<and> md5_state ctx (xs @ load_bytes m data n) m' \<and>
    (\<forall>x. x \<notin> span ctx 152 \<longrightarrow> m' x = m x)"
proof -
  let ?u = "length xs mod 64" and ?D = "load_bytes m data n"
  define m1 where "m1 = update_count ctx (of_nat n) m"
  have n: "n < 2 ^ 64" using data by (simp add: data_ok_def)
  note m1 = counted [OF st n, folded m1_def]
  have D: "load_bytes m1 data n = ?D" by (rule data_kept [OF data m1(3)])
  have "(ucast (load32 m (ctx_lo ctx) AND 0x3f) :: u64) = of_nat ?u"
    using st used_63 by (simp add: md5_state_def count_at_def)
  note run = MD5_Update_branches [OF this mod_less_divisor [OF zero_less_numeral] n, of data, folded m1_def, unfolded Let_def m1_def [symmetric]]
  have "\<exists>m'. MD5_Update ctx data (of_nat n) m = Some m' \<and> fed ctx (xs @ ?D) m' \<and> inner ctx m1 m'"
  proof -
    consider "?u = 0" | "?u \<noteq> 0" "n < 64 - ?u" | "?u \<noteq> 0" "\<not> n < 64 - ?u" by blast
    then show ?thesis
    proof cases
      case 1
      then show ?thesis using fed_blocks [OF ctx m1(2) 1 data] run unfolding D by simp
    next
      case 2
      then show ?thesis using fed_copy [OF ctx m1(2) data] run unfolding D by simp
    next
      case 3
      let ?a = "64 - ?u"
      have a: "?u + ?a = 64" "0 + ?a \<le> n" "?a + (n - ?a) \<le> n" using 3 by simp_all
      note sub = data_ok_sub(1) [OF data a(2)] data_ok_sub(1) [OF data a(3)]
      have fit: "data_ok ctx data ?a" using sub(1) by simp
      obtain m2 m3 where m3: "memcpy m1 (ctx_buffer ctx + of_nat ?u) data (of_nat ?a) = Some m2"
        "body ctx (ctx_buffer ctx) 64 m2 = Some (ctx_buffer ctx + 64, m3)"
        "fed ctx (xs @ load_bytes m1 data ?a) m3" "inner ctx m1 m3"
        using fed_fill [OF ctx m1(2) fit a(1)] by blast
      obtain m' where m': "update_blocks ctx (data + of_nat ?a) (of_nat (n - ?a)) m3 = Some m'"
        "fed ctx ((xs @ load_bytes m1 data ?a) @ load_bytes m3 (data + of_nat ?a) (n - ?a)) m'" "inner ctx m3 m'"
        using fed_blocks [OF ctx m3(3) _ sub(2)] fed_append_mod [OF a(1)] by auto
      have "load_bytes m3 (data + of_nat ?a) (n - ?a) = load_bytes m1 (data + of_nat ?a) (n - ?a)"
        by (rule data_kept [OF sub(2) inner_out [OF m3(4)]])
      then have "load_bytes m1 data ?a @ load_bytes m3 (data + of_nat ?a) (n - ?a) = ?D"
        using load_bytes_append [of m1 data ?a "n - ?a"] a(2) unfolding D [symmetric] by simp
      then have "fed ctx (xs @ ?D) m'" using m'(2) by simp
      moreover have "MD5_Update ctx data (of_nat n) m = Some m'"
        unfolding run using 3 by (simp only: m3(1,2) m'(1) if_False Option.bind.simps prod.case)
      ultimately show ?thesis using inner_trans [OF m3(4) m'(3)] by blast
    qed
  qed
  then obtain m' where m': "MD5_Update ctx data (of_nat n) m = Some m'" "fed ctx (xs @ ?D) m'" "inner ctx m1 m'" by blast
  then have "md5_state ctx (xs @ ?D) m'" using m1(1) inner_count by (simp add: md5_state_def)
  moreover have "m' x = m x" if "x \<notin> span ctx 152" for x using inner_out [OF m'(3) that] m1(3) [OF that] by simp
  ultimately show ?thesis using m'(1) by blast
qed

section \<open>Initialising\<close>

lemma MD5_Init_run:
  "md5_state ctx [] (MD5_Init ctx m)" "x \<notin> span ctx 24 \<Longrightarrow> MD5_Init ctx m x = m x"
proof -
  let ?m = "set_registers ctx rfc_initial m"
  have eq: "MD5_Init ctx m = store32 (store32 ?m (ctx_lo ctx) 0) (ctx_hi ctx) 0"
    by (simp add: MD5_Init_def set_registers_def rfc_initial_def)
  have out: "MD5_Init ctx m x = ?m x" if "x \<notin> span ctx 8" for x
  proof -
    have "x \<notin> span (ctx_lo ctx) 4" "x \<notin> span (ctx_hi ctx) 4"
      using that field_sub [of 4 4 8 x ctx] span_mono [of 4 8 ctx] by (auto simp: ctx_fields)
    then show ?thesis unfolding eq by (simp add: store32_out)
  qed
  have "registers_at (MD5_Init ctx m) ctx = registers_at ?m ctx"
    by (rule registers_at_cong) (use out in \<open>auto simp: in_field in_span [of _ ctx]\<close>)
  moreover have "span (ctx_lo ctx) 4 \<inter> span (ctx_hi ctx) 4 = {}"
    by (auto simp: ctx_fields in_field in_span [of _ ctx])
  then have "count_at (MD5_Init ctx m) ctx 0"
    unfolding eq count_at_def by (simp add: load32_store32 load32_store32_apart Int_commute)
  ultimately show "md5_state ctx [] (MD5_Init ctx m)"
    by (simp add: md5_state_def fed_def load_bytes_def)
  show "x \<notin> span ctx 24 \<Longrightarrow> MD5_Init ctx m x = m x"
  proof -
    assume x: "x \<notin> span ctx 24"
    then have "x \<notin> span (ctx + 8) 16" "x \<notin> span ctx 8"
      using field_sub [of 8 16 24 x ctx] span_mono [of 8 24 ctx] by auto
    then show ?thesis using out set_registers_out by simp
  qed
qed

section \<open>Finishing\<close>

lemma OUT_store32: "OUT m dst src = store32 m dst src"
  by (simp add: OUT_def store32_def bytes_of_def upt_rec add.assoc)

lemma clear_in:
  assumes ctx: "unat ctx + 160 < 2 ^ 64" and n: "used + n \<le> 64"
  shows "\<exists>m'. memset m (ctx_buffer ctx + of_nat used) 0 (of_nat n) = Some m' \<and>
    load_bytes m' (ctx_buffer ctx) (used + n) = load_bytes m (ctx_buffer ctx) used @ replicate n 0 \<and>
    (\<forall>x. x \<notin> span (ctx + 24) 64 \<longrightarrow> m' x = m x)"
proof -
  let ?b = "ctx + 24" and ?d = "ctx + 24 + of_nat used"
  have u: "unat ?b = unat ctx + 24" using ctx unat_add_of_nat [of ctx 24] by simp
  then have ud: "unat ?d = unat ctx + 24 + used" using ctx n by (subst unat_add_of_nat) simp_all
  have nn: "unat (of_nat n :: u64) = n" using n by (simp add: unat_of_nat)
  have "unat ?d + unat (of_nat n :: u64) + 8 < 2 ^ 64" using ud nn n ctx by simp
  then obtain m' where m': "memset m ?d 0 (of_nat n) = Some m'" "m' = (\<lambda>x. if x \<in> span ?d n then 0 else m x)"
    using memset_clear [of ?d "of_nat n" m] nn by auto
  have d: "x \<in> span ?d n \<longleftrightarrow> unat ctx + 24 + used \<le> unat x \<and> unat x < unat ctx + 24 + used + n" for x
    using span_iff [of ?d n x] ud ctx n by simp
  have "load_bytes m' ?b (used + n) = load_bytes m ?b used @ replicate n 0"
  proof (rule nth_equalityI)
    fix i
    assume "i < length (load_bytes m' ?b (used + n))"
    then have i: "i < used + n" by simp
    have ui: "unat (?b + of_nat i) = unat ctx + 24 + i" using u i n ctx by (subst unat_add_of_nat) simp_all
    then show "load_bytes m' ?b (used + n) ! i = (load_bytes m ?b used @ replicate n 0) ! i"
      using i by (auto simp: nth_append m'(2) d)
  qed simp
  moreover have "m' x = m x" if "x \<notin> span ?b 64" for x
  proof -
    have "x \<notin> span ?d n" using that d [of x] span_iff [of ?b 64 x] u n ctx by auto
    then show ?thesis by (simp add: m'(2))
  qed
  ultimately show ?thesis using m'(1) by (simp add: ctx_buffer_def)
qed

lemma bytes_of_split: "bytes_of 8 (w :: u64) = bytes_of 4 (ucast w :: u32) @ bytes_of 4 (ucast (drop_bit 32 w) :: u32)"
proof (rule nth_equalityI)
  fix i
  assume "i < length (bytes_of 8 w)"
  then have i: "i < 8" by simp
  show "bytes_of 8 w ! i = (bytes_of 4 (ucast w :: u32) @ bytes_of 4 (ucast (drop_bit 32 w) :: u32)) ! i"
  proof (cases "i < 4")
    case True
    then show ?thesis by (auto simp: nth_append intro!: bit_word_eqI simp: bit_simps)
  next
    case False
    then obtain j where "i = j + 4" by (metis add.commute le_Suc_ex linorder_not_less)
    then show ?thesis using i by (auto simp: nth_append ac_simps intro!: bit_word_eqI simp: bit_simps)
  qed
qed simp

lemma length_bytes_split:
  "bytes_of 8 (of_nat (8 * N) :: u64)
     = bytes_of 4 (push_bit 3 (of_nat (N mod 2 ^ 29)) :: u32) @ bytes_of 4 (of_nat (N div 2 ^ 29) :: u32)"
proof -
  have "8 * (N mod 2 ^ 29) = (8 * N) mod 2 ^ 32" using mult_mod_right [of 8 N "2 ^ 29"] by simp
  moreover have "(of_nat (k mod 2 ^ 32) :: u32) = of_nat k" for k
    by (simp add: word_unat_eq_iff unsigned_of_nat take_bit_eq_mod del: of_nat_mod)
  moreover have "push_bit 3 (of_nat k) = (of_nat (8 * k) :: u32)" for k
    by (simp add: push_bit_eq_mult)
  ultimately have lo: "push_bit 3 (of_nat (N mod 2 ^ 29)) = (of_nat (8 * N) :: u32)" by metis
  have "8 * N = push_bit 3 N" "N div 2 ^ 29 = drop_bit 29 N"
    by (simp_all add: push_bit_eq_mult drop_bit_eq_div)
  then have "(ucast (drop_bit 32 (of_nat (8 * N) :: u64)) :: u32) = of_nat (N div 2 ^ 29)"
    by (intro bit_word_eqI) (simp add: bit_simps del: of_nat_push_bit of_nat_mult)
  then show ?thesis using bytes_of_split [of "of_nat (8 * N)"] lo by (simp only: ucast_of_nat_down)
qed

lemma load_store32: "load_bytes (store32 m a v) a 4 = bytes_of 4 v"
  using load_store_bytes [of "bytes_of 4 v" m a] by (simp add: store32_def)

lemma load_store32_apart: "span a 4 \<inter> span b n = {} \<Longrightarrow> n \<le> 2 ^ 64 \<Longrightarrow> load_bytes (store32 m a v) b n = load_bytes m b n"
  by (rule load_bytes_cong) (auto intro: store32_out)

lemma digest_written:
  "load_bytes (store32 (store32 (store32 (store32 m p a) (p + 4) b) (p + 8) c) (p + 12) d) p 16 = digest (a, b, c, d)"
proof -
  have split: "load_bytes m p 16 = load_bytes m p 4 @ load_bytes m (p + 4) 4 @ load_bytes m (p + 8) 4 @ load_bytes m (p + 12) 4" for m
    using load_bytes_append [of m p 4 12] load_bytes_append [of m "p + 4" 4 8] load_bytes_append [of m "p + 8" 4 4]
    by (simp add: add.assoc)
  have "span (p + 4) 4 \<inter> span p 4 = {}" "span (p + 8) 4 \<inter> span p 4 = {}" "span (p + 12) 4 \<inter> span p 4 = {}"
    "span (p + 8) 4 \<inter> span (p + 4) 4 = {}" "span (p + 12) 4 \<inter> span (p + 4) 4 = {}" "span (p + 12) 4 \<inter> span (p + 8) 4 = {}"
    by (auto simp: in_field in_span [of _ p])
  then show ?thesis unfolding split by (simp add: load_store32 load_store32_apart digest_def)
qed

lemma length_written:
  "load_bytes (store32 (store32 m (ctx + 80) v) (ctx + 84) w) (ctx + 24) 64
     = load_bytes m (ctx + 24) 56 @ bytes_of 4 v @ bytes_of 4 w"
proof -
  have split: "load_bytes m (ctx + 24) 64 = load_bytes m (ctx + 24) 56 @ load_bytes m (ctx + 80) 4 @ load_bytes m (ctx + 84) 4" for m
    using load_bytes_append [of m "ctx + 24" 56 8] load_bytes_append [of m "ctx + 80" 4 4] by (simp add: add.assoc)
  have "span (ctx + 80) 4 \<inter> span (ctx + 24) 56 = {}" "span (ctx + 84) 4 \<inter> span (ctx + 24) 56 = {}"
    "span (ctx + 84) 4 \<inter> span (ctx + 80) 4 = {}"
    by (auto simp: in_field)
  then show ?thesis unfolding split by (simp add: load_store32 load_store32_apart)
qed

text \<open>The first part of \<open>MD5_Final\<close>: the byte 0x80, and a block of its own when the length does not fit.\<close>

definition padded :: "u64 \<Rightarrow> u64 \<Rightarrow> mem \<Rightarrow> (u64 \<times> u64 \<times> mem) option" where
  "padded ctx used m = (if 64 - used < 8
     then do {
       m \<leftarrow> memset m (ctx_buffer ctx + used) 0 (64 - used);
       (_, m) \<leftarrow> body ctx (ctx_buffer ctx) 64 m;
       Some (0, 64, m) }
     else Some (used, 64 - used, m))"

lemma padded_run:
  assumes ctx: "unat ctx + 160 < 2 ^ 64" and used: "used \<le> 64" "0 < used"
  shows "\<exists>k m'. padded ctx (of_nat used) m = Some (of_nat k, of_nat (64 - k), m') \<and> k \<le> 56 \<and>
    (\<forall>x. x \<notin> span (ctx + 8) 80 \<longrightarrow> m' x = m x) \<and>
    (\<forall>L. length L = 8 \<longrightarrow>
      absorb (registers_at m ctx) (load_bytes m (ctx_buffer ctx) used @ replicate ((120 - used) mod 64) 0 @ L)
        = absorb (registers_at m' ctx) (load_bytes m' (ctx_buffer ctx) k @ replicate (56 - k) 0 @ L))"
proof -
  have a: "64 - of_nat used = (of_nat (64 - used) :: u64)" using used by (simp add: of_nat_diff)
  have less: "(of_nat (64 - used) :: u64) < 8 \<longleftrightarrow> 56 < used"
  proof -
    have "unat (of_nat (64 - used) :: u64) = 64 - used" by (simp only: unat_of_nat) simp
    then have "(of_nat (64 - used) :: u64) < 8 \<longleftrightarrow> 64 - used < 8" by (simp only: word_less_nat_alt) simp
    then show ?thesis using used by auto
  qed
  show ?thesis
  proof (cases "56 < used")
    case False
    then have "padded ctx (of_nat used) m = Some (of_nat used, of_nat (64 - used), m)"
      by (simp only: padded_def a less if_False)
    moreover have "(120 - used) mod 64 = 56 - used" using False used by (simp add: le_mod_geq)
    ultimately show ?thesis using False by (intro exI [of _ used] exI [of _ m]) simp
  next
    case True
    let ?B = "load_bytes m (ctx_buffer ctx) used @ replicate (64 - used) 0"
    obtain m1 where m1: "memset m (ctx_buffer ctx + of_nat used) 0 (of_nat (64 - used)) = Some m1"
      "load_bytes m1 (ctx_buffer ctx) 64 = ?B" "\<forall>x. x \<notin> span (ctx + 24) 64 \<longrightarrow> m1 x = m x"
      using clear_in [OF ctx, of used "64 - used" m] used by auto
    define m' where "m' = set_registers ctx (absorb (registers_at m1 ctx) ?B) m1"
    have "body ctx (ctx_buffer ctx) 64 m1 = Some (ctx_buffer ctx + 64, m')"
      using body_run [of 1 ctx "ctx_buffer ctx" m1] m1(2) by (simp add: m'_def)
    then have run: "padded ctx (of_nat used) m = Some (0, 64, m')"
      using m1(1) True by (simp only: padded_def a less if_True) simp
    have "registers_at m1 ctx = registers_at m ctx"
      by (rule registers_at_cong) (use m1(3) in \<open>auto simp: in_field\<close>)
    then have r: "registers_at m' ctx = absorb (registers_at m ctx) ?B" by (simp add: m'_def)
    have "(120 - used) mod 64 = (64 - used) + 56" using True used by simp
    then have "load_bytes m (ctx_buffer ctx) used @ replicate ((120 - used) mod 64) 0 @ L = ?B @ replicate 56 0 @ L" for L
      by (simp only: replicate_add append_assoc)
    moreover have "rest ?B = []" using used by (simp add: rest_def)
    ultimately have "absorb (registers_at m ctx) (load_bytes m (ctx_buffer ctx) used @ replicate ((120 - used) mod 64) 0 @ L)
        = absorb (registers_at m' ctx) (replicate 56 0 @ L)" for L
      using absorb_append [of "registers_at m ctx" ?B "replicate 56 0 @ L"] r by simp
    moreover have "m' x = m x" if "x \<notin> span (ctx + 8) 80" for x
    proof -
      have "x \<notin> span (ctx + 8) 16" "x \<notin> span (ctx + 24) 64" using that by (auto simp: in_field)
      then show ?thesis using m1(3) by (simp add: m'_def set_registers_out)
    qed
    ultimately show ?thesis
      using run by (intro exI [of _ 0] exI [of _ m']) (simp add: load_bytes_def)
  qed
qed

text \<open>The byte 0x80 is put behind the data in the buffer.\<close>

lemma marked_run:
  fixes ctx xs m
  defines "m1 \<equiv> m((ctx_buffer ctx + of_nat (length xs mod 64)) := 0x80)"
  assumes xs: "fed ctx xs m"
  shows "load_bytes m1 (ctx_buffer ctx) (Suc (length xs mod 64)) = rest xs @ [0x80]"
    "registers_at m1 ctx = absorb rfc_initial xs" "inner ctx m m1"
proof -
  let ?u = "length xs mod 64"
  have u: "Suc ?u \<le> 64" using mod_less_divisor [of 64 "length xs"] by linarith
  have out: "\<forall>x. x \<notin> span (ctx + 24) 64 \<longrightarrow> m1 x = m x"
    using u span_add [of ?u 64 "ctx + 24"] by (auto simp: m1_def ctx_buffer_def)
  have "ctx_buffer ctx + of_nat ?u \<notin> span (ctx_buffer ctx) ?u"
    by (simp add: in_span unat_of_nat del: of_nat_mod)
  then have "load_bytes m1 (ctx_buffer ctx) ?u = load_bytes m (ctx_buffer ctx) ?u"
    using u by (intro load_bytes_cong) (auto simp: m1_def)
  moreover have "load_bytes m1 (ctx_buffer ctx) (Suc ?u) = load_bytes m1 (ctx_buffer ctx) ?u @ [0x80]"
    by (simp add: load_bytes_def at_def m1_def)
  ultimately show "load_bytes m1 (ctx_buffer ctx) (Suc ?u) = rest xs @ [0x80]" using xs by (simp add: fed_def)
  show "registers_at m1 ctx = absorb rfc_initial xs" using registers_buffer [OF out] xs by (simp add: fed_def)
  show "inner ctx m m1" by (rule inner_buffer [OF out])
qed

text \<open>The block is filled with zeros up to its last 8 bytes.\<close>

lemma zeroed_run:
  fixes ctx xs m
  defines "m1 \<equiv> m((ctx_buffer ctx + of_nat (length xs mod 64)) := 0x80)"
  assumes ctx: "unat ctx + 160 < 2 ^ 64" and xs: "fed ctx xs m"
  shows "\<exists>k m2 m3. padded ctx (of_nat (Suc (length xs mod 64))) m1 = Some (of_nat k, of_nat (64 - k), m2) \<and> k \<le> 56 \<and>
    memset m2 (ctx_buffer ctx + of_nat k) 0 (of_nat (56 - k)) = Some m3 \<and> inner ctx m m3 \<and>
    (\<forall>L. length L = 8 \<longrightarrow> absorb (registers_at m3 ctx) (load_bytes m3 (ctx_buffer ctx) 56 @ L)
      = absorb rfc_initial (xs @ 0x80 # replicate ((119 - length xs mod 64) mod 64) 0 @ L))"
proof -
  let ?u = "length xs mod 64"
  have u: "Suc ?u \<le> 64" using mod_less_divisor [of 64 "length xs"] by linarith
  note m1 = marked_run [OF xs, folded m1_def]
  obtain k m2 where m2: "padded ctx (of_nat (Suc ?u)) m1 = Some (of_nat k, of_nat (64 - k), m2)" "k \<le> 56"
    "inner ctx m1 m2"
    "\<forall>L. length L = 8 \<longrightarrow>
      absorb (registers_at m1 ctx) (load_bytes m1 (ctx_buffer ctx) (Suc ?u) @ replicate ((120 - Suc ?u) mod 64) 0 @ L)
        = absorb (registers_at m2 ctx) (load_bytes m2 (ctx_buffer ctx) k @ replicate (56 - k) 0 @ L)"
    using padded_run [OF ctx u zero_less_Suc, of m1] unfolding inner_def by (elim exE conjE)
  obtain m3 where m3: "memset m2 (ctx_buffer ctx + of_nat k) 0 (of_nat (56 - k)) = Some m3"
    "load_bytes m3 (ctx_buffer ctx) 56 = load_bytes m2 (ctx_buffer ctx) k @ replicate (56 - k) 0"
    "\<forall>x. x \<notin> span (ctx + 24) 64 \<longrightarrow> m3 x = m2 x"
    using clear_in [OF ctx, of k "56 - k" m2] m2(2) by auto
  have "absorb (registers_at m3 ctx) (load_bytes m3 (ctx_buffer ctx) 56 @ L)
      = absorb rfc_initial (xs @ 0x80 # replicate ((119 - ?u) mod 64) 0 @ L)" if "length L = 8" for L
    using m2(4) that m1(1,2) m3(2) registers_buffer [OF m3(3)]
      absorb_append [of rfc_initial xs "0x80 # replicate ((119 - ?u) mod 64) 0 @ L"] by simp
  then show ?thesis using m2(1,2) m3(1) inner_trans [OF m1(3) inner_trans [OF m2(3) inner_buffer [OF m3(3)]]] by blast
qed

text \<open>The length in bits goes into the last 8 bytes, and the last block is absorbed.\<close>

lemma length_run:
  fixes ctx xs m
  defines "lo \<equiv> push_bit 3 (load32 m (ctx_lo ctx))"
  defines "m1 \<equiv> store32 m (ctx_lo ctx) lo"
  defines "m2 \<equiv> store32 (store32 m1 (ctx + 80) lo) (ctx + 84) (load32 m (ctx_hi ctx))"
  assumes count: "count_at m ctx (length xs)"
    and zeroed: "\<forall>L. length L = 8 \<longrightarrow> absorb (registers_at m ctx) (load_bytes m (ctx_buffer ctx) 56 @ L)
      = absorb rfc_initial (xs @ 0x80 # replicate ((119 - length xs mod 64) mod 64) 0 @ L)"
  shows "load32 m1 (ctx_lo ctx) = lo" "load32 (store32 m1 (ctx + 80) lo) (ctx_hi ctx) = load32 m (ctx_hi ctx)"
    "\<exists>m'. body ctx (ctx_buffer ctx) 64 m2 = Some (ctx_buffer ctx + 64, m') \<and>
      registers_at m' ctx = absorb rfc_initial (xs @ padding xs) \<and> (\<forall>x. x \<notin> span ctx 152 \<longrightarrow> m' x = m x)"
proof -
  have "span (ctx_lo ctx) 4 \<inter> span (ctx_hi ctx) 4 = {}" "span (ctx + 80) 4 \<inter> span (ctx_hi ctx) 4 = {}"
    by (auto simp: ctx_lo_def ctx_hi_def in_field in_span [of _ ctx])
  then show "load32 m1 (ctx_lo ctx) = lo" "load32 (store32 m1 (ctx + 80) lo) (ctx_hi ctx) = load32 m (ctx_hi ctx)"
    by (simp_all add: m1_def load32_store32 load32_store32_apart)
  let ?m = "set_registers ctx (absorb (registers_at m2 ctx) (load_bytes m2 (ctx_buffer ctx) 64)) m2"
  have body: "body ctx (ctx_buffer ctx) 64 m2 = Some (ctx_buffer ctx + 64, ?m)"
    using body_run [of 1 ctx "ctx_buffer ctx" m2] by simp
  have r: "registers_at m2 ctx = registers_at m ctx"
  proof (rule registers_at_cong)
    fix x
    assume "x \<in> span (ctx + 8) 16"
    then have "x \<notin> span (ctx + 80) 4" "x \<notin> span (ctx + 84) 4" "x \<notin> span (ctx_lo ctx) 4"
      by (auto simp: ctx_lo_def in_field in_span [of _ ctx])
    then show "m2 x = m x" by (simp add: m2_def m1_def store32_out)
  qed
  have "span (ctx_lo ctx) 4 \<inter> span (ctx + 24) 56 = {}" by (auto simp: ctx_lo_def in_field in_span [of _ ctx])
  then have "load_bytes m1 (ctx + 24) 56 = load_bytes m (ctx + 24) 56"
    unfolding m1_def by (rule load_store32_apart) simp
  moreover have "bytes_of 8 (of_nat (8 * length xs) :: u64) = bytes_of 4 lo @ bytes_of 4 (load32 m (ctx_hi ctx))"
    using count unfolding count_at_def lo_def length_bytes_split by simp
  ultimately have "load_bytes m2 (ctx_buffer ctx) 64
      = load_bytes m (ctx_buffer ctx) 56 @ bytes_of 8 (of_nat (8 * length xs) :: u64)"
    unfolding m2_def ctx_buffer_def length_written by simp
  then have "registers_at ?m ctx = absorb rfc_initial (xs @ padding xs)" using r zeroed by (simp add: padding_def)
  moreover have "?m x = m x" if "x \<notin> span ctx 152" for x
  proof -
    have "x \<notin> span (ctx + 8) 16" "x \<notin> span (ctx + 80) 4" "x \<notin> span (ctx + 84) 4" "x \<notin> span (ctx_lo ctx) 4"
      using that field_sub [of 8 16 152 x ctx] field_sub [of 80 4 152 x ctx] field_sub [of 84 4 152 x ctx]
        span_mono [of 4 152 ctx]
      by (auto simp: ctx_lo_def)
    then show ?thesis by (simp add: m2_def m1_def store32_out set_registers_out)
  qed
  ultimately show "\<exists>m'. body ctx (ctx_buffer ctx) 64 m2 = Some (ctx_buffer ctx + 64, m') \<and>
      registers_at m' ctx = absorb rfc_initial (xs @ padding xs) \<and> (\<forall>x. x \<notin> span ctx 152 \<longrightarrow> m' x = m x)"
    using body by blast
qed

text \<open>The registers are written to the result one by one.\<close>

definition written :: "u64 \<Rightarrow> registers \<Rightarrow> mem \<Rightarrow> mem" where
  "written result = (\<lambda>(a, b, c, d) m.
     store32 (store32 (store32 (store32 m result a) (result + 4) b) (result + 8) c) (result + 12) d)"

lemma written_run:
  assumes r: "registers_at m ctx = (a, b, c, d)" and result: "span result 16 \<inter> span ctx 152 = {}"
  shows "load32 m (ctx_a ctx) = a" "load32 (store32 m result a) (ctx_b ctx) = b"
    "load32 (store32 (store32 m result a) (result + 4) b) (ctx_c ctx) = c"
    "load32 (store32 (store32 (store32 m result a) (result + 4) b) (result + 8) c) (ctx_d ctx) = d"
    "load_bytes (written result (a, b, c, d) m) result 16 = digest (a, b, c, d)"
    "x \<notin> span result 16 \<Longrightarrow> written result (a, b, c, d) m x = m x"
proof -
  have abcd: "load32 m (ctx_a ctx) = a" "load32 m (ctx_b ctx) = b" "load32 m (ctx_c ctx) = c" "load32 m (ctx_d ctx) = d"
    using r by (simp_all add: registers_at_def)
  have res: "span (result + i) 4 \<inter> span (ctx + j) 4 = {}" if "unat i + 4 \<le> 16" "unat j + 4 \<le> 152" for i j
    using result field_sub [of i 4 16 _ result] field_sub [of j 4 152 _ ctx] that by auto
  show "load32 m (ctx_a ctx) = a" "load32 (store32 m result a) (ctx_b ctx) = b"
    "load32 (store32 (store32 m result a) (result + 4) b) (ctx_c ctx) = c"
    "load32 (store32 (store32 (store32 m result a) (result + 4) b) (result + 8) c) (ctx_d ctx) = d"
    using abcd res [of 0 12] res [of 0 16] res [of 4 16] res [of 0 20] res [of 4 20] res [of 8 20]
    by (simp_all add: ctx_fields load32_store32_apart)
  show "load_bytes (written result (a, b, c, d) m) result 16 = digest (a, b, c, d)"
    by (simp only: written_def prod.case digest_written)
  assume "x \<notin> span result 16"
  then have "x \<notin> span (result + 4) 4" "x \<notin> span (result + 8) 4" "x \<notin> span (result + 12) 4" "x \<notin> span result 4"
    using field_sub [of 4 4 16 x result] field_sub [of 8 4 16 x result] field_sub [of 12 4 16 x result]
      span_mono [of 4 16 result] by auto
  then show "written result (a, b, c, d) m x = m x" by (simp add: written_def store32_out)
qed

lemma MD5_Final_run:
  assumes ctx: "unat ctx + 160 < 2 ^ 64" and st: "md5_state ctx xs m"
    and result: "span result 16 \<inter> span ctx 152 = {}"
  shows "\<exists>m'. MD5_Final result ctx m = Some m' \<and> load_bytes m' result 16 = rfc_md5 xs \<and>
    (\<forall>x \<in> span ctx 152. m' x = 0) \<and> (\<forall>x. x \<notin> span ctx 152 \<union> span result 16 \<longrightarrow> m' x = m x)"
proof -
  let ?u = "length xs mod 64"
  have xs: "fed ctx xs m" "count_at m ctx (length xs)" using st by (simp_all add: md5_state_def)
  have used: "(ucast (load32 m (ctx_lo ctx) AND 0x3f) :: u64) = of_nat ?u"
    using xs(2) used_63 by (simp add: count_at_def)
  have next_used: "of_nat ?u + 1 = (of_nat (Suc ?u) :: u64)" by simp
  obtain k m2 m3 where m3: "padded ctx (of_nat (Suc ?u)) (m((ctx_buffer ctx + of_nat ?u) := 0x80)) = Some (of_nat k, of_nat (64 - k), m2)"
    "k \<le> 56" "memset m2 (ctx_buffer ctx + of_nat k) 0 (of_nat (56 - k)) = Some m3" "inner ctx m m3"
    "\<forall>L. length L = 8 \<longrightarrow> absorb (registers_at m3 ctx) (load_bytes m3 (ctx_buffer ctx) 56 @ L)
      = absorb rfc_initial (xs @ 0x80 # replicate ((119 - ?u) mod 64) 0 @ L)"
    using zeroed_run [OF ctx xs(1)] by (elim exE conjE)
  have k8: "of_nat (64 - k) - 8 = (of_nat (56 - k) :: u64)" using m3(2) by (simp add: of_nat_diff)
  have "count_at m3 ctx (length xs)" using xs(2) inner_count [OF m3(4)] by simp
  note len = length_run [OF this m3(5)]
  obtain m6 where m6: "body ctx (ctx_buffer ctx) 64
      (store32 (store32 (store32 m3 (ctx_lo ctx) (push_bit 3 (load32 m3 (ctx_lo ctx)))) (ctx + 80) (push_bit 3 (load32 m3 (ctx_lo ctx))))
        (ctx + 84) (load32 m3 (ctx_hi ctx))) = Some (ctx_buffer ctx + 64, m6)"
    "registers_at m6 ctx = absorb rfc_initial (xs @ padding xs)" "\<forall>x. x \<notin> span ctx 152 \<longrightarrow> m6 x = m3 x"
    using len(3) by (elim exE conjE)
  obtain a b c d where abcd: "registers_at m6 ctx = (a, b, c, d)" by (metis surj_pair)
  note out = written_run [OF abcd result]
  let ?m7 = "written result (a, b, c, d) m6"
  have "unat ctx + unat (152 :: u64) + 8 < 2 ^ 64" using ctx by simp
  then obtain m8 where m8: "memset ?m7 ctx 0 152 = Some m8" "m8 = (\<lambda>x. if x \<in> span ctx 152 then 0 else ?m7 x)"
    using memset_clear [of ctx 152 ?m7] by auto
  have length_at: "ctx_buffer ctx + 56 = ctx + 80" "ctx_buffer ctx + 60 = ctx + 84" by (simp_all add: ctx_buffer_def)
  have "MD5_Final result ctx m = Some m8"
    unfolding MD5_Final_def Let_def used next_used padded_def [symmetric] OUT_store32
    by (simp only: m3(1,3) Option.bind.simps prod.case k8 length_at len(1,2) m6(1) out(1-4)
        m8(1) [unfolded written_def prod.case])
  moreover have "load_bytes m8 result 16 = load_bytes ?m7 result 16"
    by (rule load_bytes_cong) (use result m8(2) in auto)
  then have "load_bytes m8 result 16 = rfc_md5 xs" using out(5) abcd m6(2) by (simp add: rfc_md5_def)
  moreover have "m8 x = m x" if "x \<notin> span ctx 152 \<union> span result 16" for x
    using that out(6) m6(3) inner_out [OF m3(4)] m8(2) by simp
  ultimately show ?thesis using m8(2) by auto
qed

section \<open>An example message\<close>

text \<open>The first test message of the RFC.\<close>

definition abc_word :: "nat \<Rightarrow> u32" where
  "abc_word n = (if n = 0 then 0x80636261 else if n = 14 then 24 else 0)"

lemma abc_padded:
  "bytes ''abc'' @ padding (bytes ''abc'') = [0x61, 0x62, 0x63, 0x80] @ replicate 52 0 @ [24, 0, 0, 0, 0, 0, 0, 0]"
  by (simp add: padding_def bytes_def bytes_of_def upt_rec)

lemma abc_block: "n < 16 \<Longrightarrow> block_word (bytes ''abc'' @ padding (bytes ''abc'')) n = abc_word n"
proof -
  assume "n < 16"
  then consider "n = 0" | "1 \<le> n" "n < 14" | "n = 14" | "n = 15" by linarith
  then show ?thesis
  proof cases
    case 2
    then obtain k where k: "n = Suc k" "k < 13" by (cases n) auto
    then have "drop (4 * n) (ws @ xs) = drop (4 * k) xs" if "length ws = 4" for ws xs :: "u8 list"
      using that by simp
    from this [of "[0x61, 0x62, 0x63, 0x80]"]
    have "take 4 (drop (4 * n) ([0x61, 0x62, 0x63, 0x80] @ replicate 52 0 @ [24, 0, 0, 0, 0, 0, 0, 0])) = replicate 4 (0 :: u8)"
      using k by (simp add: min_def)
    then show ?thesis using 2 unfolding block_word_def abc_padded by (simp add: abc_word_def eval_nat_numeral)
  qed (simp_all add: block_word_def abc_padded abc_word_def)
qed

lemma abc_steps:
  "fold (rfc_step abc_word) [0..<32] rfc_initial = (2030729211, 6214075091, 2787673258, 2672289016)"
  "fold (rfc_step abc_word) [32..<64] (2030729211, 6214075091, 2787673258, 2672289016)
     = (5117763215, 7524722355, 3833903576, 1649249458)"
  by code_simp+

lemma abc_digest:
  "rfc_md5 (bytes ''abc'') = [0x90, 0x01, 0x50, 0x98, 0x3C, 0xD2, 0x4F, 0xB0, 0xD6, 0x96, 0x3F, 0x7D, 0x28, 0xE1, 0x7F, 0x72]"
proof -
  have "[0..<64] = [0..<32] @ [32..<64 :: nat]" using upt_add_eq_append [of 0 32 32] by simp
  then have "fold (rfc_step abc_word) [0..<64] rfc_initial = (5117763215, 7524722355, 3833903576, 1649249458)"
    using abc_steps by simp
  then have "rfc_block abc_word rfc_initial = (0x98500190, 0xb04fd23c, 0x7d3f96d6, 0x727fe128)"
    by (simp add: rfc_block_def rfc_initial_def)
  moreover have "length (bytes ''abc'' @ padding (bytes ''abc'')) = 64" unfolding abc_padded by simp
  then have "absorb rfc_initial (bytes ''abc'' @ padding (bytes ''abc''))
      = rfc_block (block_word (bytes ''abc'' @ padding (bytes ''abc''))) rfc_initial"
    using absorb_block [of "bytes ''abc'' @ padding (bytes ''abc'')" rfc_initial "[]"] by simp
  moreover have "\<dots> = rfc_block abc_word rfc_initial" by (rule rfc_block_cong) (rule abc_block)
  ultimately show ?thesis by (simp add: rfc_md5_def digest_def bytes_of_def upt_rec)
qed

text \<open>A context at 0x10000 and the message at 0x20000.\<close>

definition abc_memory :: mem where
  "abc_memory = MD5_Init 0x10000 (store_bytes (\<lambda>_. 0) 0x20000 (bytes ''abc''))"

lemma abc_state: "md5_state 0x10000 [] abc_memory"
  unfolding abc_memory_def by (rule MD5_Init_run)

lemma abc_data: "data_ok 0x10000 0x20000 3"
  unfolding data_ok_def by (subst Int_commute) (simp add: span_disjoint)

lemma abc_message: "load_bytes abc_memory 0x20000 3 = bytes ''abc''"
proof -
  have "load_bytes abc_memory 0x20000 3 = load_bytes (store_bytes (\<lambda>_. 0) 0x20000 (bytes ''abc'')) 0x20000 3"
    unfolding abc_memory_def by (rule load_bytes_cong) (auto intro!: MD5_Init_run(2) simp: span_iff)
  then show ?thesis using load_store_bytes [of "bytes ''abc''" "\<lambda>_. 0" "0x20000"]
    by (simp add: numeral_3_eq_3)
qed

section \<open>Properties\<close>

text \<open>C34. The unrolled rounds of the code, with their optimised functions and rotations, compute the
  block function of RFC 1321, for every block and every value of the registers.\<close>

theorem md5_block_is_rfc: "md5_block x r = rfc_block x r"
  by (rule md5_block_rfc)

text \<open>C35. Every update keeps the context the abstraction of a message: a context that stands for the
  bytes \<open>xs\<close> stands afterwards for \<open>xs\<close> and the new data, however the data are cut into blocks and
  whatever their size, and no other memory changes.\<close>

theorem md5_update_absorbs:
  assumes "unat ctx + 160 < 2 ^ 64" and "md5_state ctx xs m" and "data_ok ctx data n"
  shows "\<exists>m'. MD5_Update ctx data (of_nat n) m = Some m' \<and> md5_state ctx (xs @ load_bytes m data n) m' \<and>
    (\<forall>x. x \<notin> span ctx 152 \<longrightarrow> m' x = m x)"
  by (rule MD5_Update_run [OF assms])

theorem md5_update_absorbs_witness:
  "\<exists>m'. MD5_Update 0x10000 0x20000 3 abc_memory = Some m' \<and> md5_state 0x10000 (bytes ''abc'') m'"
  using md5_update_absorbs [OF _ abc_state abc_data] abc_message by auto

text \<open>C36. Finishing a context that stands for the message \<open>xs\<close> writes the digest that RFC 1321 defines
  for \<open>xs\<close>, also when the padding needs a block of its own, clears the context and changes no other
  memory.\<close>

theorem md5_final_digests:
  assumes "unat ctx + 160 < 2 ^ 64" and "md5_state ctx xs m"
    and "span result 16 \<inter> span ctx 152 = {}"
  shows "\<exists>m'. MD5_Final result ctx m = Some m' \<and> load_bytes m' result 16 = rfc_md5 xs \<and>
    (\<forall>x \<in> span ctx 152. m' x = 0) \<and> (\<forall>x. x \<notin> span ctx 152 \<union> span result 16 \<longrightarrow> m' x = m x)"
  by (rule MD5_Final_run [OF assms])

theorem md5_final_digests_witness:
  "\<exists>m1 m2. MD5_Update 0x10000 0x20000 3 abc_memory = Some m1 \<and> MD5_Final 0x18000 0x10000 m1 = Some m2 \<and>
    load_bytes m2 0x18000 16
      = [0x90, 0x01, 0x50, 0x98, 0x3C, 0xD2, 0x4F, 0xB0, 0xD6, 0x96, 0x3F, 0x7D, 0x28, 0xE1, 0x7F, 0x72]"
proof -
  obtain m1 where m1: "MD5_Update 0x10000 0x20000 3 abc_memory = Some m1" "md5_state 0x10000 (bytes ''abc'') m1"
    using MD5_Update_run [OF _ abc_state abc_data] abc_message by auto
  have apart: "span 0x18000 16 \<inter> span 0x10000 152 = {}" by (subst Int_commute) (simp add: span_disjoint)
  obtain m2 where "MD5_Final 0x18000 0x10000 m1 = Some m2" "load_bytes m2 0x18000 16 = rfc_md5 (bytes ''abc'')"
    using md5_final_digests [OF _ m1(2) apart] by auto
  then show ?thesis using m1(1) abc_digest by auto
qed

end
