(* ===== verification/Md5Portable.thy ===== *)
theory Md5Portable
  imports Md5Hash
begin

text \<open>
  The other branch of the conditional in \<open>src/md5.c\<close>, for processors that are not little-endian or do
  not tolerate unaligned reads: \<open>SET\<close> puts a word together from its bytes and stores it in the
  context, where \<open>GET\<close> reads it. The comment of the code says that nothing breaks when this branch is
  used; the theory proves it.
\<close>

section \<open>The portable branch\<close>

definition ctx_block :: "u64 \<Rightarrow> u64" where "ctx_block ctx = ctx + 88"

text \<open>The value of the assignment, and the memory after it.\<close>

definition SET_portable :: "u64 \<Rightarrow> u64 \<Rightarrow> nat \<Rightarrow> mem \<Rightarrow> u32 \<times> mem" where
  "SET_portable ctx ptr n m =
     (let x = ucast (m (ptr + 4 * of_nat n)) OR push_bit 8 (ucast (m (ptr + 4 * of_nat n + 1)))
            OR push_bit 16 (ucast (m (ptr + 4 * of_nat n + 2))) OR push_bit 24 (ucast (m (ptr + 4 * of_nat n + 3)))
      in (x, store32 m (ctx_block ctx + 4 * of_nat n) x))"

definition GET_portable :: "u64 \<Rightarrow> mem \<Rightarrow> nat \<Rightarrow> u32" where
  "GET_portable ctx m n = load32 m (ctx_block ctx + 4 * of_nat n)"

definition round1_portable :: "u64 \<Rightarrow> u64 \<Rightarrow> mem \<Rightarrow> registers \<Rightarrow> registers \<times> mem" where
  "round1_portable ctx ptr m = (\<lambda>(a, b, c, d). let
     (x, m) = SET_portable ctx ptr 0 m; a = STEP F a b c d x 0xd76aa478 7;
     (x, m) = SET_portable ctx ptr 1 m; d = STEP F d a b c x 0xe8c7b756 12;
     (x, m) = SET_portable ctx ptr 2 m; c = STEP F c d a b x 0x242070db 17;
     (x, m) = SET_portable ctx ptr 3 m; b = STEP F b c d a x 0xc1bdceee 22;
     (x, m) = SET_portable ctx ptr 4 m; a = STEP F a b c d x 0xf57c0faf 7;
     (x, m) = SET_portable ctx ptr 5 m; d = STEP F d a b c x 0x4787c62a 12;
     (x, m) = SET_portable ctx ptr 6 m; c = STEP F c d a b x 0xa8304613 17;
     (x, m) = SET_portable ctx ptr 7 m; b = STEP F b c d a x 0xfd469501 22;
     (x, m) = SET_portable ctx ptr 8 m; a = STEP F a b c d x 0x698098d8 7;
     (x, m) = SET_portable ctx ptr 9 m; d = STEP F d a b c x 0x8b44f7af 12;
     (x, m) = SET_portable ctx ptr 10 m; c = STEP F c d a b x 0xffff5bb1 17;
     (x, m) = SET_portable ctx ptr 11 m; b = STEP F b c d a x 0x895cd7be 22;
     (x, m) = SET_portable ctx ptr 12 m; a = STEP F a b c d x 0x6b901122 7;
     (x, m) = SET_portable ctx ptr 13 m; d = STEP F d a b c x 0xfd987193 12;
     (x, m) = SET_portable ctx ptr 14 m; c = STEP F c d a b x 0xa679438e 17;
     (x, m) = SET_portable ctx ptr 15 m; b = STEP F b c d a x 0x49b40821 22
     in ((a, b, c, d), m))"

definition block_portable :: "u64 \<Rightarrow> u64 \<Rightarrow> mem \<Rightarrow> registers \<Rightarrow> registers \<times> mem" where
  "block_portable ctx ptr m = (\<lambda>(saved_a, saved_b, saved_c, saved_d).
     let (r, m) = round1_portable ctx ptr m (saved_a, saved_b, saved_c, saved_d);
         x = GET_portable ctx m;
         (a, b, c, d) = md5_round4 x (md5_round3 x (md5_round2 x r))
     in ((a + saved_a, b + saved_b, c + saved_c, d + saved_d), m))"

partial_function (option) body_loop_portable ::
    "u64 \<Rightarrow> mem \<Rightarrow> u64 \<Rightarrow> u64 \<Rightarrow> registers \<Rightarrow> (u64 \<times> registers \<times> mem) option" where
  "body_loop_portable ctx m ptr n r =
     (let (r, m) = block_portable ctx ptr m r; ptr = ptr + 64; n = n - 64
      in if n \<noteq> 0 then body_loop_portable ctx m ptr n r else Some (ptr, r, m))"

definition body_portable :: "u64 \<Rightarrow> u64 \<Rightarrow> u64 \<Rightarrow> mem \<Rightarrow> (u64 \<times> mem) option" where
  "body_portable ctx data n m = do {
     let a = load32 m (ctx_a ctx);
     let b = load32 m (ctx_b ctx);
     let c = load32 m (ctx_c ctx);
     let d = load32 m (ctx_d ctx);
     (ptr, (a, b, c, d), m) \<leftarrow> body_loop_portable ctx m data n (a, b, c, d);
     let m = store32 m (ctx_a ctx) a;
     let m = store32 m (ctx_b ctx) b;
     let m = store32 m (ctx_c ctx) c;
     let m = store32 m (ctx_d ctx) d;
     Some (ptr, m) }"

section \<open>One block\<close>

text \<open>Memories that differ in the block of words only.\<close>

definition off_block :: "u64 \<Rightarrow> mem \<Rightarrow> mem \<Rightarrow> bool" where
  "off_block ctx m m' \<longleftrightarrow> (\<forall>x. x \<notin> span (ctx_block ctx) 64 \<longrightarrow> m' x = m x)"

abbreviation put_word :: "mem \<Rightarrow> u64 \<Rightarrow> u64 \<Rightarrow> nat \<Rightarrow> mem \<Rightarrow> mem" where
  "put_word m ctx ptr n \<equiv> \<lambda>m'. store32 m' (ctx_block ctx + 4 * of_nat n) (SET m ptr n)"

lemma word_span:
  "n < 16 \<Longrightarrow> x \<in> span (a + 4 * of_nat n) 4 \<longleftrightarrow> 4 * n \<le> unat (x - a) \<and> unat (x - a) < 4 * n + 4" for a x :: u64
  using in_span_offset [of "4 * n" 4 x a] by simp

lemma word_or: "(word_of_bytes [b0, b1, b2, b3] :: u32)
    = ucast b0 OR push_bit 8 (ucast b1) OR push_bit 16 (ucast b2) OR push_bit 24 (ucast b3)"
  by (rule bit_word_eqI) (auto simp: bit_simps)

lemma SET_portable_run:
  assumes m': "off_block ctx m m'" and n: "n < 16" and apart: "span ptr 64 \<inter> span (ctx_block ctx) 64 = {}"
  shows "SET_portable ctx ptr n m' = (SET m ptr n, put_word m ctx ptr n m')"
    "off_block ctx m (put_word m ctx ptr n m')"
proof -
  have "m' (ptr + 4 * of_nat n + of_nat i) = m (ptr + 4 * of_nat n + of_nat i)" if "i < 4" for i
  proof -
    have "ptr + of_nat (4 * n + i) \<in> span ptr 64" using n that by (intro span_add) simp_all
    moreover have "ptr + of_nat (4 * n + i) = ptr + 4 * of_nat n + of_nat i" by (simp add: add.assoc)
    ultimately show ?thesis using m' apart unfolding off_block_def by (metis disjoint_iff)
  qed
  note same = this [of 0] this [of 1] this [of 2] this [of 3]
  have "SET m ptr n = word_of_bytes [m (ptr + 4 * of_nat n), m (ptr + 4 * of_nat n + 1), m (ptr + 4 * of_nat n + 2),
      m (ptr + 4 * of_nat n + 3)]"
    by (simp add: SET_def load32_def load_bytes_def at_def upt_rec)
  then show "SET_portable ctx ptr n m' = (SET m ptr n, put_word m ctx ptr n m')"
    using same by (simp add: SET_portable_def Let_def word_or)
  show "off_block ctx m (put_word m ctx ptr n m')"
    unfolding off_block_def
  proof (intro allI impI)
    fix x
    assume x: "x \<notin> span (ctx_block ctx) 64"
    then have "x \<notin> span (ctx_block ctx + 4 * of_nat n) 4" using n word_span [OF n, of x "ctx_block ctx"] by (auto simp: in_span [of _ _ 64])
    then show "put_word m ctx ptr n m' x = m x" using m' x by (simp add: off_block_def store32_out)
  qed
qed

lemma Let_pair: "(let (x, y) = (p, q) in f x y) = f p q"
  by simp

lemma Let_out: "(let x = v in (f x, c)) = ((let x = v in f x), c)"
  by (simp add: Let_def)

text \<open>The memory after the first round.\<close>

definition put_block :: "mem \<Rightarrow> u64 \<Rightarrow> u64 \<Rightarrow> mem \<Rightarrow> mem" where
  "put_block m ctx ptr = fold (put_word m ctx ptr) [0, 1, 2, 3, 4, 5, 6, 7, 8, 9, 10, 11, 12, 13, 14, 15]"

lemma round1_portable_run:
  assumes "off_block ctx m m'" and "span ptr 64 \<inter> span (ctx_block ctx) 64 = {}"
  shows "round1_portable ctx ptr m' r = (md5_round1 (SET m ptr) r, put_block m ctx ptr m')"
proof -
  note run = SET_portable_run [where m = m, OF _ _ assms(2)]
  obtain a b c d where r: "r = (a, b, c, d)" by (cases r) auto
  show ?thesis
    unfolding r round1_portable_def md5_round1_def put_block_def prod.case fold_simps
    by (simp only: run assms(1) Let_pair Let_out rel_simps zero_less_numeral one_less_numeral_iff simp_thms)
qed

lemma put_words:
  assumes "off_block ctx m m'" and apart: "span ptr 64 \<inter> span (ctx_block ctx) 64 = {}"
    and "\<forall>n \<in> set ns. n < 16"
  shows "off_block ctx m (fold (put_word m ctx ptr) ns m') \<and>
    (\<forall>j \<in> set ns. GET_portable ctx (fold (put_word m ctx ptr) ns m') j = SET m ptr j)"
  using assms(3)
proof (induction ns rule: rev_induct)
  case Nil
  then show ?case using assms(1) by simp
next
  case (snoc n ns)
  let ?m = "fold (put_word m ctx ptr) ns m'"
  have IH: "off_block ctx m ?m" "\<forall>j \<in> set ns. GET_portable ctx ?m j = SET m ptr j" using snoc by simp_all
  have n: "n < 16" using snoc.prems by simp
  have "GET_portable ctx (put_word m ctx ptr n ?m) j = SET m ptr j" if "j \<in> set ns \<or> j = n" for j
  proof (cases "j = n")
    case True
    then show ?thesis by (simp add: GET_portable_def load32_store32)
  next
    case False
    then have "j < 16" "j \<in> set ns" using that snoc.prems by auto
    then have "span (ctx_block ctx + 4 * of_nat j) 4 \<inter> span (ctx_block ctx + 4 * of_nat n) 4 = {}"
      using n False by (auto simp: word_span)
    then have "GET_portable ctx (put_word m ctx ptr n ?m) j = GET_portable ctx ?m j"
      unfolding GET_portable_def by (intro load32_cong store32_out) blast
    then show ?thesis using IH(2) \<open>j \<in> set ns\<close> by simp
  qed
  then show ?case using SET_portable_run(2) [OF IH(1) n apart] by simp
qed

lemma rounds_cong:
  assumes "\<And>j. j < 16 \<Longrightarrow> x j = y j"
  shows "md5_round2 x r = md5_round2 y r" "md5_round3 x r = md5_round3 y r" "md5_round4 x r = md5_round4 y r"
  unfolding md5_round2_def md5_round3_def md5_round4_def
  by (simp_all only: assms rel_simps zero_less_numeral one_less_numeral_iff simp_thms)

lemma block_portable_run:
  assumes "off_block ctx m m'" and "span ptr 64 \<inter> span (ctx_block ctx) 64 = {}"
  shows "\<exists>m''. block_portable ctx ptr m' r = (md5_block (SET m ptr) r, m'') \<and> off_block ctx m m''"
proof -
  obtain a b c d where r: "r = (a, b, c, d)" by (cases r) auto
  have put: "off_block ctx m (put_block m ctx ptr m')"
    "GET_portable ctx (put_block m ctx ptr m') j = SET m ptr j" if "j < 16" for j
  proof -
    have "set [0, 1, 2, 3, 4, 5, 6, 7, 8, 9, 10, 11, 12, 13, 14, 15] = {..<16 :: nat}" by (auto simp: numeral_eq_Suc lessThan_Suc)
    then show "GET_portable ctx (put_block m ctx ptr m') j = SET m ptr j" "off_block ctx m (put_block m ctx ptr m')"
      using put_words [OF assms, of "[0, 1, 2, 3, 4, 5, 6, 7, 8, 9, 10, 11, 12, 13, 14, 15]"] that
      unfolding put_block_def by blast+
  qed
  note cong = rounds_cong [of "GET_portable ctx (put_block m ctx ptr m')" "SET m ptr", OF put(2)]
  have "block_portable ctx ptr m' r = (md5_block (SET m ptr) r, put_block m ctx ptr m')"
    by (simp add: r block_portable_def md5_block_def round1_portable_run [OF assms] Let_def cong split: prod.split)
  then show ?thesis using put(1) [of 0] by auto
qed

section \<open>All blocks\<close>

lemma off_block_trans: "off_block ctx m m' \<Longrightarrow> off_block ctx m' m'' \<Longrightarrow> off_block ctx m m''"
  by (simp add: off_block_def)

lemma body_loop_portable_run:
  assumes "0 < k" and "64 * k < 2 ^ 64" and "span ptr (64 * k) \<inter> span (ctx_block ctx) 64 = {}" and "off_block ctx m m'"
  shows "\<exists>p r' m''. body_loop m ptr (of_nat (64 * k)) r = Some (p, r') \<and>
    body_loop_portable ctx m' ptr (of_nat (64 * k)) r = Some (p, r', m'') \<and> off_block ctx m m''"
  using assms
proof (induction k arbitrary: ptr r m')
  case 0
  then show ?case by simp
next
  case (Suc k)
  let ?r = "md5_block (SET m ptr) r" and ?n = "of_nat (64 * Suc k) :: u64"
  have "span ptr 64 \<inter> span (ctx_block ctx) 64 = {}" using Suc.prems(3) span_mono [of 64 "64 * Suc k" ptr] by auto
  from block_portable_run [OF Suc.prems(4) this] obtain m1 where
    m1: "block_portable ctx ptr m' r = (?r, m1)" "off_block ctx m m1" by blast
  have n: "?n - 64 = of_nat (64 * k)" by simp
  show ?case
  proof (cases "k = 0")
    case True
    then show ?thesis using m1 by (subst body_loop.simps, subst body_loop_portable.simps) (simp add: Let_def)
  next
    case False
    then have nz: "(of_nat (64 * k) :: u64) \<noteq> 0" using Suc.prems(2) by (simp add: word_unat_eq_iff unat_of_nat del: of_nat_mult)
    have "span (ptr + 64) (64 * k) \<subseteq> span ptr (64 * Suc k)"
      using in_span_offset [of 64 "64 * k" _ ptr] Suc.prems(2) by (auto simp: in_span [of _ ptr])
    then have "span (ptr + 64) (64 * k) \<inter> span (ctx_block ctx) 64 = {}" using Suc.prems(3) by blast
    moreover have "0 < k" "64 * k < 2 ^ 64" using False Suc.prems(2) by simp_all
    ultimately obtain p r' m'' where u: "body_loop m (ptr + 64) (of_nat (64 * k)) ?r = Some (p, r')"
      "body_loop_portable ctx m1 (ptr + 64) (of_nat (64 * k)) ?r = Some (p, r', m'')" "off_block ctx m m''"
      using Suc.IH [OF _ _ _ m1(2)] by blast
    have "body_loop m ptr ?n r = Some (p, r')"
      by (subst body_loop.simps) (simp only: Let_def n nz u(1) if_True not_False_eq_True)
    moreover have "body_loop_portable ctx m' ptr ?n r = Some (p, r', m'')"
      by (subst body_loop_portable.simps) (simp only: Let_def n nz m1(1) prod.case u(2) if_True not_False_eq_True)
    ultimately show ?thesis using u(3) by blast
  qed
qed

lemma off_block_registers: "off_block ctx m m' \<Longrightarrow> off_block ctx (set_registers ctx r m) (set_registers ctx r m')"
  by (cases r) (auto simp: off_block_def set_registers_def store32_def store_bytes_apply)

section \<open>Properties\<close>

text \<open>C37. The portable branch computes the same: for data that does not overlap the block of words in
  the context, \<open>body\<close> returns with it what it returns without, and leaves the same memory except for
  that block.\<close>

theorem portable_body_same:
  assumes "0 < k" and "64 * k < 2 ^ 64" and "span data (64 * k) \<inter> span (ctx_block ctx) 64 = {}"
  shows "\<exists>p m1 m2. body ctx data (of_nat (64 * k)) m = Some (p, m1) \<and>
    body_portable ctx data (of_nat (64 * k)) m = Some (p, m2) \<and>
    registers_at m2 ctx = registers_at m1 ctx \<and> off_block ctx m1 m2"
proof -
  let ?r = "registers_at m ctx"
  have "off_block ctx m m" by (simp add: off_block_def)
  from body_loop_portable_run [OF assms this] obtain p r' m'' where
    u: "body_loop m data (of_nat (64 * k)) ?r = Some (p, r')"
      "body_loop_portable ctx m data (of_nat (64 * k)) ?r = Some (p, r', m'')" "off_block ctx m m''" by blast
  have "body ctx data (of_nat (64 * k)) m = Some (p, set_registers ctx r' m)"
    using u(1) by (simp add: body_def registers_at_def set_registers_def Let_def split: prod.split)
  moreover have "body_portable ctx data (of_nat (64 * k)) m = Some (p, set_registers ctx r' m'')"
    using u(2) by (simp add: body_portable_def registers_at_def set_registers_def Let_def split: prod.split)
  ultimately show ?thesis using off_block_registers [OF u(3)] by simp
qed

theorem portable_body_same_witness:
  "\<exists>p m. body_portable 0x7000 0x8000 64 (\<lambda>_. 0) = Some (p, m) \<and>
    registers_at m 0x7000 = absorb (0, 0, 0, 0) (replicate 64 0)"
proof -
  have "span (ctx_block 0x7000) 64 \<inter> span 0x8000 (64 * 1) = {}" by (rule span_disjoint) (simp_all add: ctx_block_def)
  then have "span 0x8000 (64 * 1) \<inter> span (ctx_block 0x7000) 64 = {}" by blast
  from portable_body_same [of 1, OF _ _ this, of "\<lambda>_. 0"] obtain p m1 m2 where
    t: "body 0x7000 0x8000 (of_nat (64 * 1)) (\<lambda>_. 0) = Some (p, m1)"
    "body_portable 0x7000 0x8000 64 (\<lambda>_. 0) = Some (p, m2)" "registers_at m2 0x7000 = registers_at m1 0x7000"
    by auto
  have "load_bytes (\<lambda>_. 0) a 64 = replicate 64 0" for a
    by (rule nth_equalityI) simp_all
  moreover have "registers_at (\<lambda>_. 0) 0x7000 = (0, 0, 0, 0)"
    by (simp add: registers_at_def load32_def load_bytes_def at_def upt_rec)
  ultimately have "registers_at m1 0x7000 = absorb (0, 0, 0, 0) (replicate 64 0)"
    using t(1) body_run [of 1 "0x7000" "0x8000" "\<lambda>_. 0"] by auto
  with t(2,3) show ?thesis by auto
qed

end
