(* ===== verification/Spec2Isabelle.thy ===== *)
theory Spec2Isabelle
  imports BootTheorems Mappings Listing Screen LongMode Md5Portable
begin

text \<open>
  A verification development for the second stage of a boot loader, the C code and the start-up
  code of \<open>src/bootloader/cboot\<close> (paths below are relative to that directory).

  \<^bold>\<open>The program.\<close> The boot sector leaves the BIOS memory map at 0x500 and starts
  \<open>asm/start.asm\<close>, which checks the processor, builds a first set of page tables, switches to 64-bit mode and calls
  \<open>cboot_main\<close>. That procedure installs the exception handlers, initialises the serial port, sums
  the free memory, looks for the system partition in the GUID partition table, maps physical
  memory at 0xFFFF800000000000, reads \<open>/sys/kernel.elf\<close> from the USTAR archive on the partition
  through the ATA ports, copies and maps its segments, and jumps to its entry point. All components
  share one machine: the memory, the global variables of the C files and the ports.

  \<^bold>\<open>The model.\<close> \<open>Machine.machine\<close> is a record of the memory (a total function from 64-bit addresses
  to bytes), the globals of \<open>vga.c\<close> and \<open>paging.c\<close>, CR3 and the history of port accesses and
  privileged instructions. A C function becomes a function from machines to machines, in the option
  type when a loop of it may run for ever: \<open>None\<close> means that it does not return, and nothing else. Such
  loops are \<open>partial_function (option)\<close>, so nothing bounds
  them, and that they end is part of the theorems. Counted loops are recursions on the iterations that
  remain, so the development has no fuel. Integers have the width of the C types and
  wrap around. A packed structure is a record read from its bytes at each use, as the code reads it;
  arguments that point to constant data, and memory that a function only reads, are views, functions
  from offsets to bytes. The globals \<open>column_counter\<close>, \<open>foreground\<close>, \<open>background\<close> and \<open>it\<close> are
  fields of the record; in the program they are bytes of its image at 0x10000, so statements on the
  memory of a whole boot (\<open>cboot_main_confined\<close>) say nothing of the image.

  \<^bold>\<open>Addresses and faults.\<close> The memory is addressed by the virtual address that the code uses. The
  boot tables map the first 2 MiB to themselves and nothing else; \<open>setup_physical_map\<close> adds the window
  at 0xFFFF800000000000, 1 GiB at a time up to the sum of the free memory. \<open>Paging.walk\<close> is the walk of
  the hardware. Where the address of an access comes from the BIOS map or depends on the tables just
  built, the access goes through the walk: the self-test of the window (\<open>mmu_memcmp\<close>) and the clearing
  of the kernel's memory (\<open>mmu_clear\<close>). These stop with \<open>PageFault\<close> at the first address that is not
  mapped, and the clearing with \<open>Overwrite\<close> at the first page of the loader's own tables, code and
  stack, after which the model ends, since the processor then runs on cached translations and code. The other accesses
  of the procedure are not checked one by one, because they stay within what is mapped: the tables, the
  image, the stack, the BIOS map and the screen are below 2 MiB, and the file and its segments are in the
  memory that was cleared before. \<open>cboot_main_boots\<close> proves that these translations are still there at
  the end, and no step removes one. Bytes below 2 MiB are also visible through the window; the code does
  not use both names of one byte except in the self-test. Statements on single functions
  such as \<open>memset\<close> or \<open>ATA_PIO_read_sectors\<close> are about mapped memory.

  \<^bold>\<open>Devices and parameters.\<close> The devices are a parameter \<open>D\<close>: what a port answers after a given
  history. What the code needs of them is stated as a contract with an instance. \<open>serial_live\<close>: the
  transmitter becomes empty again. \<open>ata_drive D disk\<close>: the status becomes not busy and ready; after a
  read command a status read that shows BSY, ERR and DF clear and DRQ set, and only that, lets the next 256
  words of the data port be those of the sector of \<open>disk\<close> that is due; a drive not busy with a read outstanding offers its
  data; a write to the registers in between cancels the command. \<open>Ata.with_drive\<close> satisfies
  both. Arrays on the stack are at addresses that are parameters, between the end of the
  table pool and 0x70000 (\<open>BootLayout.frames_ok\<close>); the addresses that the linker chooses (handlers, descriptor
  table) are parameters as well.

  \<^bold>\<open>The theories.\<close>
  \<^item> \<open>Prelude\<close>: the integer types of \<open>include/int_types.h\<close>, address ranges, strings as views.
  \<^item> \<open>Mem\<close> (\<open>src/mem.c\<close>): loads and stores with the interface \<open>cell_store\<close> of addressable cells,
    which 64-bit words, 32-bit words (\<open>Md5Hash\<close>), bytes, screen cells (\<open>Vga\<close>) and interrupt gates
    (\<open>Interrupts\<close>) interpret; \<open>memset\<close>, \<open>memcpy\<close>, \<open>memcmp\<close>, \<open>strncmp\<close>, \<open>strncpy\<close>. The
    theorems give the exact memory afterwards and the cases in which the functions return.
  \<^item> \<open>Machine\<close> (\<open>src/ports.c\<close>), \<open>Serial\<close> (\<open>src/serial.c\<close>): ports, polling, the serial port.
  \<^item> \<open>Vga\<close> (\<open>src/vga.c\<close>) and \<open>Print\<close> (\<open>src/print.c\<close>): the text screen and formatted output. The
    interface \<open>printer\<close> of a character device carries all statements on output; the serial port
    and the console interpret it. Numbers printed read back. \<open>Screen\<close> states what a user sees, rows
    of cells that scroll, and proves that the operations implement it.
  \<^item> \<open>Paging\<close> (\<open>src/paging.c\<close>, \<open>include/paging.h\<close>): entries, allocation, the two mapping
    functions, the window. The invariant \<open>tables_ok\<close>: the tables are pairwise different pages below
    the watermark. One lemma per mapping function gives the translation of every address
    afterwards. \<open>Startup\<close> (\<open>asm/start.asm\<close>): the boot tables satisfy the invariant.
    \<open>LongMode\<close> is the rest of \<open>start.asm\<close>: the checks of the processor with their error display, the
    control bits, the arithmetic flags and the stack, and the descriptor table, for which the gates of
    \<open>Interrupts\<close> are well typed.
    \<open>Mappings\<close>: the machines that sequences of mappings reach, their translation and that
    they are reached. \<open>PhysicalMap\<close>: the window and its self-test. \<open>Listing\<close>: \<open>print_pagetable\<close>.
  \<^item> \<open>Interrupts\<close> (\<open>src/interrupts.c\<close>, \<open>src/exceptions.c\<close>): the descriptor table as the hardware
    reads it and the output of the handlers.
  \<^item> \<open>Memmap\<close>, \<open>Gpt\<close> (\<open>src/main.c\<close>, \<open>include/bios_memory_map.h\<close>, \<open>include/gpt.h\<close>): the memory map as
    a list of regions, its sum and the first fit; the partition table as a list of entries.
  \<^item> \<open>Ata\<close> (\<open>src/ata.c\<close>): sectors read and written, against the contract of the drive.
  \<^item> \<open>Ustar\<close> (\<open>src/ustar.c\<close>) and \<open>Archive\<close>: the archive functions, and the relation \<open>lookup\<close> that they
    implement. The interface \<open>tar_search\<close> is the step that the two search loops share.
  \<^item> \<open>Elf\<close> (\<open>map_kernel\<close> of \<open>src/main.c\<close>, \<open>include/elf64.h\<close>) and \<open>KernelMap\<close>: the segments in memory
    and in the translation, as functions of the bytes of the file.
  \<^item> \<open>Effects\<close>: what a stretch of the procedure does to the translation, to the memory off the tables and
    the screen, and to the table pool. Output, disk input, stores and mappings are effects, and effects
    compose (\<open>effect_trans\<close>); a step that only touches a known area is \<open>quiet\<close>.
  \<^item> \<open>Boot\<close> (\<open>cboot_main\<close>, \<open>include/bootinfo.h\<close>), \<open>BootLayout\<close>, \<open>BootRun\<close>, \<open>BootExample\<close>, \<open>BootTheorems\<close>: the
    whole procedure, from the machine that \<open>start.asm\<close> leaves to the jump into the kernel, to
    \<open>halt\<close> or to the access that stops it. \<open>BootLayout\<close> places the data and has the clearing of the
    kernel's memory through the tables, \<open>BootRun\<close> has one effect per phase, \<open>BootExample\<close> a disk with a
    kernel. The theorems: the kernel is started with its segments loaded and mapped; no other memory
    is touched; without the file and for a file that is not ELF the machine halts, and in which state;
    and where the boot stops when the memory for the kernel is not in the window or there is none.
  \<^item> \<open>Md5\<close> (\<open>src/md5.c\<close>, \<open>include/md5.h\<close>) and \<open>Md5Hash\<close>: the digest, with RFC 1321 as the
    reference: the unrolled rounds are its block function, the context in memory stands for the
    message fed so far, and the result is its digest. \<open>Md5Portable\<close> has the branch of the code for other
    processors and proves that it computes the same.

  \<^bold>\<open>Bounds.\<close> Page tables are taken from 0x20000 on; \<open>pt_limit\<close> = 0x60000 ends the pool in the model
  (the code has no limit), which leaves room for 64 tables, so for 21 mappings of any size.
  The statement on \<open>cboot_main\<close> asks for at most 100 regions of memory, at most 511 GiB
  of free memory (beyond it the window is entered in the wrong slot, \<open>physical_map_wrong_slot\<close>), the
  region for the kernel in the window (\<open>kernel_memory_cleared\<close> has the other cases) and a partition table within the eight sectors that the code loads. Statements on \<open>memset\<close> and
  \<open>memcpy\<close> exclude regions that reach the last eight bytes of the address space, where the
  loop conditions wrap around.

  The index of \<open>hexdump\<close> is kept at 64 bits: for the largest size its loop does not end, which the
  statement on it excludes. For \<open>start.asm\<close>, the answers of \<open>cpuid\<close>, the flags that can be changed, the
  flag that the manual leaves undefined and the return addresses are parameters.

  \<^bold>\<open>Not modelled.\<close> The boot sector (\<open>mbr/mbr.asm\<close>), 16-bit code around BIOS calls. The kernel, a Rust stub
  that is outside the boot loader. Build files and linker scripts. Of \<open>md5.c\<close>, the branch for OpenSSL.
  Of the C headers, the prototypes, macros without a use and the signed integer types, which no C code
  uses. What remains of the C code is modelled.
\<close>

end
